(* ===== verification/Prelude.thy ===== *)
theory Prelude
  imports Main "HOL-Library.Word" "HOL-Library.Multiset"
begin

text \<open>
  Shared vocabulary of the development: the machine types of the C++ sources, the faults that an
  operation can end in, generic facts on lists and words, and four interface locales for transition
  systems. \<open>invariant_system\<close> lifts a step-wise invariant to all reachable states;
  \<open>terminating_system\<close> adds a measure and a progress law and concludes that every run is finite
  and ends in a final state; \<open>refinement\<close> transfers reachability along an abstraction function;
  \<open>terminating_refinement\<close> transfers termination to a client with bookkeeping of its own.
  The concurrent components interpret all four.
\<close>

section \<open>Machine types\<close>

text \<open>\<open>std::uint64_t\<close> and, on the supported 64-bit Linux targets, \<open>std::size_t\<close>.\<close>

type_synonym u64 = "64 word"
type_synonym size_t = "64 word"

text \<open>
  \<open>steady_clock::time_point\<close> and \<open>steady_clock::duration\<close>, as a signed number of clock ticks
  (nanoseconds). The representation is a 64-bit signed integer whose overflow is undefined
  behaviour in C++; the metrics theory proves when no intermediate value leaves that range.
\<close>

type_synonym time_point = int
type_synonym duration = int

definition in_int64 :: "int \<Rightarrow> bool" where
  "in_int64 x \<longleftrightarrow> - (2 ^ 63) \<le> x \<and> x < 2 ^ 63"

text \<open>
  The ways an operation can fail: the standard exceptions the sources throw themselves, the ones
  \<open>std::promise\<close> throws, and two kinds of undefined behaviour: dereferencing a null \<open>unique_ptr\<close>
  and dereferencing the end of a vector.
\<close>

datatype fault =
    Invalid_argument string
  | Logic_error string
  | System_error
  | Future_already_retrieved
  | Promise_already_satisfied
  | No_state
  | Null_task
  | Past_the_end

section \<open>Collections of rewrite rules\<close>

named_theorems core_defs \<open>definitions of the core vocabulary\<close>
named_theorems queue_defs \<open>definitions of the queue operations\<close>
named_theorems pool_defs \<open>definitions of the pool's state projections\<close>

section \<open>Lists\<close>

lemma concat_update_append:
  assumes "i < length xss"
  shows "mset (concat (xss[i := xss ! i @ [x]])) = mset (concat xss) + {#x#}"
  using assms
proof (induction xss arbitrary: i)
  case Nil
  then show ?case by simp
next
  case (Cons xs xss)
  then show ?case by (cases i) auto
qed

lemma length_concat_update_append:
  "i < length xss \<Longrightarrow> length (concat (xss[i := xss ! i @ [x]])) = Suc (length (concat xss))"
  using concat_update_append [of i xss x] by (metis size_mset mset_append mset.simps(2) mset_single_iff_right size_add_mset add_mset_add_single)

lemma nth_update: "xs[i := x] ! j = (if i = j \<and> i < length xs then x else xs ! j)"
  by (cases "i < length xs") (auto simp: nth_list_update list_update_beyond)

text \<open>The sum of a weight over a list whose \<open>i\<close>-th entry is replaced.\<close>

lemma sum_list_map_update:
  fixes f :: "'a \<Rightarrow> nat"
  assumes "i < length xs"
  shows "sum_list (map f (xs[i := x])) + f (xs ! i) = sum_list (map f xs) + f x"
  using assms
proof (induction xs arbitrary: i)
  case Nil
  then show ?case by simp
next
  case (Cons y ys)
  then show ?case by (cases i) (auto simp: algebra_simps)
qed

lemma sum_mset_map_update:
  fixes f :: "'a \<Rightarrow> 'b multiset"
  assumes "i < length xs"
  shows "sum_list (map f (xs[i := x])) + f (xs ! i) = sum_list (map f xs) + f x"
  using assms
proof (induction xs arbitrary: i)
  case Nil
  then show ?case by simp
next
  case (Cons y ys)
  then show ?case by (cases i) (auto simp: ac_simps)
qed

lemma sum_list_map_pos:
  fixes f :: "'a \<Rightarrow> nat"
  shows "x \<in> set xs \<Longrightarrow> f x \<le> sum_list (map f xs)"
  by (induction xs) auto

text \<open>
  Double-entry bookkeeping: a balance \<open>r + u = z\<close> is kept when one contribution to \<open>u\<close>
  changes and \<open>r\<close> and \<open>z\<close> change accordingly.
\<close>

lemma balance_kept:
  fixes r u z :: "'a :: cancel_comm_monoid_add"
  assumes "u' + c = u + c'" and "r + u = z" and "r' + c' + z = r + c + z'"
  shows "r' + u' = z'"
proof -
  have "(r' + u') + (c + c' + z) = (r' + c' + z) + (u' + c)" by (simp add: ac_simps)
  also have "\<dots> = (r + c + z') + (u + c')" by (simp only: assms(1,3))
  also have "\<dots> = z' + (c + c' + (r + u))" by (simp add: ac_simps)
  finally show ?thesis by (simp add: assms(2))
qed

section \<open>Words\<close>

lemma unat_of_nat_u64 [simp]: "n < 2 ^ 64 \<Longrightarrow> unat (of_nat n :: u64) = n"
  by (simp add: unat_of_nat take_bit_nat_eq_self)

lemma unat_le_u64: "n \<le> unat (w :: u64) \<Longrightarrow> n < 2 ^ 64"
  using unsigned_less [of w, where ?'a = nat] by simp

lemma unat_pos_u64: "(w :: u64) \<noteq> 0 \<Longrightarrow> 0 < unat w"
  by (simp add: unat_gt_0)

lemma unat_succ_below: "i < (n :: u64) \<Longrightarrow> unat (i + 1) = Suc (unat i)"
proof -
  assume "i < n"
  then have "unat i < unat n" by (simp add: word_less_nat_alt)
  moreover have "unat n < 2 ^ 64" using unsigned_less [of n, where ?'a = nat] by simp
  ultimately show ?thesis by (simp add: unat_word_ariths)
qed

section \<open>Transition systems\<close>

inductive reach :: "('s \<Rightarrow> bool) \<Rightarrow> ('s \<Rightarrow> 's \<Rightarrow> bool) \<Rightarrow> 's \<Rightarrow> bool"
  for init step where
  reach_init: "init s \<Longrightarrow> reach init step s"
| reach_step: "reach init step s \<Longrightarrow> step s t \<Longrightarrow> reach init step t"

lemma reach_mono:
  assumes "reach init step s"
    and "\<And>s t. step s t \<Longrightarrow> step' s t"
  shows "reach init step' s"
  using assms by (induction rule: reach.induct) (auto intro: reach.intros)

lemma reach_steps: "step\<^sup>*\<^sup>* s t \<Longrightarrow> reach init step s \<Longrightarrow> reach init step t"
  by (induction rule: rtranclp_induct) (auto intro: reach_step)

text \<open>Tracing back: where a run started, and the step at which a fact became true.\<close>

lemma reach_origin:
  "reach init step s \<Longrightarrow> \<exists>u. init u \<and> step\<^sup>*\<^sup>* u s"
  by (induction rule: reach.induct) (blast intro: rtranclp.rtrancl_into_rtrancl)+

lemma reach_crossing:
  assumes "reach init step s" and "P s" and "\<And>x. init x \<Longrightarrow> \<not> P x"
  obtains x y where "reach init step x" "\<not> P x" "step x y" "P y" "step\<^sup>*\<^sup>* y s"
proof -
  have "\<exists>x y. reach init step x \<and> \<not> P x \<and> step x y \<and> P y \<and> step\<^sup>*\<^sup>* y s"
    using assms(1,2)
  proof (induction rule: reach.induct)
    case (reach_step s t)
    then show ?case
      by (cases "P s") (blast intro: rtranclp.rtrancl_into_rtrancl, blast)
  qed (use assms(3) in blast)
  with that show thesis by blast
qed

locale invariant_system =
  fixes init :: "'s \<Rightarrow> bool"
    and step :: "'s \<Rightarrow> 's \<Rightarrow> bool"
    and inv :: "'s \<Rightarrow> bool"
  assumes inv_init: "init s \<Longrightarrow> inv s"
    and inv_step: "inv s \<Longrightarrow> step s t \<Longrightarrow> inv t"
begin

lemma inv_reach: "reach init step s \<Longrightarrow> inv s"
  by (induction rule: reach.induct) (auto intro: inv_init inv_step)

lemma inv_steps: "step\<^sup>*\<^sup>* s t \<Longrightarrow> inv s \<Longrightarrow> inv t"
  by (induction rule: rtranclp_induct) (auto intro: inv_step)

end

text \<open>
  \<open>run\<close> is the part of the step relation that a component performs by itself once no new call
  arrives. It decreases a weight, and it can only stop in a final state.
\<close>

locale terminating_system = invariant_system init step inv
  for init :: "'s \<Rightarrow> bool" and step :: "'s \<Rightarrow> 's \<Rightarrow> bool" and inv :: "'s \<Rightarrow> bool" +
  fixes run :: "'s \<Rightarrow> 's \<Rightarrow> bool"
    and weight :: "'s \<Rightarrow> nat"
    and final :: "'s \<Rightarrow> bool"
  assumes run_step: "run s t \<Longrightarrow> step s t"
    and run_decreases: "inv s \<Longrightarrow> run s t \<Longrightarrow> weight t < weight s"
    and run_progress: "inv s \<Longrightarrow> \<not> final s \<Longrightarrow> \<exists>t. run s t"
begin

lemma run_bounded: "inv s \<Longrightarrow> (run ^^ n) s t \<Longrightarrow> n + weight t \<le> weight s \<and> inv t"
proof (induction n arbitrary: t)
  case 0
  then show ?case by simp
next
  case (Suc n)
  from Suc.prems(2) obtain u where u: "(run ^^ n) s u" and ut: "run u t" by auto
  from Suc.IH [OF Suc.prems(1) u] have "n + weight u \<le> weight s" and "inv u" by simp_all
  with run_decreases [OF _ ut] inv_step [OF _ run_step [OF ut]] show ?case by fastforce
qed

lemma run_reaches_final: "inv s \<Longrightarrow> \<exists>t. run\<^sup>*\<^sup>* s t \<and> final t \<and> inv t"
proof (induction "weight s" arbitrary: s rule: less_induct)
  case less
  show ?case
  proof (cases "final s")
    case True
    with less.prems show ?thesis by blast
  next
    case False
    with less.prems obtain u where u: "run s u" using run_progress by blast
    with less.prems have "weight u < weight s" and "inv u"
      using run_decreases inv_step run_step by blast+
    with less.hyps obtain t where "run\<^sup>*\<^sup>* u t" and "final t" and "inv t" by blast
    with u show ?thesis by (meson converse_rtranclp_into_rtranclp)
  qed
qed

lemma run_stuck_is_final: "inv s \<Longrightarrow> run\<^sup>*\<^sup>* s t \<Longrightarrow> (\<And>u. \<not> run t u) \<Longrightarrow> final t"
proof -
  assume i: "inv s" and r: "run\<^sup>*\<^sup>* s t" and stuck: "\<And>u. \<not> run t u"
  from r have "step\<^sup>*\<^sup>* s t"
    by (rule mono_rtranclp [rule_format, rotated]) (rule run_step)
  then have "inv t" using i by (rule inv_steps)
  with run_progress stuck show "final t" by blast
qed

end

text \<open>
  \<open>refinement\<close> relates a detailed system to an abstract one through a function: the invariant of
  the detailed system may be used, and every detailed step is an abstract step or invisible.
\<close>

locale refinement = invariant_system init step inv
  for init :: "'s \<Rightarrow> bool" and step :: "'s \<Rightarrow> 's \<Rightarrow> bool" and inv :: "'s \<Rightarrow> bool" +
  fixes ainit :: "'a \<Rightarrow> bool"
    and astep :: "'a \<Rightarrow> 'a \<Rightarrow> bool"
    and view :: "'s \<Rightarrow> 'a"
  assumes view_init: "init s \<Longrightarrow> ainit (view s)"
    and view_step: "inv s \<Longrightarrow> step s t \<Longrightarrow> view t = view s \<or> astep (view s) (view t)"
begin

lemma view_reach: "reach init step s \<Longrightarrow> reach ainit astep (view s)"
proof (induction rule: reach.induct)
  case (reach_init s)
  then show ?case by (intro reach.reach_init view_init)
next
  case (reach_step s t)
  then show ?case by (metis inv_reach view_step reach.reach_step)
qed

lemma view_steps: "step\<^sup>*\<^sup>* s t \<Longrightarrow> inv s \<Longrightarrow> astep\<^sup>*\<^sup>* (view s) (view t)"
proof (induction rule: rtranclp_induct)
  case (step t u)
  then have "inv t" by (blast intro: inv_steps)
  with step view_step show ?case by (metis rtranclp.rtrancl_into_rtrancl)
qed simp

end

text \<open>
  A client whose steps are those of a terminating system, or its own bookkeeping, terminates too:
  \<open>silent\<close> bounds the bookkeeping between two visible steps.
\<close>

locale terminating_refinement = refinement init step inv ainit astep view
  for init :: "'s \<Rightarrow> bool" and step :: "'s \<Rightarrow> 's \<Rightarrow> bool" and inv :: "'s \<Rightarrow> bool"
    and ainit :: "'a \<Rightarrow> bool" and astep :: "'a \<Rightarrow> 'a \<Rightarrow> bool" and view :: "'s \<Rightarrow> 'a" +
  fixes run :: "'s \<Rightarrow> 's \<Rightarrow> bool"
    and aweight :: "'a \<Rightarrow> nat"
    and silent :: "'s \<Rightarrow> nat"
    and limit :: nat
    and final :: "'s \<Rightarrow> bool"
  assumes run_is_step: "run s t \<Longrightarrow> step s t"
    and run_view: "inv s \<Longrightarrow> run s t \<Longrightarrow>
      aweight (view t) < aweight (view s) \<or> view t = view s \<and> silent t < silent s"
    and silent_limit: "silent s \<le> limit"
    and client_progress: "inv s \<Longrightarrow> \<not> final s \<Longrightarrow> \<exists>t. run s t"
begin

lemma scaled_less:
  assumes "a < (b :: nat)"
  shows "Suc limit * a + silent s < Suc limit * b + silent t"
proof -
  have "Suc limit * a + silent s < Suc limit * Suc a" using silent_limit [of s] by simp
  also have "\<dots> \<le> Suc limit * b" using assms by (intro mult_le_mono) simp_all
  finally show ?thesis by simp
qed

sublocale terminating_system init step inv run "\<lambda>s. Suc limit * aweight (view s) + silent s" final
  by unfold_locales (use run_is_step run_view client_progress scaled_less in fastforce)+

end

end
