(* ===== verification/Task_Core.thy ===== *)
theory Task_Core
  imports Prelude
begin

text \<open>
  The vocabulary of \<open>include/taskengine/core\<close>: task identity, lifecycle states, errors, timings,
  results and samples. A task itself is abstract in the sources (\<open>class Task\<close> with a pure virtual
  \<open>execute\<close>); what the engine can observe of one call is an \<open>exec_outcome\<close>.
\<close>

section \<open>Identity and lifecycle states (task_id.hpp, task_state.hpp)\<close>

type_synonym task_id = u64

datatype task_state = Queued | Running | Succeeded | Failed | Rejected

text \<open>The underlying \<open>std::uint8_t\<close> of each enumerator.\<close>

fun underlying :: "task_state \<Rightarrow> 8 word" where
  "underlying Queued = 0"
| "underlying Running = 1"
| "underlying Succeeded = 2"
| "underlying Failed = 3"
| "underlying Rejected = 4"

definition is_terminal :: "task_state \<Rightarrow> bool" where
  "is_terminal state \<longleftrightarrow> state = Succeeded \<or> state = Failed \<or> state = Rejected"

text \<open>
  A scoped enumeration with a fixed underlying type can hold any value of that type, so
  \<open>to_string\<close> is modelled on the raw byte: the trailing return answers the bytes that are no
  enumerator.
\<close>

definition to_string :: "8 word \<Rightarrow> string" where
  "to_string state =
     (if state = underlying Queued then ''Queued''
      else if state = underlying Running then ''Running''
      else if state = underlying Succeeded then ''Succeeded''
      else if state = underlying Failed then ''Failed''
      else if state = underlying Rejected then ''Rejected''
      else ''Invalid'')"

lemma underlying_inject [simp]: "underlying a = underlying b \<longleftrightarrow> a = b"
  by (cases a; cases b) simp_all

instantiation task_state :: linorder
begin

definition less_eq_task_state :: "task_state \<Rightarrow> task_state \<Rightarrow> bool" where
  "less_eq_task_state a b \<longleftrightarrow> underlying a \<le> underlying b"

definition less_task_state :: "task_state \<Rightarrow> task_state \<Rightarrow> bool" where
  "less_task_state a b \<longleftrightarrow> underlying a < underlying b"

instance
proof
  fix a b :: task_state
  show "(a < b) = (a \<le> b \<and> \<not> b \<le> a)"
    by (simp add: less_task_state_def less_eq_task_state_def less_le_not_le)
  show "a \<le> b \<Longrightarrow> b \<le> a \<Longrightarrow> a = b"
    by (metis less_eq_task_state_def order_antisym underlying_inject)
qed (auto simp: less_eq_task_state_def)

end

section \<open>Errors, timings, results (task_result.hpp) and samples (sample.hpp)\<close>

record task_error =
  message :: string

definition no_error :: task_error where
  "no_error = \<lparr>message = []\<rparr>"

definition error_empty :: "task_error \<Rightarrow> bool" where
  "error_empty e \<longleftrightarrow> message e = []"

record task_timings =
  submitted :: time_point
  dequeued :: time_point
  finished :: time_point

definition queue_wait :: "task_timings \<Rightarrow> duration" where
  "queue_wait t = dequeued t - submitted t"

definition execution_time :: "task_timings \<Rightarrow> duration" where
  "execution_time t = finished t - dequeued t"

definition total_latency :: "task_timings \<Rightarrow> duration" where
  "total_latency t = finished t - submitted t"

record task_result =
  res_id :: task_id
  res_state :: task_state
  res_error :: task_error
  res_timings :: task_timings

definition succeeded :: "task_id \<Rightarrow> task_timings \<Rightarrow> task_result" where
  "succeeded i t = \<lparr>res_id = i, res_state = Succeeded, res_error = no_error, res_timings = t\<rparr>"

definition failed :: "task_id \<Rightarrow> task_error \<Rightarrow> task_timings \<Rightarrow> task_result" where
  "failed i e t = \<lparr>res_id = i, res_state = Failed, res_error = e, res_timings = t\<rparr>"

definition rejected :: "task_id \<Rightarrow> time_point \<Rightarrow> time_point \<Rightarrow> task_result" where
  "rejected i sub fin =
     \<lparr>res_id = i, res_state = Rejected, res_error = no_error,
      res_timings = \<lparr>submitted = sub, dequeued = fin, finished = fin\<rparr>\<rparr>"

definition ok :: "task_result \<Rightarrow> bool" where
  "ok r \<longleftrightarrow> res_state r = Succeeded"

record sample =
  smp_id :: task_id
  smp_state :: task_state
  smp_timings :: task_timings

text \<open>The measurement that accompanies a result: everything but the error message.\<close>

definition sample_of :: "task_result \<Rightarrow> sample" where
  "sample_of r = \<lparr>smp_id = res_id r, smp_state = res_state r, smp_timings = res_timings r\<rparr>"

text \<open>What a result may look like when only the three factories build results.\<close>

definition result_ok :: "task_result \<Rightarrow> bool" where
  "result_ok r \<longleftrightarrow> is_terminal (res_state r)
     \<and> (res_state r \<noteq> Failed \<longrightarrow> error_empty (res_error r))
     \<and> (res_state r = Rejected \<longrightarrow> execution_time (res_timings r) = 0)"

text \<open>What one call of \<open>Task::execute\<close> can do, as the worker's try block sees it.\<close>

datatype exec_outcome = Returned | Threw_exception string | Threw_other

lemmas core_simps [core_defs] =
  is_terminal_def no_error_def error_empty_def queue_wait_def execution_time_def
  total_latency_def succeeded_def failed_def rejected_def ok_def sample_of_def

section \<open>Properties\<close>

lemma result_ok_succeeded [simp]: "result_ok (succeeded i t)"
  by (simp add: result_ok_def core_defs)

lemma result_ok_failed [simp]: "result_ok (failed i e t)"
  by (simp add: result_ok_def core_defs)

lemma result_ok_rejected [simp]: "result_ok (rejected i s f)"
  by (simp add: result_ok_def core_defs)

lemma rejected_id [simp]: "res_id (rejected i s f) = i"
  by (simp add: rejected_def)

lemma to_string_underlying:
  "to_string (underlying s) =
     (case s of Queued \<Rightarrow> ''Queued'' | Running \<Rightarrow> ''Running'' | Succeeded \<Rightarrow> ''Succeeded''
      | Failed \<Rightarrow> ''Failed'' | Rejected \<Rightarrow> ''Rejected'')"
  by (cases s) (simp_all add: to_string_def del: underlying.simps)

lemma to_string_outside: "v \<notin> range underlying \<Longrightarrow> to_string v = ''Invalid''"
  by (auto simp: to_string_def simp del: underlying.simps)

text \<open>
  The names of the states are distinct, and \<open>Invalid\<close> is printed exactly for the bytes that
  are no enumerator; so the printed name determines the state.
\<close>

theorem to_string_identifies_state:
  "(to_string (underlying a) = to_string (underlying b)) = (a = b)
     \<and> (to_string v = ''Invalid'') = (v \<notin> range underlying)"
proof
  show "(to_string (underlying a) = to_string (underlying b)) = (a = b)"
    by (cases a; cases b) (simp_all add: to_string_underlying del: underlying.simps)
  have "to_string (underlying s) \<noteq> ''Invalid''" for s
    by (cases s) (simp_all add: to_string_underlying del: underlying.simps)
  then show "(to_string v = ''Invalid'') = (v \<notin> range underlying)"
    using to_string_outside by blast
qed

lemma timings_add_up: "total_latency t = queue_wait t + execution_time t"
  by (simp add: core_defs)

end
