(* ===== verification/Task_Envelope.thy ===== *)
theory Task_Envelope
  imports Task_Core
begin

text \<open>
  \<open>TaskEnvelope\<close> (\<open>core/task_envelope.hpp\<close>, \<open>task_envelope.cpp\<close>) over an explicit store of
  promise/future channels. A channel is the shared state of one \<open>std::promise\<close>; an envelope holds
  the address of its channel, or nothing once it has been moved from. The operations that
  \<open>std::promise\<close> refuses return a fault; inside the \<open>noexcept\<close> functions \<open>run\<close> and
  \<open>reject\<close> a fault means \<open>std::terminate\<close>. Destroying an envelope whose promise is still
  unfulfilled breaks the channel, as \<open>~promise\<close> does.
\<close>

section \<open>Promise channels\<close>

record channel =
  ch_value :: "task_result option"
  ch_retrieved :: bool
  ch_broken :: bool

type_synonym channels = "channel list"

definition fresh_channel :: channel where
  "fresh_channel = \<lparr>ch_value = None, ch_retrieved = False, ch_broken = False\<rparr>"

text \<open>A channel that still waits for its value.\<close>

definition pending :: "channels \<Rightarrow> nat \<Rightarrow> bool" where
  "pending cs p \<longleftrightarrow> p < length cs \<and> ch_value (cs ! p) = None \<and> \<not> ch_broken (cs ! p)"

definition fulfil :: "nat \<Rightarrow> task_result \<Rightarrow> channels \<Rightarrow> channels" where
  "fulfil p r cs = cs[p := (cs ! p)\<lparr>ch_value := Some r\<rparr>]"

text \<open>\<open>std::promise::set_value\<close>.\<close>

definition set_value :: "nat option \<Rightarrow> task_result \<Rightarrow> channels \<Rightarrow> fault + channels" where
  "set_value pr r cs =
     (case pr of
        None \<Rightarrow> Inl No_state
      | Some p \<Rightarrow> if pending cs p then Inr (fulfil p r cs) else Inl Promise_already_satisfied)"

section \<open>The envelope\<close>

record 't envelope =
  env_id :: task_id
  env_task :: "'t option"
  env_submitted :: time_point
  env_promise :: "nat option"

text \<open>
  The constructor stamps the submission instant and creates the promise. The task is a
  \<open>unique_ptr\<close>, so it may be null.
\<close>

definition make_envelope ::
    "task_id \<Rightarrow> 't option \<Rightarrow> time_point \<Rightarrow> channels \<Rightarrow> 't envelope \<times> channels" where
  "make_envelope i task now cs =
     (\<lparr>env_id = i, env_task = task, env_submitted = now, env_promise = Some (length cs)\<rparr>,
      cs @ [fresh_channel])"

definition get_future :: "'t envelope \<Rightarrow> channels \<Rightarrow> fault + nat \<times> channels" where
  "get_future e cs =
     (case env_promise e of
        None \<Rightarrow> Inl No_state
      | Some p \<Rightarrow>
          if ch_retrieved (cs ! p) then Inl Future_already_retrieved
          else Inr (p, cs[p := (cs ! p)\<lparr>ch_retrieved := True\<rparr>]))"

definition run ::
    "('t \<Rightarrow> exec_outcome) \<Rightarrow> time_point \<Rightarrow> time_point \<Rightarrow> 't envelope \<Rightarrow> channels \<Rightarrow>
     fault + sample \<times> channels" where
  "run execute deq now e cs =
     (case env_task e of
        None \<Rightarrow> Inl Null_task
      | Some task \<Rightarrow>
          let (error, has_failed) =
                (case execute task of
                   Returned \<Rightarrow> (no_error, False)
                 | Threw_exception what \<Rightarrow> (\<lparr>message = what\<rparr>, True)
                 | Threw_other \<Rightarrow> (\<lparr>message = ''unknown exception''\<rparr>, True));
              timings = \<lparr>submitted = env_submitted e, dequeued = deq, finished = now\<rparr>;
              state = (if has_failed then Failed else Succeeded);
              result = (if has_failed then failed (env_id e) error timings
                        else succeeded (env_id e) timings)
          in case set_value (env_promise e) result cs of
               Inl f \<Rightarrow> Inl f
             | Inr cs' \<Rightarrow>
                 Inr (\<lparr>smp_id = env_id e, smp_state = state, smp_timings = timings\<rparr>, cs'))"

definition reject :: "time_point \<Rightarrow> 't envelope \<Rightarrow> channels \<Rightarrow> fault + channels" where
  "reject now e cs = set_value (env_promise e) (rejected (env_id e) (env_submitted e) now) cs"

text \<open>The state a move leaves the source envelope in, and the implicit destructor.\<close>

definition moved_from :: "'t envelope \<Rightarrow> 't envelope" where
  "moved_from e = e\<lparr>env_task := None, env_promise := None\<rparr>"

definition destroy :: "'t envelope \<Rightarrow> channels \<Rightarrow> channels" where
  "destroy e cs =
     (case env_promise e of
        None \<Rightarrow> cs
      | Some p \<Rightarrow> if pending cs p then cs[p := (cs ! p)\<lparr>ch_broken := True\<rparr>] else cs)"

section \<open>Channel laws\<close>

lemma length_fulfil [simp]: "length (fulfil p r cs) = length cs"
  by (simp add: fulfil_def)

lemma fulfil_nth:
  "p < length cs \<Longrightarrow> fulfil p r cs ! q = (if q = p then (cs ! p)\<lparr>ch_value := Some r\<rparr> else cs ! q)"
  by (simp add: fulfil_def nth_list_update)

lemma pending_fulfil [simp]:
  "pending cs p \<Longrightarrow> pending (fulfil p r cs) q \<longleftrightarrow> q \<noteq> p \<and> pending cs q"
  by (auto simp: pending_def fulfil_nth)

lemma pending_append_old [simp]: "p < length cs \<Longrightarrow> pending (cs @ ds) p \<longleftrightarrow> pending cs p"
  by (simp add: pending_def nth_append)

lemma pending_append_fresh [simp]:
  "pending (cs @ [fresh_channel]) p \<longleftrightarrow> p = length cs \<or> pending cs p"
  by (auto simp: pending_def nth_append fresh_channel_def)

lemma fulfil_commute:
  "p \<noteq> q \<Longrightarrow> fulfil p r (fulfil q s cs) = fulfil q s (fulfil p r cs)"
  by (simp add: fulfil_def list_update_swap)

text \<open>
  The contract that \<open>run\<close> and \<open>reject\<close> share: on a channel that still waits, the operation
  fulfils that channel and touches no other; on a channel that is settled it faults.
\<close>

locale fulfilling_op =
  fixes perform :: "'e \<Rightarrow> channels \<Rightarrow> fault + channels"
    and addr :: "'e \<Rightarrow> nat option"
    and outcome :: "'e \<Rightarrow> task_result"
    and runnable :: "'e \<Rightarrow> bool"
  assumes performs: "runnable e \<Longrightarrow> addr e = Some p \<Longrightarrow> pending cs p \<Longrightarrow>
      perform e cs = Inr (fulfil p (outcome e) cs)"
    and refuses: "runnable e \<Longrightarrow> addr e = Some p \<Longrightarrow> \<not> pending cs p \<Longrightarrow>
      perform e cs = Inl Promise_already_satisfied"
    and outcome_ok: "runnable e \<Longrightarrow> result_ok (outcome e)"
begin

lemma once_only:
  assumes "runnable e" and "addr e = Some p" and "perform e cs = Inr cs'"
  shows "perform e cs' = Inl Promise_already_satisfied"
proof -
  from assms have "pending cs p" using refuses by fastforce
  with assms have "cs' = fulfil p (outcome e) cs" using performs by simp
  with \<open>pending cs p\<close> have "\<not> pending cs' p" by simp
  with assms show ?thesis using refuses by blast
qed

lemma settles_only_own:
  assumes "runnable e" and "addr e = Some p" and "perform e cs = Inr cs'"
  shows "ch_value (cs' ! p) = Some (outcome e)" and "q \<noteq> p \<Longrightarrow> cs' ! q = cs ! q"
    and "length cs' = length cs"
proof -
  from assms have pe: "pending cs p" using refuses by fastforce
  with assms have eq: "cs' = fulfil p (outcome e) cs" using performs by simp
  from pe show "ch_value (cs' ! p) = Some (outcome e)"
    by (simp add: eq fulfil_nth pending_def)
  from pe show "q \<noteq> p \<Longrightarrow> cs' ! q = cs ! q"
    by (simp add: eq fulfil_nth pending_def)
  show "length cs' = length cs" by (simp add: eq)
qed

end

text \<open>The result and the sample of a run, and the two interpretations of the contract.\<close>

fun outcome_result :: "exec_outcome \<Rightarrow> task_id \<Rightarrow> task_timings \<Rightarrow> task_result" where
  "outcome_result Returned i t = succeeded i t"
| "outcome_result (Threw_exception what) i t = failed i \<lparr>message = what\<rparr> t"
| "outcome_result Threw_other i t = failed i \<lparr>message = ''unknown exception''\<rparr> t"

definition run_result ::
    "('t \<Rightarrow> exec_outcome) \<Rightarrow> time_point \<Rightarrow> time_point \<Rightarrow> 't envelope \<Rightarrow> task_result" where
  "run_result execute deq now e =
     outcome_result (execute (the (env_task e))) (env_id e)
       \<lparr>submitted = env_submitted e, dequeued = deq, finished = now\<rparr>"

lemma run_eq:
  "run execute deq now e cs =
     (case env_task e of
        None \<Rightarrow> Inl Null_task
      | Some task \<Rightarrow>
          map_sum id (Pair (sample_of (run_result execute deq now e)))
            (set_value (env_promise e) (run_result execute deq now e) cs))"
  by (auto simp: run_def run_result_def core_defs Let_def
      split: option.splits exec_outcome.splits sum.splits)

lemma run_result_ok [simp]: "result_ok (run_result execute deq now e)"
  unfolding run_result_def by (cases "execute (the (env_task e))") simp_all

lemma run_result_state:
  "res_state (run_result execute deq now e) =
     (if execute (the (env_task e)) = Returned then Succeeded else Failed)"
  unfolding run_result_def by (cases "execute (the (env_task e))") (simp_all add: core_defs)

lemma run_result_id: "res_id (run_result execute deq now e) = env_id e"
  unfolding run_result_def by (cases "execute (the (env_task e))") (simp_all add: core_defs)

lemma run_pending:
  "env_task e \<noteq> None \<Longrightarrow> env_promise e = Some p \<Longrightarrow> pending cs p \<Longrightarrow>
   run execute deq now e cs =
     Inr (sample_of (run_result execute deq now e), fulfil p (run_result execute deq now e) cs)"
  by (auto simp: run_eq set_value_def)

lemma reject_pending:
  "env_promise e = Some p \<Longrightarrow> pending cs p \<Longrightarrow>
   reject now e cs = Inr (fulfil p (rejected (env_id e) (env_submitted e) now) cs)"
  by (simp add: reject_def set_value_def)

interpretation running: fulfilling_op
  "\<lambda>e cs. map_sum id snd (run execute deq now e cs)" env_promise
  "run_result execute deq now" "\<lambda>e. env_task e \<noteq> None"
  by unfold_locales (auto simp: run_eq set_value_def)

interpretation rejecting: fulfilling_op
  "reject now" env_promise "\<lambda>e. rejected (env_id e) (env_submitted e) now" "\<lambda>_. True"
  by unfold_locales (auto simp: reject_def set_value_def)

lemma destroy_settled:
  "(\<And>p. env_promise e = Some p \<Longrightarrow> \<not> pending cs p) \<Longrightarrow> destroy e cs = cs"
  by (auto simp: destroy_def split: option.splits)

lemma destroy_moved_from [simp]: "destroy (moved_from e) cs = cs"
  by (simp add: destroy_def moved_from_def)

section \<open>Properties\<close>

text \<open>
  Running an envelope whose channel still waits never faults: it fulfils exactly that channel,
  with the identity and the three instants of the envelope, Succeeded when the task returned,
  Failed with the exception's text when it threw a standard exception and with the fixed text when
  it threw anything else; the sample handed to the metrics is the same record without the message.
\<close>

theorem run_fulfils_promise:
  assumes "env_task e = Some t" and "env_promise e = Some p" and "pending cs p"
  shows "\<exists>r cs'. run execute deq now e cs = Inr (sample_of r, cs')
     \<and> ch_value (cs' ! p) = Some r \<and> (\<forall>q. q \<noteq> p \<longrightarrow> cs' ! q = cs ! q) \<and> length cs' = length cs
     \<and> res_id r = env_id e
     \<and> res_timings r = \<lparr>submitted = env_submitted e, dequeued = deq, finished = now\<rparr>
     \<and> (case execute t of
          Returned \<Rightarrow> res_state r = Succeeded \<and> error_empty (res_error r)
        | Threw_exception what \<Rightarrow> res_state r = Failed \<and> message (res_error r) = what
        | Threw_other \<Rightarrow> res_state r = Failed \<and> message (res_error r) = ''unknown exception'')"
proof -
  let ?r = "run_result execute deq now e"
  have r: "run execute deq now e cs = Inr (sample_of ?r, fulfil p ?r cs)"
    using assms by (simp add: run_pending)
  have chans: "ch_value (fulfil p ?r cs ! p) = Some ?r"
      "\<forall>q. q \<noteq> p \<longrightarrow> fulfil p ?r cs ! q = cs ! q"
    using assms(3) by (simp_all add: fulfil_nth pending_def)
  have fields: "res_id ?r = env_id e"
      "res_timings ?r = \<lparr>submitted = env_submitted e, dequeued = deq, finished = now\<rparr>"
      "case execute t of
          Returned \<Rightarrow> res_state ?r = Succeeded \<and> error_empty (res_error ?r)
        | Threw_exception what \<Rightarrow> res_state ?r = Failed \<and> message (res_error ?r) = what
        | Threw_other \<Rightarrow> res_state ?r = Failed \<and> message (res_error ?r) = ''unknown exception''"
    using assms(1) by (cases "execute t"; simp add: run_result_def core_defs)+
  show ?thesis using r chans fields length_fulfil by blast
qed

definition demo_envelope :: "bool envelope" where
  "demo_envelope = \<lparr>env_id = 7, env_task = Some True, env_submitted = 10, env_promise = Some 0\<rparr>"

theorem run_fulfils_promise_witness:
  "\<exists>r cs'. run (\<lambda>b. if b then Threw_other else Returned) 12 15 demo_envelope [fresh_channel]
       = Inr (sample_of r, cs')
     \<and> ch_value (cs' ! 0) = Some r \<and> res_state r = Failed
     \<and> message (res_error r) = ''unknown exception''"
  using run_fulfils_promise [of demo_envelope True 0 "[fresh_channel]"
      "\<lambda>b. if b then Threw_other else Returned" 12 15]
  by (fastforce simp: demo_envelope_def pending_def fresh_channel_def)

text \<open>
  Fulfilment is exactly once: after an envelope was run or rejected, every further run and
  every further rejection of it is refused by the promise (which the \<open>noexcept\<close> functions turn
  into termination), whatever the task does and whenever it happens.
\<close>

theorem envelope_fulfilled_once:
  assumes "env_task e = Some t" and "env_promise e = Some p"
    and "run execute deq now e cs = Inr (smp, cs') \<or> reject now e cs = Inr cs'"
  shows "run execute2 deq2 now2 e cs' = Inl Promise_already_satisfied
     \<and> reject now3 e cs' = Inl Promise_already_satisfied"
proof -
  have "\<not> pending cs' p"
  proof (cases "pending cs p")
    case True
    with assms show ?thesis by (auto simp: run_pending reject_pending)
  next
    case False
    with assms show ?thesis by (auto simp: run_eq reject_def set_value_def)
  qed
  with assms(1,2) show ?thesis by (simp add: run_eq reject_def set_value_def)
qed

theorem envelope_fulfilled_once_witness:
  "reject 20 demo_envelope (fulfil 0 (rejected 7 10 15) [fresh_channel])
     = Inl Promise_already_satisfied"
  using envelope_fulfilled_once [of demo_envelope True 0 "\<lambda>_. Returned" 12 15 "[fresh_channel]"
      undefined "fulfil 0 (rejected 7 10 15) [fresh_channel]" "\<lambda>_. Returned" 17 18 20]
  by (simp add: reject_def set_value_def demo_envelope_def pending_def fresh_channel_def)

text \<open>
  The constructor creates a new waiting channel and leaves every existing one alone;
  \<open>get_future\<close> hands out the address of exactly that channel once and is refused the second
  time.
\<close>

lemma make_envelope_get_future:
  "case make_envelope i task now cs of (e, cs') \<Rightarrow>
     take (length cs) cs' = cs \<and> pending cs' (length cs)
     \<and> (\<exists>cs''. get_future e cs' = Inr (length cs, cs'') \<and> pending cs'' (length cs)
              \<and> take (length cs) cs'' = cs
              \<and> get_future e cs'' = Inl Future_already_retrieved)"
  by (simp add: make_envelope_def get_future_def pending_def fresh_channel_def nth_append)

text \<open>
  A standard exception whose \<open>what()\<close> is empty yields a Failed result that carries no
  message: an empty error does not tell a failed result from a successful one.
\<close>

theorem empty_what_gives_empty_error:
  assumes "execute t = Threw_exception []"
  shows "\<exists>r. run execute deq now \<lparr>env_id = i, env_task = Some t, env_submitted = sub,
                env_promise = Some 0\<rparr> [fresh_channel] = Inr (sample_of r, fulfil 0 r [fresh_channel])
          \<and> res_state r = Failed \<and> error_empty (res_error r)"
  using assms
  by (intro exI [of _ "failed i \<lparr>message = []\<rparr> \<lparr>submitted = sub, dequeued = deq, finished = now\<rparr>"])
     (simp add: run_pending pending_def fresh_channel_def run_result_def core_defs)

theorem empty_what_gives_empty_error_witness:
  "\<exists>r. run (\<lambda>_::unit. Threw_exception []) 2 3 \<lparr>env_id = 1, env_task = Some (), env_submitted = 1,
                env_promise = Some 0\<rparr> [fresh_channel] = Inr (sample_of r, fulfil 0 r [fresh_channel])
          \<and> res_state r = Failed \<and> error_empty (res_error r)"
  by (rule empty_what_gives_empty_error) simp

end
