(* ===== verification/Blocking_Queue.thy ===== *)
theory Blocking_Queue
  imports Prelude
begin

text \<open>
  The bounded queue of \<open>concurrency/blocking_queue.hpp\<close>, one definition per member function. Each
  is the critical section the function runs under \<open>mutex_\<close>: \<open>can_push\<close> and \<open>can_pop\<close> are the
  predicates of the condition-variable waits, \<open>push_locked\<close> and \<open>pop_locked\<close> what runs once
  the wait is over. \<open>push\<close> and \<open>pop\<close> put both together; \<open>None\<close> means that the caller stays
  blocked. The theory Queue\_Monitor splits the same functions over threads, a mutex and two
  condition variables and shows that they act atomically.

  The interface other components use is the locale \<open>closable_queue\<close>, interpreted below.
\<close>

section \<open>State and operations\<close>

record 'a blocking_queue =
  q_items :: "'a list"
  q_closed :: bool
  q_capacity :: size_t

definition make_queue :: "size_t \<Rightarrow> fault + 'a blocking_queue" where
  "make_queue cap =
     (if cap = 0 then Inl (Invalid_argument ''BlockingQueue capacity must be at least 1'')
      else Inr \<lparr>q_items = [], q_closed = False, q_capacity = cap\<rparr>)"

definition can_push :: "'a blocking_queue \<Rightarrow> bool" where
  "can_push q \<longleftrightarrow> q_closed q \<or> length (q_items q) < unat (q_capacity q)"

definition push_locked :: "'a \<Rightarrow> 'a blocking_queue \<Rightarrow> bool \<times> 'a blocking_queue" where
  "push_locked v q =
     (if q_closed q then (False, q) else (True, q\<lparr>q_items := q_items q @ [v]\<rparr>))"

definition push :: "'a \<Rightarrow> 'a blocking_queue \<Rightarrow> (bool \<times> 'a blocking_queue) option" where
  "push v q = (if can_push q then Some (push_locked v q) else None)"

definition can_pop :: "'a blocking_queue \<Rightarrow> bool" where
  "can_pop q \<longleftrightarrow> q_closed q \<or> q_items q \<noteq> []"

definition pop_locked :: "'a blocking_queue \<Rightarrow> 'a option \<times> 'a blocking_queue" where
  "pop_locked q =
     (case q_items q of [] \<Rightarrow> (None, q) | x # xs \<Rightarrow> (Some x, q\<lparr>q_items := xs\<rparr>))"

definition pop :: "'a blocking_queue \<Rightarrow> ('a option \<times> 'a blocking_queue) option" where
  "pop q = (if can_pop q then Some (pop_locked q) else None)"

definition close :: "'a blocking_queue \<Rightarrow> 'a blocking_queue" where
  "close q = (if q_closed q then q else q\<lparr>q_closed := True\<rparr>)"

definition close_and_drain :: "'a blocking_queue \<Rightarrow> 'a list \<times> 'a blocking_queue" where
  "close_and_drain q = (q_items q, q\<lparr>q_closed := True, q_items := []\<rparr>)"

definition is_closed :: "'a blocking_queue \<Rightarrow> bool" where
  "is_closed q = q_closed q"

definition queue_size :: "'a blocking_queue \<Rightarrow> size_t" where
  "queue_size q = of_nat (length (q_items q))"

definition capacity :: "'a blocking_queue \<Rightarrow> size_t" where
  "capacity q = q_capacity q"

text \<open>The class invariant: a capacity of at least one that the contents never exceed.\<close>

definition queue_ok :: "'a blocking_queue \<Rightarrow> bool" where
  "queue_ok q \<longleftrightarrow> 0 < unat (q_capacity q) \<and> length (q_items q) \<le> unat (q_capacity q)"

lemmas queue_op_defs [queue_defs] =
  can_push_def push_locked_def push_def can_pop_def pop_locked_def pop_def close_def
  close_and_drain_def is_closed_def queue_size_def queue_ok_def

section \<open>The interface\<close>

text \<open>
  What one thread observes of one call: an item accepted, an item refused, an item taken, the
  end-of-queue answer, a close, and a drain with the items it returned.
\<close>

datatype 'a queue_event =
  Accept 'a | Refuse 'a | Take 'a | Finish | Close | Drain "'a list"

text \<open>
  A sequence of observed calls, replayed on a queue given by its operations. The result is
  \<open>None\<close> when some call would block or answer differently.
\<close>

fun replay ::
    "('a \<Rightarrow> 'q \<Rightarrow> (bool \<times> 'q) option) \<Rightarrow> ('q \<Rightarrow> ('a option \<times> 'q) option) \<Rightarrow> ('q \<Rightarrow> 'q) \<Rightarrow>
     ('q \<Rightarrow> 'a list \<times> 'q) \<Rightarrow> 'q \<Rightarrow> 'a queue_event \<Rightarrow> 'q option" where
  "replay pu po cl dr q (Accept v) =
     (case pu v q of Some (True, q') \<Rightarrow> Some q' | _ \<Rightarrow> None)"
| "replay pu po cl dr q (Refuse v) =
     (case pu v q of Some (False, q') \<Rightarrow> Some q' | _ \<Rightarrow> None)"
| "replay pu po cl dr q (Take v) =
     (case po q of Some (Some w, q') \<Rightarrow> if v = w then Some q' else None | _ \<Rightarrow> None)"
| "replay pu po cl dr q Finish =
     (case po q of Some (None, q') \<Rightarrow> Some q' | _ \<Rightarrow> None)"
| "replay pu po cl dr q Close = Some (cl q)"
| "replay pu po cl dr q (Drain vs) =
     (case dr q of (ws, q') \<Rightarrow> if vs = ws then Some q' else None)"

fun replays ::
    "('a \<Rightarrow> 'q \<Rightarrow> (bool \<times> 'q) option) \<Rightarrow> ('q \<Rightarrow> ('a option \<times> 'q) option) \<Rightarrow> ('q \<Rightarrow> 'q) \<Rightarrow>
     ('q \<Rightarrow> 'a list \<times> 'q) \<Rightarrow> 'q \<Rightarrow> 'a queue_event list \<Rightarrow> 'q option" where
  "replays pu po cl dr q [] = Some q"
| "replays pu po cl dr q (e # es) =
     (case replay pu po cl dr q e of None \<Rightarrow> None | Some q' \<Rightarrow> replays pu po cl dr q' es)"

text \<open>The items that went in and the items that came out, each in order of time.\<close>

fun accepted :: "'a queue_event \<Rightarrow> 'a list" where
  "accepted (Accept v) = [v]"
| "accepted _ = []"

fun removed :: "'a queue_event \<Rightarrow> 'a list" where
  "removed (Take v) = [v]"
| "removed (Drain vs) = vs"
| "removed _ = []"

text \<open>
  The loop of a consumer: pop until the queue answers that it is finished. \<open>None\<close> when a pop
  would block or the fuel runs out.
\<close>

fun consume :: "('q \<Rightarrow> ('a option \<times> 'q) option) \<Rightarrow> nat \<Rightarrow> 'q \<Rightarrow> ('a list \<times> 'q) option" where
  "consume po 0 q = None"
| "consume po (Suc fuel) q =
     (case po q of
        None \<Rightarrow> None
      | Some (None, q') \<Rightarrow> Some ([], q')
      | Some (Some x, q') \<Rightarrow> map_option (apfst (Cons x)) (consume po fuel q'))"

locale closable_queue =
  fixes q_push :: "'a \<Rightarrow> 'q \<Rightarrow> (bool \<times> 'q) option"
    and q_pop :: "'q \<Rightarrow> ('a option \<times> 'q) option"
    and q_close :: "'q \<Rightarrow> 'q"
    and q_drain :: "'q \<Rightarrow> 'a list \<times> 'q"
    and contents :: "'q \<Rightarrow> 'a list"
    and shut :: "'q \<Rightarrow> bool"
    and limit :: "'q \<Rightarrow> nat"
    and valid :: "'q \<Rightarrow> bool"
  assumes push_blocked: "valid q \<Longrightarrow> q_push v q = None \<longleftrightarrow> \<not> shut q \<and> length (contents q) = limit q"
    and push_True: "valid q \<Longrightarrow> q_push v q = Some (True, q') \<Longrightarrow>
      valid q' \<and> \<not> shut q \<and> \<not> shut q' \<and> contents q' = contents q @ [v] \<and> limit q' = limit q"
    and push_False: "valid q \<Longrightarrow> q_push v q = Some (False, q') \<Longrightarrow> shut q \<and> q' = q"
    and pop_blocked: "valid q \<Longrightarrow> q_pop q = None \<longleftrightarrow> \<not> shut q \<and> contents q = []"
    and pop_Some: "valid q \<Longrightarrow> q_pop q = Some (Some v, q') \<Longrightarrow>
      valid q' \<and> contents q = v # contents q' \<and> shut q' = shut q \<and> limit q' = limit q"
    and pop_None: "valid q \<Longrightarrow> q_pop q = Some (None, q') \<Longrightarrow> shut q \<and> contents q = [] \<and> q' = q"
    and close_law: "valid q \<Longrightarrow>
      valid (q_close q) \<and> shut (q_close q) \<and> contents (q_close q) = contents q
        \<and> limit (q_close q) = limit q"
    and drain_law: "valid q \<Longrightarrow> q_drain q = (vs, q') \<Longrightarrow>
      valid q' \<and> vs = contents q \<and> shut q' \<and> contents q' = [] \<and> limit q' = limit q"
    and within_limit: "valid q \<Longrightarrow> 0 < limit q \<and> length (contents q) \<le> limit q"
begin

lemma replay_valid:
  "valid q \<Longrightarrow> replay q_push q_pop q_close q_drain q e = Some q' \<Longrightarrow>
     valid q' \<and> limit q' = limit q \<and> (shut q \<longrightarrow> shut q')"
  by (cases e)
     (auto dest: push_True push_False pop_Some pop_None drain_law close_law
       split: option.splits if_splits prod.splits bool.splits)

lemma replay_fifo:
  "valid q \<Longrightarrow> replay q_push q_pop q_close q_drain q e = Some q' \<Longrightarrow>
     contents q @ accepted e = removed e @ contents q'"
  by (cases e)
     (auto dest: push_True push_False pop_Some pop_None drain_law close_law
       split: option.splits if_splits prod.splits bool.splits)

lemma replays_fifo:
  "valid q \<Longrightarrow> replays q_push q_pop q_close q_drain q es = Some q' \<Longrightarrow>
     valid q' \<and> limit q' = limit q \<and> (shut q \<longrightarrow> shut q')
     \<and> contents q @ concat (map accepted es) = concat (map removed es) @ contents q'"
proof (induction es arbitrary: q)
  case Nil
  then show ?case by simp
next
  case (Cons e es)
  then obtain r where r: "replay q_push q_pop q_close q_drain q e = Some r"
    and rest: "replays q_push q_pop q_close q_drain r es = Some q'"
    by (auto split: option.splits)
  have one: "valid r" "limit r = limit q" "shut q \<longrightarrow> shut r"
      "contents q @ accepted e = removed e @ contents r"
    using replay_valid [OF Cons.prems(1) r] replay_fifo [OF Cons.prems(1) r] by simp_all
  from Cons.IH [OF one(1) rest] have ih: "valid q'" "limit q' = limit r" "shut r \<longrightarrow> shut q'"
      "contents r @ concat (map accepted es) = concat (map removed es) @ contents q'" by simp_all
  have "contents q @ concat (map accepted (e # es)) = removed e @ contents r @ concat (map accepted es)"
    using one(4) by simp
  also have "\<dots> = concat (map removed (e # es)) @ contents q'" using ih(4) by simp
  finally show ?case using one ih by simp
qed

lemma nothing_after_close:
  "valid q \<Longrightarrow> shut q \<Longrightarrow> replays q_push q_pop q_close q_drain q es = Some q' \<Longrightarrow>
     concat (map accepted es) = []"
proof (induction es arbitrary: q)
  case Nil
  then show ?case by simp
next
  case (Cons e es)
  then obtain r where r: "replay q_push q_pop q_close q_drain q e = Some r"
    and rest: "replays q_push q_pop q_close q_drain r es = Some q'"
    by (auto split: option.splits)
  have "accepted e = []" using Cons.prems r
    by (cases e) (auto dest: push_True split: option.splits prod.splits bool.splits)
  with Cons.IH [OF _ _ rest] replay_valid [OF Cons.prems(1) r] Cons.prems(2) show ?case by simp
qed

lemma consume_shut:
  "valid q \<Longrightarrow> shut q \<Longrightarrow> length (contents q) < fuel \<Longrightarrow>
     \<exists>q'. consume q_pop fuel q = Some (contents q, q') \<and> shut q' \<and> contents q' = []"
proof (induction fuel arbitrary: q)
  case 0
  then show ?case by simp
next
  case (Suc fuel)
  obtain a r where a: "q_pop q = Some (a, r)"
    using pop_blocked [OF Suc.prems(1)] Suc.prems(2) by fastforce
  show ?case
  proof (cases a)
    case None
    with a pop_None [OF Suc.prems(1)] Suc.prems(2) show ?thesis by auto
  next
    case (Some x)
    with a pop_Some [OF Suc.prems(1)] have r: "valid r" "contents q = x # contents r" "shut r"
      using Suc.prems(2) by auto
    with Suc.IH [of r] Suc.prems(3) a Some show ?thesis by auto
  qed
qed

end

section \<open>The queue meets its interface\<close>

interpretation bq: closable_queue push pop close close_and_drain q_items q_closed
  "\<lambda>q. unat (q_capacity q)" queue_ok
  by unfold_locales (auto simp: queue_defs split: if_splits list.splits)

lemma make_queue_ok: "make_queue cap = Inr q \<Longrightarrow> queue_ok q \<and> q_items q = [] \<and> \<not> q_closed q"
  by (auto simp: make_queue_def queue_ok_def unat_pos_u64 split: if_splits)

lemma unat_queue_size: "queue_ok q \<Longrightarrow> unat (queue_size q) = length (q_items q)"
  unfolding queue_size_def queue_ok_def by (blast intro: unat_of_nat_u64 unat_le_u64)

section \<open>Properties\<close>

text \<open>
  C29: First in, first out, with nothing lost and nothing duplicated: for every sequence of calls
  on a new queue, the items accepted so far are exactly the items handed out by \<open>pop\<close> or
  returned by \<open>close_and_drain\<close>, in the same order, followed by the items still queued; and the
  contents never exceed the capacity.
\<close>

theorem queue_fifo_conservation:
  assumes "make_queue cap = Inr q"
    and "replays push pop close close_and_drain q es = Some q'"
  shows "concat (map accepted es) = concat (map removed es) @ q_items q'
     \<and> unat (queue_size q') = length (q_items q') \<and> queue_size q' \<le> capacity q' \<and> capacity q' = cap"
proof -
  from assms(1) have q: "queue_ok q" "q_items q = []" "q_capacity q = cap"
    by (auto simp: make_queue_def queue_ok_def unat_pos_u64 split: if_splits)
  with bq.replays_fifo [OF q(1) assms(2)] have "queue_ok q'" "unat (q_capacity q') = unat cap"
      "concat (map accepted es) = concat (map removed es) @ q_items q'"
    by auto
  then show ?thesis using unat_queue_size [of q'] by (simp add: queue_ok_def capacity_def word_le_nat_alt word_unat_eq_iff)
qed

theorem queue_fifo_conservation_witness:
  "concat (map accepted [Accept (1::nat), Accept 2, Take 1, Accept 3, Drain [2, 3], Refuse 4, Finish])
     = concat (map removed [Accept (1::nat), Accept 2, Take 1, Accept 3, Drain [2, 3], Refuse 4, Finish])"
  using queue_fifo_conservation [of 2 "\<lparr>q_items = [], q_closed = False, q_capacity = 2\<rparr>"
      "[Accept (1::nat), Accept 2, Take 1, Accept 3, Drain [2, 3], Refuse 4, Finish]"
      "\<lparr>q_items = [], q_closed = True, q_capacity = 2\<rparr>"]
  by (simp add: make_queue_def queue_defs)

text \<open>
  Closing is final and loses nothing: once the queue is closed no push is ever accepted, and
  a consumer that pops until it is told the queue is finished sees every queued item, in order,
  and terminates after at most one call more than there are items.
\<close>

theorem closed_queue_drains:
  assumes "queue_ok q"
  shows "(replays push pop close close_and_drain (close q) es = Some q' \<longrightarrow>
            concat (map accepted es) = [] \<and> q_closed q')
     \<and> (length (q_items q) < fuel \<longrightarrow>
          (\<exists>q''. consume pop fuel (close q) = Some (q_items q, q'')
                 \<and> q_closed q'' \<and> q_items q'' = []))"
proof -
  from bq.close_law [OF assms] have c: "queue_ok (close q)" "q_closed (close q)"
      "q_items (close q) = q_items q" by auto
  show ?thesis
    using bq.nothing_after_close [OF c(1,2)] bq.replays_fifo [OF c(1)] bq.consume_shut [OF c(1,2)] c(2,3)
    by fastforce
qed

theorem closed_queue_drains_witness:
  "\<exists>q''. consume pop 3 (close \<lparr>q_items = [1::nat, 2], q_closed = False, q_capacity = 2\<rparr>)
      = Some ([1, 2], q'') \<and> q_closed q'' \<and> q_items q'' = []"
  using closed_queue_drains [of "\<lparr>q_items = [1::nat, 2], q_closed = False, q_capacity = 2\<rparr>" "[]" undefined 3]
  by (auto simp: queue_ok_def)

text \<open>
  The constructor refuses a zero capacity and otherwise yields an open, empty queue; on a
  well-formed queue a push blocks exactly when the queue is open and full, a pop exactly when it
  is open and empty, so never both.
\<close>

theorem queue_blocking_conditions:
  assumes "queue_ok q"
  shows "(push v q = None) = (\<not> q_closed q \<and> length (q_items q) = unat (q_capacity q))
     \<and> (pop q = None) = (\<not> q_closed q \<and> q_items q = [])
     \<and> (push v q \<noteq> None \<or> pop q \<noteq> None)"
proof -
  have "push v q = None \<Longrightarrow> pop q = None \<Longrightarrow> False"
    using bq.within_limit [OF assms] bq.push_blocked [OF assms] bq.pop_blocked [OF assms] by force
  then show ?thesis using bq.push_blocked [OF assms] bq.pop_blocked [OF assms] by blast
qed

theorem queue_blocking_conditions_witness:
  "push (5::nat) \<lparr>q_items = [1], q_closed = False, q_capacity = 1\<rparr> = None
     \<and> pop \<lparr>q_items = [1::nat], q_closed = False, q_capacity = 1\<rparr> \<noteq> None"
  using queue_blocking_conditions [of "\<lparr>q_items = [1::nat], q_closed = False, q_capacity = 1\<rparr>" 5]
  by (simp add: queue_ok_def)

end
