(* ===== verification/Thread_Pool.thy ===== *)
theory Thread_Pool
  imports Task_Envelope Blocking_Queue
begin

text \<open>
  \<open>ThreadPool\<close> (\<open>concurrency/thread_pool.hpp\<close>, \<open>thread_pool.cpp\<close>) with its worker threads and
  any number of caller threads. The pool's members are the record \<open>pool\<close>; the record \<open>system\<close>
  adds the promise channels, the monotonic clock and one program counter per thread. Each member
  function is an executable step function of the thread that runs it; a step is what the thread
  does between two points where another thread can observe or influence it (a queue operation, a
  clock reading, a promise, an atomic, the shutdown mutex, a join). \<open>None\<close> means that the thread
  cannot move: it is blocked, or outside the pool.

  The virtual call \<open>Task::execute\<close> is the parameter \<open>execute\<close>. A task's body is taken to return
  or throw eventually; the sources do not support anything else.
\<close>

section \<open>State\<close>

record 't pool =
  p_queue :: "'t envelope blocking_queue"
  p_samples :: "sample list list"
  p_rejected :: u64
  p_mutex :: "nat option"
  p_joined :: bool
  p_joinable :: "bool list"

text \<open>
  A worker: about to pop, holding an envelope before the dequeue instant is read, running it,
  about to record the sample, finished.
\<close>

datatype 't worker =
    WPop
  | WStart "'t envelope"
  | WRun "'t envelope" time_point
  | WRecord "'t envelope" sample
  | WExit

text \<open>
  A caller: outside the pool; in \<open>submit\<close> before the push, before the rejection, before the
  counter; in \<open>shutdown\<close> before the close; in \<open>shutdown_now\<close> before the drain, before the clock,
  in the rejection loop (already rejected, still to reject); in \<open>join_workers\<close> before the mutex
  and in its loop; and about to destroy the discarded envelopes.
\<close>

datatype 't caller =
    CIdle
  | CPush "'t envelope"
  | CReject "'t envelope"
  | CCount "'t envelope"
  | CClose
  | CDrain
  | CStamp "'t envelope list"
  | CDiscard time_point "'t envelope list" "'t envelope list"
  | CJoin "'t envelope list"
  | CJoining "'t envelope list" nat
  | CLeave "'t envelope list"

record 't system = "'t pool" +
  chans :: channels
  clock :: time_point
  workers :: "'t worker list"
  callers :: "'t caller list"
  crashed :: "fault option"

definition set_worker :: "nat \<Rightarrow> 't worker \<Rightarrow> 't system \<Rightarrow> 't system" where
  "set_worker i w s = s\<lparr>workers := (workers s)[i := w]\<rparr>"

definition set_caller :: "nat \<Rightarrow> 't caller \<Rightarrow> 't system \<Rightarrow> 't system" where
  "set_caller j c s = s\<lparr>callers := (callers s)[j := c]\<rparr>"

text \<open>A fault inside a \<open>noexcept\<close> function ends the process.\<close>

definition crash :: "fault \<Rightarrow> 't system \<Rightarrow> 't system" where
  "crash f s = s\<lparr>crashed := Some f\<rparr>"

section \<open>Construction\<close>

text \<open>
  The queue is the first member, so its capacity check comes before the worker-count check.
  \<open>spawn i\<close> tells whether creating the \<open>i\<close>-th thread succeeds. The loop returns the pool with
  the threads it has started, on the left when a creation failed. Then the constructor closes the
  queue, joins those threads and rethrows; the theory Pool\_Construction follows it there.
\<close>

definition empty_pool :: "'t envelope blocking_queue \<Rightarrow> size_t \<Rightarrow> 't pool" where
  "empty_pool q worker_count =
     \<lparr>p_queue = q, p_samples = replicate (unat worker_count) [], p_rejected = 0, p_mutex = None,
      p_joined = False, p_joinable = []\<rparr>"

fun spawn_workers :: "(nat \<Rightarrow> bool) \<Rightarrow> nat \<Rightarrow> nat \<Rightarrow> 't pool \<Rightarrow> 't pool + 't pool" where
  "spawn_workers spawn i 0 p = Inr p"
| "spawn_workers spawn i (Suc n) p =
     (if spawn i then spawn_workers spawn (Suc i) n (p\<lparr>p_joinable := p_joinable p @ [True]\<rparr>)
      else Inl p)"

definition make_pool :: "(nat \<Rightarrow> bool) \<Rightarrow> size_t \<Rightarrow> size_t \<Rightarrow> fault + 't pool" where
  "make_pool spawn worker_count queue_capacity =
     (case make_queue queue_capacity of
        Inl f \<Rightarrow> Inl f
      | Inr q \<Rightarrow>
          if worker_count = 0 then Inl (Invalid_argument ''ThreadPool requires at least one worker'')
          else
            (case spawn_workers spawn 0 (unat worker_count) (empty_pool q worker_count) of
               Inl p \<Rightarrow> Inl System_error
             | Inr p \<Rightarrow> Inr p))"

lemma spawn_workers_Inr:
  "spawn_workers spawn i n p = Inr p' \<longleftrightarrow>
     (\<forall>k \<in> set [i..<i + n]. spawn k) \<and> p' = p\<lparr>p_joinable := p_joinable p @ replicate n True\<rparr>"
proof (induction n arbitrary: i p)
  case (Suc n)
  have "[i..<i + Suc n] = i # [Suc i..<Suc i + n]" by (simp add: upt_conv_Cons)
  with Suc [of "Suc i"] show ?case by (auto simp: replicate_append_same)
qed auto

lemma spawn_workers_Inl:
  "spawn_workers spawn i n p = Inl p' \<Longrightarrow>
     \<exists>k < n. p' = p\<lparr>p_joinable := p_joinable p @ replicate k True\<rparr> \<and> \<not> spawn (i + k)"
proof (induction n arbitrary: i p)
  case (Suc n)
  show ?case
  proof (cases "spawn i")
    case True
    with Suc.prems have "spawn_workers spawn (Suc i) n (p\<lparr>p_joinable := p_joinable p @ [True]\<rparr>) = Inl p'" by simp
    from Suc.IH [OF this] obtain k where "k < n" "\<not> spawn (Suc i + k)"
      "p' = p\<lparr>p_joinable := p_joinable p @ [True] @ replicate k True\<rparr>" by auto
    then show ?thesis by (intro exI [of _ "Suc k"]) (simp add: replicate_append_same)
  next
    case False
    with Suc.prems show ?thesis by (intro exI [of _ 0]) simp
  qed
qed simp

lemma make_pool_eq:
  "(make_pool spawn wc cap :: fault + 't pool) =
     (case make_queue cap of
        Inl f \<Rightarrow> Inl f
      | Inr q \<Rightarrow>
          if wc = 0 then Inl (Invalid_argument ''ThreadPool requires at least one worker'')
          else if \<forall>i \<in> set [0..<unat wc]. spawn i then
            Inr ((empty_pool q wc)\<lparr>p_joinable := replicate (unat wc) True\<rparr>)
          else Inl System_error)"
proof (cases "make_queue cap :: fault + 't envelope blocking_queue")
  case (Inr q)
  show ?thesis
  proof (cases "\<forall>i \<in> set [0..<unat wc]. spawn i")
    case True
    then have "spawn_workers spawn 0 (unat wc) (empty_pool q wc)
        = Inr ((empty_pool q wc)\<lparr>p_joinable := replicate (unat wc) True\<rparr>)"
      by (subst spawn_workers_Inr) (simp add: empty_pool_def)
    with Inr True show ?thesis by (simp add: make_pool_def)
  next
    case False
    then obtain p where "spawn_workers spawn 0 (unat wc) (empty_pool q wc) = Inl p"
      by (cases "spawn_workers spawn 0 (unat wc) (empty_pool q wc)") (auto simp: spawn_workers_Inr)
    with Inr False show ?thesis by (auto simp: make_pool_def)
  qed
qed (simp add: make_pool_def)

text \<open>A new pool, its workers about to pop, and \<open>n\<close> threads that may call it.\<close>

definition start_system :: "'t pool \<Rightarrow> nat \<Rightarrow> time_point \<Rightarrow> 't system" where
  "start_system p n now =
     pool.extend p
       \<lparr>chans = [], clock = now, workers = replicate (length (p_joinable p)) WPop,
        callers = replicate n CIdle, crashed = None\<rparr>"

definition pool_init :: "'t system \<Rightarrow> bool" where
  "pool_init s \<longleftrightarrow>
     (\<exists>spawn wc cap p n now. make_pool spawn wc cap = Inr p \<and> s = start_system p n now)"

text \<open>
  What every such state has in common, and what the handler of a failed construction starts from
  too: started threads, no more than the sample buffers, at an empty open queue.
\<close>

definition fresh_system :: "'t system \<Rightarrow> bool" where
  "fresh_system s \<longleftrightarrow>
     (\<exists>cap. make_queue cap = Inr (p_queue s)) \<and> p_rejected s = 0 \<and> p_mutex s = None \<and> \<not> p_joined s
     \<and> chans s = [] \<and> crashed s = None
     \<and> (\<exists>wc k n. 0 < k \<and> k \<le> wc \<and> p_samples s = replicate wc [] \<and> p_joinable s = replicate k True
          \<and> workers s = replicate k WPop \<and> callers s = replicate n CIdle)"

lemma pool_init_fresh:
  assumes "pool_init s"
  shows "fresh_system s"
proof -
  from assms obtain p n now spawn wc cap where p: "make_pool spawn wc cap = Inr p"
    and s: "s = start_system p n now" by (auto simp: pool_init_def)
  from p obtain q where q: "make_queue cap = Inr q" and wc: "0 < unat wc"
    and e: "p = (empty_pool q wc)\<lparr>p_joinable := replicate (unat wc) True\<rparr>"
    by (auto simp: make_pool_eq unat_pos_u64 split: sum.splits if_splits)
  from q wc show ?thesis unfolding fresh_system_def
    by (intro conjI exI [of _ cap] exI [of _ "unat wc"] exI [of _ n])
       (simp_all add: s e start_system_def pool.defs empty_pool_def)
qed

section \<open>The worker loop\<close>

definition worker_step :: "('t \<Rightarrow> exec_outcome) \<Rightarrow> nat \<Rightarrow> 't system \<Rightarrow> 't system option" where
  "worker_step execute i s =
     (case workers s ! i of
        WPop \<Rightarrow>
          (case pop (p_queue s) of
             None \<Rightarrow> None
           | Some (None, q) \<Rightarrow> Some (set_worker i WExit (s\<lparr>p_queue := q\<rparr>))
           | Some (Some e, q) \<Rightarrow> Some (set_worker i (WStart e) (s\<lparr>p_queue := q\<rparr>)))
      | WStart e \<Rightarrow> Some (set_worker i (WRun e (clock s)) s)
      | WRun e deq \<Rightarrow>
          (case run execute deq (clock s) e (chans s) of
             Inl f \<Rightarrow> Some (crash f s)
           | Inr (smp, cs) \<Rightarrow> Some (set_worker i (WRecord e smp) (s\<lparr>chans := cs\<rparr>)))
      | WRecord e smp \<Rightarrow>
          Some (set_worker i WPop
            (s\<lparr>p_samples := (p_samples s)[i := p_samples s ! i @ [smp]],
               chans := destroy e (chans s)\<rparr>))
      | WExit \<Rightarrow> None)"

section \<open>Submission\<close>

definition submit_step :: "nat \<Rightarrow> 't system \<Rightarrow> 't system option" where
  "submit_step j s =
     (case callers s ! j of
        CPush e \<Rightarrow>
          (case push e (p_queue s) of
             None \<Rightarrow> None
           | Some (True, q) \<Rightarrow>
               Some (set_caller j CIdle
                 (s\<lparr>p_queue := q, chans := destroy (moved_from e) (chans s)\<rparr>))
           | Some (False, q) \<Rightarrow> Some (set_caller j (CReject e) (s\<lparr>p_queue := q\<rparr>)))
      | CReject e \<Rightarrow>
          (case reject (clock s) e (chans s) of
             Inl f \<Rightarrow> Some (crash f s)
           | Inr cs \<Rightarrow> Some (set_caller j (CCount e) (s\<lparr>chans := cs\<rparr>)))
      | CCount e \<Rightarrow>
          Some (set_caller j CIdle
            (s\<lparr>p_rejected := p_rejected s + 1, chans := destroy e (chans s)\<rparr>))
      | _ \<Rightarrow> None)"

section \<open>Shutdown\<close>

definition shutdown_step :: "nat \<Rightarrow> 't system \<Rightarrow> 't system option" where
  "shutdown_step j s =
     (case callers s ! j of
        CClose \<Rightarrow> Some (set_caller j (CJoin []) (s\<lparr>p_queue := close (p_queue s)\<rparr>))
      | _ \<Rightarrow> None)"

definition shutdown_now_step :: "nat \<Rightarrow> 't system \<Rightarrow> 't system option" where
  "shutdown_now_step j s =
     (case callers s ! j of
        CDrain \<Rightarrow>
          (case close_and_drain (p_queue s) of
             (ds, q) \<Rightarrow> Some (set_caller j (CStamp ds) (s\<lparr>p_queue := q\<rparr>)))
      | CStamp ds \<Rightarrow> Some (set_caller j (CDiscard (clock s) [] ds) s)
      | CDiscard finished_at done [] \<Rightarrow>
          Some (set_caller j (CJoin done)
            (s\<lparr>p_rejected := p_rejected s + of_nat (length done)\<rparr>))
      | CDiscard finished_at done (e # es) \<Rightarrow>
          (case reject finished_at e (chans s) of
             Inl f \<Rightarrow> Some (crash f s)
           | Inr cs \<Rightarrow> Some (set_caller j (CDiscard finished_at (done @ [e]) es) (s\<lparr>chans := cs\<rparr>)))
      | _ \<Rightarrow> None)"

text \<open>
  \<open>join_workers\<close> under \<open>shutdown_mutex_\<close>: return if somebody has joined already, else join
  every joinable thread in turn, each of which waits for that worker to exit, and set the flag
  only then. Leaving the function that called it destroys the vector of discarded envelopes.
\<close>

definition join_step :: "nat \<Rightarrow> 't system \<Rightarrow> 't system option" where
  "join_step j s =
     (case callers s ! j of
        CJoin ds \<Rightarrow>
          if p_mutex s \<noteq> None then None
          else if p_joined s then Some (set_caller j (CLeave ds) s)
          else Some (set_caller j (CJoining ds 0) (s\<lparr>p_mutex := Some j\<rparr>))
      | CJoining ds i \<Rightarrow>
          if i < length (p_joinable s) then
            if p_joinable s ! i then
              if workers s ! i = WExit then
                Some (set_caller j (CJoining ds (Suc i)) (s\<lparr>p_joinable := (p_joinable s)[i := False]\<rparr>))
              else None
            else Some (set_caller j (CJoining ds (Suc i)) s)
          else Some (set_caller j (CLeave ds) (s\<lparr>p_joined := True, p_mutex := None\<rparr>))
      | CLeave ds \<Rightarrow> Some (set_caller j CIdle (s\<lparr>chans := fold destroy ds (chans s)\<rparr>))
      | _ \<Rightarrow> None)"

definition caller_step :: "nat \<Rightarrow> 't system \<Rightarrow> 't system option" where
  "caller_step j s =
     (case callers s ! j of
        CIdle \<Rightarrow> None
      | CPush e \<Rightarrow> submit_step j s
      | CReject e \<Rightarrow> submit_step j s
      | CCount e \<Rightarrow> submit_step j s
      | CClose \<Rightarrow> shutdown_step j s
      | CDrain \<Rightarrow> shutdown_now_step j s
      | CStamp ds \<Rightarrow> shutdown_now_step j s
      | CDiscard f rs es \<Rightarrow> shutdown_now_step j s
      | CJoin ds \<Rightarrow> join_step j s
      | CJoining ds i \<Rightarrow> join_step j s
      | CLeave ds \<Rightarrow> join_step j s)"

section \<open>Queries\<close>

definition workers_joined :: "('t, 'z) pool_scheme \<Rightarrow> bool" where
  "workers_joined p = p_joined p"

text \<open>The merge loop of \<open>collect_samples\<close>: one buffer after the other.\<close>

fun merge_buffers :: "sample list list \<Rightarrow> sample list \<Rightarrow> sample list" where
  "merge_buffers [] merged = merged"
| "merge_buffers (buffer # buffers) merged = merge_buffers buffers (merged @ buffer)"

definition collect_samples :: "('t, 'z) pool_scheme \<Rightarrow> fault + sample list" where
  "collect_samples p =
     (if \<not> workers_joined p then
        Inl (Logic_error (''ThreadPool::collect_samples requires the workers to be joined; ''
                          @ ''call shutdown() or shutdown_now() first''))
      else Inr (merge_buffers (p_samples p) []))"

definition rejected_count :: "('t, 'z) pool_scheme \<Rightarrow> u64" where
  "rejected_count p = p_rejected p"

definition worker_count :: "('t, 'z) pool_scheme \<Rightarrow> size_t" where
  "worker_count p = of_nat (length (p_joinable p))"

definition is_shut_down :: "('t, 'z) pool_scheme \<Rightarrow> bool" where
  "is_shut_down p = is_closed (p_queue p)"

definition queued :: "('t, 'z) pool_scheme \<Rightarrow> size_t" where
  "queued p = queue_size (p_queue p)"

section \<open>The transition system\<close>

text \<open>What happens without a new call: a worker or a caller inside the pool moves.\<close>

inductive pool_run :: "('t \<Rightarrow> exec_outcome) \<Rightarrow> 't system \<Rightarrow> 't system \<Rightarrow> bool" for execute where
  run_worker: "crashed s = None \<Longrightarrow> i < length (workers s) \<Longrightarrow> worker_step execute i s = Some s' \<Longrightarrow>
     pool_run execute s s'"
| run_caller: "crashed s = None \<Longrightarrow> j < length (callers s) \<Longrightarrow> caller_step j s = Some s' \<Longrightarrow>
     pool_run execute s s'"

text \<open>
  A caller enters \<open>submit\<close> with an envelope it has just built around a (non-null) task and whose
  future it keeps.
\<close>

definition enter_submit :: "nat \<Rightarrow> task_id \<Rightarrow> 't \<Rightarrow> 't system \<Rightarrow> 't system option" where
  "enter_submit j i task s =
     (case make_envelope i (Some task) (clock s) (chans s) of
        (e, cs) \<Rightarrow>
          (case get_future e cs of
             Inl f \<Rightarrow> None
           | Inr (fut, cs') \<Rightarrow> Some (set_caller j (CPush e) (s\<lparr>chans := cs'\<rparr>))))"

inductive pool_step :: "('t \<Rightarrow> exec_outcome) \<Rightarrow> 't system \<Rightarrow> 't system \<Rightarrow> bool" for execute where
  step_run: "pool_run execute s s' \<Longrightarrow> pool_step execute s s'"
| step_submit: "crashed s = None \<Longrightarrow> j < length (callers s) \<Longrightarrow> callers s ! j = CIdle \<Longrightarrow>
     enter_submit j i task s = Some s' \<Longrightarrow> pool_step execute s s'"
| step_shutdown: "crashed s = None \<Longrightarrow> j < length (callers s) \<Longrightarrow> callers s ! j = CIdle \<Longrightarrow>
     pool_step execute s (set_caller j CClose s)"
| step_shutdown_now: "crashed s = None \<Longrightarrow> j < length (callers s) \<Longrightarrow> callers s ! j = CIdle \<Longrightarrow>
     pool_step execute s (set_caller j CDrain s)"
| step_tick: "clock s \<le> now \<Longrightarrow> pool_step execute s (s\<lparr>clock := now\<rparr>)"

inductive_cases pool_runE [consumes 1, case_names run_worker run_caller]: "pool_run execute s s'"
inductive_cases pool_stepE [consumes 1, case_names step_run step_submit step_shutdown step_shutdown_now step_tick]:
  "pool_step execute s s'"

section \<open>Schedules\<close>

text \<open>
  The same transitions as an executable function of an explicit action, so that an interleaving is
  a list of actions and can be evaluated.
\<close>

datatype 't action =
    Work nat
  | Proceed nat
  | Call_submit nat task_id 't
  | Call_shutdown nat
  | Call_shutdown_now nat
  | Tick time_point

definition idle :: "nat \<Rightarrow> 't system \<Rightarrow> bool" where
  "idle j s \<longleftrightarrow> crashed s = None \<and> j < length (callers s) \<and> callers s ! j = CIdle"

fun act :: "('t \<Rightarrow> exec_outcome) \<Rightarrow> 't action \<Rightarrow> 't system \<Rightarrow> 't system option" where
  "act execute (Work i) s =
     (if crashed s = None \<and> i < length (workers s) then worker_step execute i s else None)"
| "act execute (Proceed j) s =
     (if crashed s = None \<and> j < length (callers s) then caller_step j s else None)"
| "act execute (Call_submit j i task) s = (if idle j s then enter_submit j i task s else None)"
| "act execute (Call_shutdown j) s = (if idle j s then Some (set_caller j CClose s) else None)"
| "act execute (Call_shutdown_now j) s = (if idle j s then Some (set_caller j CDrain s) else None)"
| "act execute (Tick now) s = (if clock s \<le> now then Some (s\<lparr>clock := now\<rparr>) else None)"

fun acts :: "('t \<Rightarrow> exec_outcome) \<Rightarrow> 't action list \<Rightarrow> 't system \<Rightarrow> 't system option" where
  "acts execute [] s = Some s"
| "acts execute (a # as) s =
     (case act execute a s of None \<Rightarrow> None | Some s' \<Rightarrow> acts execute as s')"

lemma pool_step_iff_act: "pool_step execute s s' \<longleftrightarrow> (\<exists>a. act execute a s = Some s')"
proof
  assume "pool_step execute s s'"
  then show "\<exists>a. act execute a s = Some s'"
  proof cases
    case step_run
    then show ?thesis
    proof cases
      case (run_worker i)
      then show ?thesis by (intro exI [of _ "Work i"]) simp
    next
      case (run_caller j)
      then show ?thesis by (intro exI [of _ "Proceed j"]) simp
    qed
  next
    case (step_submit j i task)
    then show ?thesis by (intro exI [of _ "Call_submit j i task"]) (simp add: idle_def)
  next
    case (step_shutdown j)
    then show ?thesis by (intro exI [of _ "Call_shutdown j"]) (simp add: idle_def)
  next
    case (step_shutdown_now j)
    then show ?thesis by (intro exI [of _ "Call_shutdown_now j"]) (simp add: idle_def)
  next
    case (step_tick now)
    then show ?thesis by (intro exI [of _ "Tick now"]) simp
  qed
next
  assume "\<exists>a. act execute a s = Some s'"
  then obtain a where a: "act execute a s = Some s'" ..
  show "pool_step execute s s'"
    using a by (cases a) (auto simp: idle_def split: if_splits intro: pool_step.intros pool_run.intros)
qed

lemma acts_steps: "acts execute as s = Some t \<Longrightarrow> (pool_step execute)\<^sup>*\<^sup>* s t"
proof (induction as arbitrary: s)
  case (Cons a as)
  then obtain s' where "act execute a s = Some s'" and rest: "acts execute as s' = Some t"
    by (auto split: option.splits)
  then have "pool_step execute s s'" using pool_step_iff_act by blast
  then show ?case using Cons.IH [OF rest] by (rule converse_rtranclp_into_rtranclp)
qed simp

lemma acts_reach:
  "pool_init s \<Longrightarrow> acts execute as s = Some t \<Longrightarrow> reach pool_init (pool_step execute) t"
  using acts_steps reach_steps reach_init by metis

text \<open>A pool with one worker, a queue of one place and one or more callers, for the examples.\<close>

definition demo_pool :: "bool pool" where
  "demo_pool = \<lparr>p_queue = \<lparr>q_items = [], q_closed = False, q_capacity = 1\<rparr>, p_samples = [[]],
     p_rejected = 0, p_mutex = None, p_joined = False, p_joinable = [True]\<rparr>"

definition demo_execute :: "bool \<Rightarrow> exec_outcome" where
  "demo_execute b = (if b then Returned else Threw_exception ''boom'')"

lemma make_demo_pool: "make_pool (\<lambda>_. True) 1 1 = Inr demo_pool"
  by (simp add: make_pool_eq make_queue_def demo_pool_def empty_pool_def)

lemma demo_pool_init: "pool_init (start_system demo_pool n now)"
  unfolding pool_init_def using make_demo_pool by blast

lemma demo_reach: "reach pool_init (pool_step execute) (start_system demo_pool n now)"
  by (rule reach_init) (rule demo_pool_init)

end
