(* ===== verification/Pool_Ownership.thy ===== *)
theory Pool_Ownership
  imports Thread_Pool
begin

text \<open>
  Who owns which promise. Every waiting channel belongs to exactly one envelope, and that envelope
  is in exactly one place: in the queue, with a worker, or with a caller. Each step of the pool
  either moves envelopes between places, opens a new channel together with its envelope, or settles
  one waiting channel; nothing else ever happens to a channel. This is the abstract ledger the
  pool implements, and the reason why every future is fulfilled exactly once.
\<close>

section \<open>Places\<close>

text \<open>The envelopes a thread still has to settle, and the settled ones it has not destroyed yet.\<close>

fun wopen :: "'t worker \<Rightarrow> 't envelope multiset" where
  "wopen (WStart e) = {#e#}"
| "wopen (WRun e d) = {#e#}"
| "wopen _ = {#}"

fun wheld :: "'t worker \<Rightarrow> 't envelope set" where
  "wheld (WRecord e smp) = {e}"
| "wheld _ = {}"

fun copen :: "'t caller \<Rightarrow> 't envelope multiset" where
  "copen (CPush e) = {#e#}"
| "copen (CReject e) = {#e#}"
| "copen (CStamp ds) = mset ds"
| "copen (CDiscard f rs es) = mset es"
| "copen _ = {#}"

fun cheld :: "'t caller \<Rightarrow> 't envelope set" where
  "cheld (CCount e) = {e}"
| "cheld (CDiscard f rs es) = set rs"
| "cheld (CJoin ds) = set ds"
| "cheld (CJoining ds i) = set ds"
| "cheld (CLeave ds) = set ds"
| "cheld _ = {}"

definition opened :: "'t system \<Rightarrow> 't envelope multiset" where
  "opened s = mset (q_items (p_queue s)) + sum_list (map wopen (workers s))
     + sum_list (map copen (callers s))"

definition held :: "'t system \<Rightarrow> 't envelope set" where
  "held s = \<Union> (wheld ` set (workers s)) \<union> \<Union> (cheld ` set (callers s))"

definition settled :: "channels \<Rightarrow> 't envelope \<Rightarrow> bool" where
  "settled cs e \<longleftrightarrow> (\<exists>p. env_promise e = Some p \<and> p < length cs \<and> \<not> pending cs p)"

definition own_inv :: "'t system \<Rightarrow> bool" where
  "own_inv s \<longleftrightarrow> crashed s = None
     \<and> (\<forall>e \<in># opened s. env_task e \<noteq> None \<and> env_promise e \<noteq> None)
     \<and> image_mset (\<lambda>e. the (env_promise e)) (opened s) = mset_set {p. pending (chans s) p}
     \<and> (\<forall>e \<in> held s. settled (chans s) e)
     \<and> (\<forall>c \<in> set (chans s). \<not> ch_broken c)"

section \<open>Facts on places and channels\<close>

lemma finite_pending [simp]: "finite {p. pending cs p}"
  by (rule finite_subset [of _ "{..<length cs}"]) (auto simp: pending_def)

lemma sum_mset_mem: "x \<in> set xs \<Longrightarrow> e \<in># f x \<Longrightarrow> e \<in># sum_list (map f xs)"
  by (induction xs) auto

lemma opened_worker:
  "i < length (workers s) \<Longrightarrow> e \<in># wopen (workers s ! i) \<Longrightarrow> e \<in># opened s"
  by (auto simp: opened_def intro: sum_mset_mem)

lemma opened_caller:
  "j < length (callers s) \<Longrightarrow> e \<in># copen (callers s ! j) \<Longrightarrow> e \<in># opened s"
  by (auto simp: opened_def intro: sum_mset_mem)

lemma held_worker: "i < length (workers s) \<Longrightarrow> e \<in> wheld (workers s ! i) \<Longrightarrow> e \<in> held s"
  using nth_mem [of i "workers s"] by (auto simp: held_def)

lemma held_caller: "j < length (callers s) \<Longrightarrow> e \<in> cheld (callers s ! j) \<Longrightarrow> e \<in> held s"
  using nth_mem [of j "callers s"] by (auto simp: held_def)

lemma own_inv_open:
  assumes "own_inv s" and "e \<in># opened s"
  obtains p where "env_promise e = Some p" "pending (chans s) p" "env_task e \<noteq> None"
proof -
  from assms obtain p where p: "env_promise e = Some p" "env_task e \<noteq> None"
    by (auto simp: own_inv_def)
  from assms(2) have "the (env_promise e) \<in># image_mset (\<lambda>e. the (env_promise e)) (opened s)"
    by auto
  with assms(1) p(1) have "pending (chans s) p" by (simp add: own_inv_def)
  with p that show thesis by blast
qed

lemma own_inv_held:
  assumes "own_inv s" and "e \<in> held s"
  shows "destroy e (chans s) = chans s"
  using assms by (intro destroy_settled) (auto simp: own_inv_def settled_def)

lemma fold_destroy_held: "own_inv s \<Longrightarrow> set ds \<subseteq> held s \<Longrightarrow> fold destroy ds (chans s) = chans s"
  by (induction ds) (auto simp: own_inv_held)

lemma pending_mset_fulfil:
  "pending cs p \<Longrightarrow>
   mset_set {q. pending cs q} = add_mset p (mset_set {q. pending (fulfil p r cs) q})"
proof -
  assume "pending cs p"
  then have "{q. pending cs q} = insert p {q. pending (fulfil p r cs) q}"
    and "p \<notin> {q. pending (fulfil p r cs) q}" by auto
  then show ?thesis using mset_set.insert [of "{q. pending (fulfil p r cs) q}" p] by simp
qed

section \<open>What a step does, case by case\<close>

lemma worker_step_cases:
  assumes own: "own_inv s" and i: "i < length (workers s)" and st: "worker_step execute i s = Some s'"
  obtains (exits) q where "workers s ! i = WPop" "pop (p_queue s) = Some (None, q)"
      "s' = set_worker i WExit (s\<lparr>p_queue := q\<rparr>)"
  | (takes) e q where "workers s ! i = WPop" "pop (p_queue s) = Some (Some e, q)"
      "s' = set_worker i (WStart e) (s\<lparr>p_queue := q\<rparr>)"
  | (stamps) e where "workers s ! i = WStart e" "s' = set_worker i (WRun e (clock s)) s"
  | (runs) e deq p where "workers s ! i = WRun e deq" "env_promise e = Some p" "pending (chans s) p"
      "s' = set_worker i (WRecord e (sample_of (run_result execute deq (clock s) e)))
              (s\<lparr>chans := fulfil p (run_result execute deq (clock s) e) (chans s)\<rparr>)"
  | (records) e smp where "workers s ! i = WRecord e smp"
      "s' = set_worker i WPop (s\<lparr>p_samples := (p_samples s)[i := p_samples s ! i @ [smp]]\<rparr>)"
proof (cases "workers s ! i")
  case WPop
  with st exits takes show thesis
    by (auto simp: worker_step_def split: option.splits prod.splits)
next
  case (WStart e)
  with st stamps show thesis by (simp add: worker_step_def)
next
  case (WRun e deq)
  with i have "e \<in># opened s" by (auto intro: opened_worker)
  with own obtain p where "env_promise e = Some p" "pending (chans s) p" "env_task e \<noteq> None"
    by (rule own_inv_open)
  with st WRun runs show thesis by (simp add: worker_step_def run_pending)
next
  case (WRecord e smp)
  with i have "e \<in> held s" by (auto intro: held_worker)
  with own have "destroy e (chans s) = chans s" by (rule own_inv_held)
  with st WRecord records show thesis by (simp add: worker_step_def)
next
  case WExit
  with st show thesis by (simp add: worker_step_def)
qed

lemma caller_step_cases:
  assumes own: "own_inv s" and j: "j < length (callers s)" and st: "caller_step j s = Some s'"
  obtains (accepted) e q where "callers s ! j = CPush e" "push e (p_queue s) = Some (True, q)"
      "s' = set_caller j CIdle (s\<lparr>p_queue := q\<rparr>)"
  | (refused) e q where "callers s ! j = CPush e" "push e (p_queue s) = Some (False, q)"
      "s' = set_caller j (CReject e) (s\<lparr>p_queue := q\<rparr>)"
  | (rejects) e p where "callers s ! j = CReject e" "env_promise e = Some p" "pending (chans s) p"
      "s' = set_caller j (CCount e)
              (s\<lparr>chans := fulfil p (rejected (env_id e) (env_submitted e) (clock s)) (chans s)\<rparr>)"
  | (counts) e where "callers s ! j = CCount e"
      "s' = set_caller j CIdle (s\<lparr>p_rejected := p_rejected s + 1\<rparr>)"
  | (closes) "callers s ! j = CClose"
      "s' = set_caller j (CJoin []) (s\<lparr>p_queue := close (p_queue s)\<rparr>)"
  | (drains) ds q where "callers s ! j = CDrain" "close_and_drain (p_queue s) = (ds, q)"
      "s' = set_caller j (CStamp ds) (s\<lparr>p_queue := q\<rparr>)"
  | (stamps) ds where "callers s ! j = CStamp ds" "s' = set_caller j (CDiscard (clock s) [] ds) s"
  | (discards) f rs e es p where "callers s ! j = CDiscard f rs (e # es)" "env_promise e = Some p"
      "pending (chans s) p"
      "s' = set_caller j (CDiscard f (rs @ [e]) es)
              (s\<lparr>chans := fulfil p (rejected (env_id e) (env_submitted e) f) (chans s)\<rparr>)"
  | (discarded) f rs where "callers s ! j = CDiscard f rs []"
      "s' = set_caller j (CJoin rs) (s\<lparr>p_rejected := p_rejected s + of_nat (length rs)\<rparr>)"
  | (joined) ds where "callers s ! j = CJoin ds" "p_mutex s = None" "p_joined s"
      "s' = set_caller j (CLeave ds) s"
  | (locks) ds where "callers s ! j = CJoin ds" "p_mutex s = None" "\<not> p_joined s"
      "s' = set_caller j (CJoining ds 0) (s\<lparr>p_mutex := Some j\<rparr>)"
  | (joins) ds i where "callers s ! j = CJoining ds i" "i < length (p_joinable s)" "p_joinable s ! i"
      "workers s ! i = WExit"
      "s' = set_caller j (CJoining ds (Suc i)) (s\<lparr>p_joinable := (p_joinable s)[i := False]\<rparr>)"
  | (skips) ds i where "callers s ! j = CJoining ds i" "i < length (p_joinable s)" "\<not> p_joinable s ! i"
      "s' = set_caller j (CJoining ds (Suc i)) s"
  | (finishes) ds i where "callers s ! j = CJoining ds i" "length (p_joinable s) \<le> i"
      "s' = set_caller j (CLeave ds) (s\<lparr>p_joined := True, p_mutex := None\<rparr>)"
  | (leaves) ds where "callers s ! j = CLeave ds" "s' = set_caller j CIdle s"
proof (cases "callers s ! j")
  case (CPush e)
  with st accepted refused show thesis
    by (auto simp: caller_step_def submit_step_def split: option.splits prod.splits bool.splits)
next
  case (CReject e)
  with j have "e \<in># opened s" by (auto intro: opened_caller)
  with own obtain p where "env_promise e = Some p" "pending (chans s) p" by (rule own_inv_open)
  with st CReject rejects show thesis
    by (simp add: caller_step_def submit_step_def reject_pending)
next
  case (CCount e)
  with j have "e \<in> held s" by (auto intro: held_caller)
  with st CCount counts own_inv_held [OF own] show thesis
    by (simp add: caller_step_def submit_step_def)
next
  case (CDiscard f rs es)
  show thesis
  proof (cases es)
    case Nil
    with st CDiscard discarded show thesis by (simp add: caller_step_def shutdown_now_step_def)
  next
    case (Cons e es')
    with CDiscard j have "e \<in># opened s" by (auto intro: opened_caller)
    with own obtain p where "env_promise e = Some p" "pending (chans s) p" by (rule own_inv_open)
    with st CDiscard Cons discards show thesis
      by (simp add: caller_step_def shutdown_now_step_def reject_pending)
  qed
next
  case (CLeave ds)
  with j have "set ds \<subseteq> held s" by (auto intro: held_caller)
  with st CLeave leaves fold_destroy_held [OF own] show thesis
    by (simp add: caller_step_def join_step_def)
qed (use st closes drains stamps joined locks joins skips finishes in
     \<open>auto simp: caller_step_def shutdown_step_def shutdown_now_step_def join_step_def
           split: prod.splits if_splits\<close>)

section \<open>The ledger\<close>

text \<open>
  The abstract specification: a table of futures that only ever grows by a new waiting entry or
  settles one waiting entry with a well-formed result.
\<close>

inductive ledger_step :: "channels \<Rightarrow> channels \<Rightarrow> bool" where
  ledger_same: "ledger_step cs cs"
| ledger_open: "ledger_step cs (cs @ [fresh_channel\<lparr>ch_retrieved := True\<rparr>])"
| ledger_settle: "pending cs p \<Longrightarrow> result_ok r \<Longrightarrow> ledger_step cs (fulfil p r cs)"

inductive_cases ledger_stepE [consumes 1, case_names unchanged extended settled]: "ledger_step cs cs'"

definition moves :: "'t system \<Rightarrow> 't system \<Rightarrow> bool" where
  "moves s s' \<longleftrightarrow> opened s' = opened s \<and> held s' \<subseteq> held s \<and> chans s' = chans s \<and> crashed s' = crashed s"

definition settles :: "'t envelope \<Rightarrow> nat \<Rightarrow> task_result \<Rightarrow> 't system \<Rightarrow> 't system \<Rightarrow> bool" where
  "settles e p r s s' \<longleftrightarrow> env_promise e = Some p \<and> pending (chans s) p \<and> result_ok r
     \<and> res_id r = env_id e \<and> opened s = add_mset e (opened s') \<and> held s' \<subseteq> insert e (held s)
     \<and> chans s' = fulfil p r (chans s) \<and> crashed s' = crashed s"

definition opens :: "'t envelope \<Rightarrow> 't system \<Rightarrow> 't system \<Rightarrow> bool" where
  "opens e s s' \<longleftrightarrow> env_promise e = Some (length (chans s)) \<and> env_task e \<noteq> None
     \<and> env_submitted e = clock s
     \<and> opened s' = add_mset e (opened s) \<and> held s' \<subseteq> held s
     \<and> chans s' = chans s @ [fresh_channel\<lparr>ch_retrieved := True\<rparr>] \<and> crashed s' = crashed s"

lemma own_inv_moves: "own_inv s \<Longrightarrow> moves s s' \<Longrightarrow> own_inv s'"
  by (auto simp: own_inv_def moves_def)

lemma own_inv_settles:
  assumes "own_inv s" and "settles e p r s s'"
  shows "own_inv s'"
proof -
  from assms(2) have s: "env_promise e = Some p" "pending (chans s) p" "opened s = add_mset e (opened s')"
      "held s' \<subseteq> insert e (held s)" "chans s' = fulfil p r (chans s)" "crashed s' = crashed s"
    by (auto simp: settles_def)
  from s(2) have p: "p < length (chans s)" by (simp add: pending_def)
  have "image_mset (\<lambda>e. the (env_promise e)) (opened s') = mset_set {p. pending (chans s') p}"
    using assms(1) s pending_mset_fulfil [OF s(2), of r] by (simp add: own_inv_def)
  moreover have "settled (chans s') x" if "x \<in> held s'" for x
  proof (cases "x = e")
    case True
    with s p show ?thesis by (simp add: settled_def)
  next
    case False
    with that s(4) assms(1) have "settled (chans s) x" by (auto simp: own_inv_def)
    with s(2,5) show ?thesis by (auto simp: settled_def)
  qed
  moreover have "\<not> ch_broken c" if "c \<in> set (chans s')" for c
    using that assms(1) p s(5)
    by (auto simp: own_inv_def fulfil_def dest!: set_update_subset_insert [THEN subsetD])
  ultimately show ?thesis
    using assms(1) s(3,6) by (auto simp: own_inv_def)
qed

lemma pending_append_retrieved:
  "pending (cs @ [fresh_channel\<lparr>ch_retrieved := True\<rparr>]) p \<longleftrightarrow> p = length cs \<or> pending cs p"
  by (auto simp: pending_def nth_append fresh_channel_def)

lemma own_inv_opens:
  assumes "own_inv s" and "opens e s s'"
  shows "own_inv s'"
proof -
  from assms(2) have s: "env_promise e = Some (length (chans s))" "env_task e \<noteq> None"
      "opened s' = add_mset e (opened s)" "held s' \<subseteq> held s" "crashed s' = crashed s"
      "chans s' = chans s @ [fresh_channel\<lparr>ch_retrieved := True\<rparr>]"
    by (auto simp: opens_def)
  have "{p. pending (chans s') p} = insert (length (chans s)) {p. pending (chans s) p}"
    by (auto simp: s(6) pending_append_retrieved)
  moreover have "length (chans s) \<notin> {p. pending (chans s) p}" by (simp add: pending_def)
  ultimately have "mset_set {p. pending (chans s') p} =
      add_mset (length (chans s)) (mset_set {p. pending (chans s) p})" by simp
  moreover have "settled (chans s') x" if "settled (chans s) x" for x :: "'a envelope"
    using that by (auto simp: settled_def s(6))
  ultimately show ?thesis
    using assms(1) s by (auto simp: own_inv_def fresh_channel_def)
qed

subsection \<open>Every step is a ledger step\<close>

lemma opened_set_worker:
  "i < length (workers s) \<Longrightarrow> opened (set_worker i w s) + wopen (workers s ! i) = opened s + wopen w"
  using sum_mset_map_update [of i "workers s" wopen w]
  by (simp add: opened_def set_worker_def ac_simps)

lemma opened_set_caller:
  "j < length (callers s) \<Longrightarrow> opened (set_caller j c s) + copen (callers s ! j) = opened s + copen c"
  using sum_mset_map_update [of j "callers s" copen c]
  by (simp add: opened_def set_caller_def ac_simps)

lemma opened_queue:
  "opened (s\<lparr>p_queue := q\<rparr>) + mset (q_items (p_queue s)) = opened s + mset (q_items q)"
  by (simp add: opened_def)

lemma opened_frame [simp]:
  "opened (s\<lparr>chans := cs\<rparr>) = opened s" "opened (s\<lparr>clock := t\<rparr>) = opened s"
  "opened (s\<lparr>p_samples := x\<rparr>) = opened s" "opened (s\<lparr>p_rejected := n\<rparr>) = opened s"
  "opened (s\<lparr>p_mutex := m\<rparr>) = opened s" "opened (s\<lparr>p_joinable := b\<rparr>) = opened s"
  "opened (s\<lparr>p_joined := d, p_mutex := m\<rparr>) = opened s"
  by (simp_all add: opened_def)

lemma held_set_worker: "held (set_worker i w s) \<subseteq> wheld w \<union> held s"
  by (auto simp: held_def set_worker_def dest!: set_update_subset_insert [THEN subsetD])

lemma held_set_caller: "held (set_caller j c s) \<subseteq> cheld c \<union> held s"
  by (auto simp: held_def set_caller_def dest!: set_update_subset_insert [THEN subsetD])

lemma held_frame [simp]:
  "held (s\<lparr>chans := cs\<rparr>) = held s" "held (s\<lparr>clock := t\<rparr>) = held s" "held (s\<lparr>p_queue := q\<rparr>) = held s"
  "held (s\<lparr>p_samples := x\<rparr>) = held s" "held (s\<lparr>p_rejected := n\<rparr>) = held s"
  "held (s\<lparr>p_mutex := m\<rparr>) = held s" "held (s\<lparr>p_joinable := b\<rparr>) = held s"
  "held (s\<lparr>p_joined := d, p_mutex := m\<rparr>) = held s"
  by (simp_all add: held_def)

lemma set_simps [simp]:
  "workers (set_worker i w s) = (workers s)[i := w]" "callers (set_worker i w s) = callers s"
  "chans (set_worker i w s) = chans s" "crashed (set_worker i w s) = crashed s"
  "clock (set_worker i w s) = clock s" "p_queue (set_worker i w s) = p_queue s"
  "p_samples (set_worker i w s) = p_samples s" "p_rejected (set_worker i w s) = p_rejected s"
  "p_mutex (set_worker i w s) = p_mutex s" "p_joined (set_worker i w s) = p_joined s"
  "p_joinable (set_worker i w s) = p_joinable s"
  "workers (set_caller j c s) = workers s" "callers (set_caller j c s) = (callers s)[j := c]"
  "chans (set_caller j c s) = chans s" "crashed (set_caller j c s) = crashed s"
  "clock (set_caller j c s) = clock s" "p_queue (set_caller j c s) = p_queue s"
  "p_samples (set_caller j c s) = p_samples s" "p_rejected (set_caller j c s) = p_rejected s"
  "p_mutex (set_caller j c s) = p_mutex s" "p_joined (set_caller j c s) = p_joined s"
  "p_joinable (set_caller j c s) = p_joinable s"
  by (simp_all add: set_worker_def set_caller_def)

text \<open>Moving one thread: the multiset it answers for, the queue and the channels, all at once.\<close>

lemma moves_worker:
  assumes "i < length (workers s)" and "wheld w \<subseteq> held s"
    and "mset (q_items q) + wopen w = mset (q_items (p_queue s)) + wopen (workers s ! i)"
  shows "moves s (set_worker i w (s\<lparr>p_queue := q\<rparr>))"
proof -
  have "opened (set_worker i w (s\<lparr>p_queue := q\<rparr>)) + (mset (q_items (p_queue s)) + wopen (workers s ! i))
      = opened s + (mset (q_items q) + wopen w)"
    using opened_set_worker [of i "s\<lparr>p_queue := q\<rparr>" w] opened_queue [where s = s and q = q] assms(1)
    by (simp add: opened_def set_worker_def ac_simps)
  then show ?thesis
    using held_set_worker [of i w "s\<lparr>p_queue := q\<rparr>"] assms(2,3) by (auto simp: moves_def)
qed

lemma moves_caller:
  assumes "j < length (callers s)" and "cheld c \<subseteq> held s"
    and "mset (q_items q) + copen c = mset (q_items (p_queue s)) + copen (callers s ! j)"
  shows "moves s (set_caller j c (s\<lparr>p_queue := q\<rparr>))"
proof -
  have "opened (set_caller j c (s\<lparr>p_queue := q\<rparr>)) + (mset (q_items (p_queue s)) + copen (callers s ! j))
      = opened s + (mset (q_items q) + copen c)"
    using opened_set_caller [of j "s\<lparr>p_queue := q\<rparr>" c] opened_queue [where s = s and q = q] assms(1)
    by (simp add: opened_def set_caller_def ac_simps)
  then show ?thesis
    using held_set_caller [of j c "s\<lparr>p_queue := q\<rparr>"] assms(2,3) by (auto simp: moves_def)
qed

text \<open>Moving one thread without touching the queue, with any other bookkeeping of the pool.\<close>

definition same_places :: "'t system \<Rightarrow> 't system \<Rightarrow> bool" where
  "same_places s s' \<longleftrightarrow> q_items (p_queue s') = q_items (p_queue s) \<and> workers s' = workers s
     \<and> callers s' = callers s \<and> chans s' = chans s \<and> crashed s' = crashed s"

lemma same_places_moves:
  assumes "same_places s s'"
  shows "opened s' = opened s" and "held s' = held s"
  using assms by (simp_all add: same_places_def opened_def held_def)

lemma moves_worker_frame:
  assumes "same_places s s'" and "i < length (workers s)" and "wheld w \<subseteq> held s"
    and "wopen w = wopen (workers s ! i)"
  shows "moves s (set_worker i w s')"
  using assms opened_set_worker [of i s' w] held_set_worker [of i w s'] same_places_moves [OF assms(1)]
  by (auto simp: moves_def same_places_def)

lemma moves_caller_frame:
  assumes "same_places s s'" and "j < length (callers s)" and "cheld c \<subseteq> held s"
    and "copen c = copen (callers s ! j)"
  shows "moves s (set_caller j c s')"
  using assms opened_set_caller [of j s' c] held_set_caller [of j c s'] same_places_moves [OF assms(1)]
  by (auto simp: moves_def same_places_def)

lemma settles_worker:
  assumes "i < length (workers s)" and "wopen (workers s ! i) = {#e#}" and "wopen w = {#}"
    and "wheld w = {e}" and "env_promise e = Some p" and "pending (chans s) p" and "result_ok r"
    and "res_id r = env_id e"
  shows "settles e p r s (set_worker i w (s\<lparr>chans := fulfil p r (chans s)\<rparr>))"
  using assms opened_set_worker [of i "s\<lparr>chans := fulfil p r (chans s)\<rparr>" w]
    held_set_worker [of i w "s\<lparr>chans := fulfil p r (chans s)\<rparr>"]
  by (auto simp: settles_def)

lemma settles_caller:
  assumes "j < length (callers s)" and "copen (callers s ! j) = add_mset e (copen c)"
    and "cheld c \<subseteq> insert e (held s)" and "env_promise e = Some p" and "pending (chans s) p"
    and "result_ok r" and "res_id r = env_id e"
  shows "settles e p r s (set_caller j c (s\<lparr>chans := fulfil p r (chans s)\<rparr>))"
  using assms opened_set_caller [of j "s\<lparr>chans := fulfil p r (chans s)\<rparr>" c]
    held_set_caller [of j c "s\<lparr>chans := fulfil p r (chans s)\<rparr>"]
  by (auto simp: settles_def)

lemma worker_step_kind:
  assumes own: "own_inv s" and i: "i < length (workers s)" and st: "worker_step execute i s = Some s'"
  shows "moves s s' \<or> (\<exists>e p r. settles e p r s s')"
  using own i st
proof (cases rule: worker_step_cases)
  case (exits q)
  then have "q = p_queue s" by (auto simp: queue_defs split: if_splits list.splits)
  with exits i show ?thesis by (auto intro!: moves_worker_frame simp: same_places_def)
next
  case (takes e q)
  then have "q_items (p_queue s) = e # q_items q" by (auto simp: queue_defs split: if_splits list.splits)
  with takes i show ?thesis by (auto intro!: moves_worker)
next
  case (stamps e)
  with i show ?thesis by (auto intro!: moves_worker_frame simp: same_places_def)
next
  case (runs e deq p)
  have "settles e p (run_result execute deq (clock s) e) s s'"
    unfolding runs(4) using runs(1-3) i by (intro settles_worker) (simp_all add: run_result_id)
  then show ?thesis by blast
next
  case (records e smp)
  with i show ?thesis by (auto intro!: moves_worker_frame simp: same_places_def)
qed

lemma caller_step_kind:
  assumes own: "own_inv s" and j: "j < length (callers s)" and st: "caller_step j s = Some s'"
  shows "moves s s' \<or> (\<exists>e p r. settles e p r s s')"
proof -
  have mine: "cheld (callers s ! j) \<subseteq> held s" using j by (auto intro: held_caller)
  show ?thesis using own j st
  proof (cases rule: caller_step_cases)
    case (accepted e q)
    then have "q_items q = q_items (p_queue s) @ [e]" by (auto simp: queue_defs split: if_splits)
    with accepted j show ?thesis by (auto intro!: moves_caller)
  next
    case (refused e q)
    then have "q = p_queue s" by (auto simp: queue_defs split: if_splits)
    with refused j show ?thesis by (auto intro!: moves_caller_frame simp: same_places_def)
  next
    case (rejects e p)
    then have "settles e p (rejected (env_id e) (env_submitted e) (clock s)) s s'"
      unfolding rejects(4) using j by (intro settles_caller) auto
    then show ?thesis by blast
  next
    case (drains ds q)
    then have "q_items q = []" "ds = q_items (p_queue s)" by (auto simp: queue_defs)
    with drains j show ?thesis by (auto intro!: moves_caller)
  next
    case (discards f rs e es p)
    then have "settles e p (rejected (env_id e) (env_submitted e) f) s s'"
      unfolding discards(4) using j mine by (intro settles_caller) auto
    then show ?thesis by blast
  qed (use j mine in \<open>auto intro!: moves_caller_frame simp: same_places_def close_def\<close>)
qed

lemma enter_submit_eq:
  "enter_submit j i task s = Some s' \<longleftrightarrow>
     s' = set_caller j (CPush \<lparr>env_id = i, env_task = Some task, env_submitted = clock s,
                              env_promise = Some (length (chans s))\<rparr>)
            (s\<lparr>chans := chans s @ [fresh_channel\<lparr>ch_retrieved := True\<rparr>]\<rparr>)"
  by (auto simp: enter_submit_def make_envelope_def get_future_def fresh_channel_def)

lemma enter_submit_opens:
  assumes "j < length (callers s)" and "callers s ! j = CIdle" and "enter_submit j i task s = Some s'"
  shows "\<exists>e. opens e s s'"
proof -
  let ?e = "\<lparr>env_id = i, env_task = Some task, env_submitted = clock s,
      env_promise = Some (length (chans s))\<rparr>"
  let ?s = "s\<lparr>chans := chans s @ [fresh_channel\<lparr>ch_retrieved := True\<rparr>]\<rparr>"
  have "s' = set_caller j (CPush ?e) ?s" using assms(3) by (simp add: enter_submit_eq)
  then have "opens ?e s s'"
    using assms(1,2) opened_set_caller [of j ?s "CPush ?e"] held_set_caller [of j "CPush ?e" ?s]
    by (auto simp: opens_def)
  then show ?thesis by blast
qed

lemma pool_step_kind:
  assumes "own_inv s" and "pool_step execute s s'"
  shows "moves s s' \<or> (\<exists>e p r. settles e p r s s') \<or> (\<exists>e. opens e s s')"
  using assms(2)
proof cases
  case step_run
  then show ?thesis
  proof cases
    case (run_worker i)
    with worker_step_kind [OF assms(1)] show ?thesis by blast
  next
    case (run_caller j)
    with caller_step_kind [OF assms(1)] show ?thesis by blast
  qed
next
  case (step_submit j i task)
  then have "\<exists>e. opens e s s'" by (intro enter_submit_opens)
  then show ?thesis by blast
next
  case (step_shutdown j)
  have "moves s s'" unfolding step_shutdown(1) using step_shutdown
    by (intro moves_caller_frame) (auto simp: same_places_def)
  then show ?thesis by blast
next
  case (step_shutdown_now j)
  have "moves s s'" unfolding step_shutdown_now(1) using step_shutdown_now
    by (intro moves_caller_frame) (auto simp: same_places_def)
  then show ?thesis by blast
next
  case (step_tick now)
  then show ?thesis by (simp add: moves_def)
qed

lemma fresh_queue: "fresh_system s \<Longrightarrow> q_items (p_queue s) = [] \<and> \<not> q_closed (p_queue s) \<and> queue_ok (p_queue s)"
  unfolding fresh_system_def using make_queue_ok by blast

lemma own_inv_init:
  assumes "fresh_system s"
  shows "own_inv s"
proof -
  have "sum_list (replicate k {#}) = ({#} :: 'a envelope multiset)" for k
    by (induction k) auto
  moreover have "pending [] q = False" for q by (simp add: pending_def)
  ultimately show ?thesis
    using assms fresh_queue [OF assms] by (auto simp: own_inv_def opened_def held_def fresh_system_def)
qed

interpretation own: invariant_system pool_init "pool_step execute" own_inv for execute
proof
  show "own_inv s" if "pool_init s" for s :: "'a system" using pool_init_fresh [OF that] by (rule own_inv_init)
  show "own_inv t" if "own_inv s" and "pool_step execute s t" for s t :: "'a system"
    using pool_step_kind [OF that] own_inv_moves own_inv_settles own_inv_opens that(1) by blast
qed

section \<open>Refinement of the ledger\<close>

lemma pool_step_ledger:
  assumes "own_inv s" and "pool_step execute s s'"
  shows "ledger_step (chans s) (chans s')"
  using pool_step_kind [OF assms]
  by (auto simp: moves_def settles_def opens_def intro: ledger_step.intros)

definition ledger_ok :: "channels \<Rightarrow> bool" where
  "ledger_ok cs \<longleftrightarrow> (\<forall>c \<in> set cs. \<not> ch_broken c \<and> ch_retrieved c \<and> pred_option result_ok (ch_value c))"

interpretation ledger: invariant_system "\<lambda>cs. cs = []" ledger_step ledger_ok
proof
  show "ledger_ok t" if "ledger_ok s" and "ledger_step s t" for s t
    using that(2,1)
  proof cases
    case ledger_open
    with that(1) show ?thesis by (auto simp: ledger_ok_def fresh_channel_def)
  next
    case (ledger_settle p r)
    then have "s ! p \<in> set s" by (simp add: pending_def)
    with that(1) ledger_settle show ?thesis
      by (auto simp: ledger_ok_def fulfil_def dest!: set_update_subset_insert [THEN subsetD])
  qed (use that in simp)
qed (simp add: ledger_ok_def)

lemma ledger_step_length: "ledger_step cs cs' \<Longrightarrow> length cs \<le> length cs'"
  by (elim ledger_stepE) auto

lemma ledger_step_stable:
  "ledger_step cs cs' \<Longrightarrow> p < length cs \<Longrightarrow> ch_value (cs ! p) = Some r \<Longrightarrow>
     p < length cs' \<and> cs' ! p = cs ! p"
  by (induction rule: ledger_step.induct) (auto simp: nth_append fulfil_nth pending_def)

lemma ledger_steps_stable:
  "ledger_step\<^sup>*\<^sup>* cs cs' \<Longrightarrow> p < length cs \<Longrightarrow> ch_value (cs ! p) = Some r \<Longrightarrow>
     p < length cs' \<and> cs' ! p = cs ! p"
proof (induction rule: rtranclp_induct)
  case (step cs1 cs2)
  with ledger_step_stable [OF step(2), of p r] show ?case by simp
qed simp

interpretation ledger_view: refinement pool_init "pool_step execute" own_inv
  "\<lambda>cs. cs = []" ledger_step chans for execute
proof
  show "chans s = []" if "pool_init s" for s :: "'a system"
    using that by (auto simp: pool_init_def start_system_def pool.defs)
  show "chans t = chans s \<or> ledger_step (chans s) (chans t)"
    if "own_inv s" and "pool_step execute s t" for s t :: "'a system"
    using pool_step_ledger [OF that] ..
qed

lemma pool_steps_ledger:
  "own_inv s \<Longrightarrow> (pool_step execute)\<^sup>*\<^sup>* s t \<Longrightarrow> ledger_step\<^sup>*\<^sup>* (chans s) (chans t)"
  using ledger_view.view_steps by blast

lemmas reach_ledger = ledger_view.view_reach

section \<open>An example run\<close>

text \<open>Submit one task, let the worker run it.\<close>

definition demo_trace :: "bool action list" where
  "demo_trace = [Call_submit 0 1 True, Proceed 0, Work 0, Tick 3, Work 0, Tick 5, Work 0]"

definition demo_after :: "bool system" where
  "demo_after = pool.extend (demo_pool)
     \<lparr>chans = [\<lparr>ch_value = Some (succeeded 1 \<lparr>submitted = 0, dequeued = 3, finished = 5\<rparr>),
                ch_retrieved = True, ch_broken = False\<rparr>],
      clock = 5,
      workers = [WRecord \<lparr>env_id = 1, env_task = Some True, env_submitted = 0, env_promise = Some 0\<rparr>
                   \<lparr>smp_id = 1, smp_state = Succeeded,
                    smp_timings = \<lparr>submitted = 0, dequeued = 3, finished = 5\<rparr>\<rparr>],
      callers = [CIdle, CIdle], crashed = None\<rparr>"

lemma demo_trace_after: "acts demo_execute demo_trace (start_system demo_pool 2 0) = Some demo_after"
  by (simp add: demo_trace_def demo_after_def start_system_def pool.defs demo_pool_def idle_def
      enter_submit_def make_envelope_def get_future_def fresh_channel_def caller_step_def
      submit_step_def worker_step_def queue_defs run_def set_value_def pending_def fulfil_def
      demo_execute_def core_defs Let_def set_worker_def set_caller_def numeral_2_eq_2)

lemma demo_after_reach: "reach pool_init (pool_step demo_execute) demo_after"
  using demo_pool_init demo_trace_after by (rule acts_reach)

section \<open>Properties\<close>

text \<open>
  C1: The pool refines the ledger: whatever the interleaving of workers, submitting callers and
  callers of either shutdown, every step leaves the table of futures alone, appends one waiting
  future, or settles one waiting future with a well-formed terminal result; no \<open>noexcept\<close>
  function is ever left by a fault, and no promise is ever destroyed unfulfilled.
\<close>

theorem pool_refines_ledger:
  assumes "reach pool_init (pool_step execute) s"
  shows "crashed s = None \<and> reach (\<lambda>cs. cs = []) ledger_step (chans s)
     \<and> (\<forall>s'. pool_step execute s s' \<longrightarrow> ledger_step (chans s) (chans s'))
     \<and> (\<forall>c \<in> set (chans s). \<not> ch_broken c)"
  using own.inv_reach [OF assms] reach_ledger [OF assms] pool_step_ledger by (auto simp: own_inv_def)

theorem pool_refines_ledger_witness:
  "crashed demo_after = None \<and> reach (\<lambda>cs. cs = []) ledger_step (chans demo_after)"
  using pool_refines_ledger [OF demo_after_reach] by blast

text \<open>
  C15: A future is fulfilled at most once and never changes afterwards: once it holds a result,
  every later state of the pool holds the same result there, and that result is terminal.
\<close>

theorem future_settled_once:
  assumes "reach pool_init (pool_step execute) s" and "(pool_step execute)\<^sup>*\<^sup>* s t"
    and "p < length (chans s)" and "ch_value (chans s ! p) = Some r"
  shows "ch_value (chans t ! p) = Some r \<and> result_ok r \<and> is_terminal (res_state r)
     \<and> \<not> ch_broken (chans t ! p)"
proof -
  have "ledger_ok (chans s)" using ledger.inv_reach reach_ledger assms(1) by blast
  with assms(3,4) have "result_ok r" "\<not> ch_broken (chans s ! p)"
    by (fastforce simp: ledger_ok_def dest: nth_mem)+
  with ledger_steps_stable [OF pool_steps_ledger [OF own.inv_reach [OF assms(1)] assms(2)] assms(3,4)] assms(4)
  show ?thesis by (simp add: result_ok_def)
qed

theorem future_settled_once_witness:
  "\<exists>t. acts demo_execute [Work 0, Call_shutdown 1, Proceed 1, Work 0] demo_after = Some t
     \<and> ch_value (chans t ! 0) = Some (succeeded 1 \<lparr>submitted = 0, dequeued = 3, finished = 5\<rparr>)"
proof -
  obtain t where t: "acts demo_execute [Work 0, Call_shutdown 1, Proceed 1, Work 0] demo_after = Some t"
    by (simp add: demo_after_def pool.defs demo_pool_def idle_def caller_step_def shutdown_step_def
        worker_step_def destroy_def pending_def queue_defs set_worker_def set_caller_def)
  show ?thesis
    using future_settled_once [OF demo_after_reach acts_steps [OF t], of 0] t
    by (simp add: demo_after_def pool.defs)
qed

end
