(* ===== verification/Pool_Accounting.thy ===== *)
theory Pool_Accounting
  imports Pool_Ownership
begin

text \<open>
  The books of the pool. Every result that a future holds is accounted for exactly once: a task
  that ran is in exactly one worker's sample buffer (or about to be appended to it), a rejected
  task is in the atomic counter (or about to be added to it). The instants in every result are in
  order. Together with the ownership invariant this makes the numbers that \<open>collect_samples\<close>
  and \<open>rejected_count\<close> report complete and free of double counting.
\<close>

section \<open>The results in the channels\<close>

definition results :: "channels \<Rightarrow> task_result multiset" where
  "results cs = mset (List.map_filter ch_value cs)"

lemma pending_Cons: "pending (c # cs) (Suc p) = pending cs p"
  by (simp add: pending_def)

lemma results_fulfil: "pending cs p \<Longrightarrow> results (fulfil p r cs) = add_mset r (results cs)"
proof (induction cs arbitrary: p)
  case Nil
  then show ?case by (simp add: pending_def)
next
  case (Cons c cs)
  show ?case
  proof (cases p)
    case 0
    with Cons.prems show ?thesis
      by (simp add: results_def pending_def fulfil_def List.map_filter_simps)
  next
    case (Suc q)
    with Cons.prems have "pending cs q" by (simp add: pending_Cons)
    from Cons.IH [OF this] show ?thesis
      by (auto simp: Suc results_def fulfil_def List.map_filter_simps split: option.split)
  qed
qed

lemma results_open [simp]: "results (cs @ [fresh_channel\<lparr>ch_retrieved := True\<rparr>]) = results cs"
  by (simp add: results_def List.map_filter_def fresh_channel_def)

lemma results_value: "p < length cs \<Longrightarrow> ch_value (cs ! p) = Some r \<Longrightarrow> r \<in># results cs"
  by (auto simp: results_def List.map_filter_def in_set_conv_nth intro!: image_eqI [of _ _ "cs ! p"])

lemma size_results: "(\<And>p. \<not> pending cs p) \<Longrightarrow> (\<forall>c \<in> set cs. \<not> ch_broken c) \<Longrightarrow> size (results cs) = length cs"
proof -
  assume a: "\<And>p. \<not> pending cs p" and b: "\<forall>c \<in> set cs. \<not> ch_broken c"
  have "ch_value c \<noteq> None" if "c \<in> set cs" for c
    using that a b by (metis in_set_conv_nth pending_def)
  then have "filter (\<lambda>c. ch_value c \<noteq> None) cs = cs" by simp
  then show ?thesis by (simp add: results_def List.map_filter_def)
qed

section \<open>The accounting invariant\<close>

fun wsample :: "'t worker \<Rightarrow> sample multiset" where
  "wsample (WRecord e smp) = {#smp#}"
| "wsample _ = {#}"

fun uncounted :: "'t caller \<Rightarrow> nat" where
  "uncounted (CCount e) = 1"
| "uncounted (CDiscard f rs es) = length rs"
| "uncounted _ = 0"

definition executed :: "channels \<Rightarrow> task_result multiset" where
  "executed cs = {#r \<in># results cs. res_state r \<noteq> Rejected#}"

definition refusals :: "channels \<Rightarrow> task_result multiset" where
  "refusals cs = {#r \<in># results cs. res_state r = Rejected#}"

definition account_inv :: "'t system \<Rightarrow> bool" where
  "account_inv s \<longleftrightarrow>
     length (workers s) \<le> length (p_samples s)
     \<and> mset (concat (p_samples s)) + sum_list (map wsample (workers s))
         = image_mset sample_of (executed (chans s))
     \<and> p_rejected s + of_nat (sum_list (map uncounted (callers s))) = of_nat (size (refusals (chans s)))"

lemma executed_fulfil:
  "pending cs p \<Longrightarrow> executed (fulfil p r cs)
     = (if res_state r = Rejected then executed cs else add_mset r (executed cs))"
  by (simp add: executed_def results_fulfil)

lemma refusals_fulfil:
  "pending cs p \<Longrightarrow> refusals (fulfil p r cs)
     = (if res_state r = Rejected then add_mset r (refusals cs) else refusals cs)"
  by (simp add: refusals_def results_fulfil)

lemma run_result_not_rejected [simp]: "res_state (run_result execute deq now e) \<noteq> Rejected"
  by (simp add: run_result_state)

lemma rejected_state [simp]: "res_state (rejected i a b) = Rejected"
  by (simp add: rejected_def)

lemma results_split: "size (executed cs) + size (refusals cs) = size (results cs)"
  using multiset_partition [of "results cs" "\<lambda>r. res_state r = Rejected"]
  by (metis add.commute executed_def refusals_def size_union)

text \<open>One thread moves and the three totals change by what it did.\<close>

lemma account_worker:
  assumes "account_inv s" and "i < length (workers s)"
    and "workers s' = (workers s)[i := w]" and "callers s' = callers s" and "p_rejected s' = p_rejected s"
    and "length (p_samples s') = length (p_samples s)"
    and "refusals (chans s') = refusals (chans s)"
    and "mset (concat (p_samples s')) + wsample w + image_mset sample_of (executed (chans s))
       = mset (concat (p_samples s)) + wsample (workers s ! i) + image_mset sample_of (executed (chans s'))"
  shows "account_inv s'"
proof -
  have "sum_list (map wsample (workers s')) + wsample (workers s ! i)
      = sum_list (map wsample (workers s)) + wsample w"
    using sum_mset_map_update [OF assms(2), of wsample w] assms(3) by simp
  then have "mset (concat (p_samples s')) + sum_list (map wsample (workers s'))
      = image_mset sample_of (executed (chans s'))"
    by (rule balance_kept) (use assms(1,8) in \<open>auto simp: account_inv_def\<close>)
  then show ?thesis using assms by (simp add: account_inv_def)
qed

lemma account_caller:
  assumes "account_inv s" and "j < length (callers s)"
    and "callers s' = (callers s)[j := c]" and "workers s' = workers s" and "p_samples s' = p_samples s"
    and "executed (chans s') = executed (chans s)"
    and "p_rejected s' + of_nat (uncounted c) + of_nat (size (refusals (chans s)))
       = p_rejected s + of_nat (uncounted (callers s ! j)) + of_nat (size (refusals (chans s')))"
  shows "account_inv s'"
proof -
  have "sum_list (map uncounted (callers s')) + uncounted (callers s ! j)
      = sum_list (map uncounted (callers s)) + uncounted c"
    using sum_list_map_update [OF assms(2), of uncounted c] assms(3) by simp
  then have "of_nat (sum_list (map uncounted (callers s'))) + of_nat (uncounted (callers s ! j))
      = of_nat (sum_list (map uncounted (callers s))) + (of_nat (uncounted c) :: u64)"
    by (metis of_nat_add)
  then have "p_rejected s' + of_nat (sum_list (map uncounted (callers s')))
      = of_nat (size (refusals (chans s')))"
    by (rule balance_kept) (use assms(1,7) in \<open>auto simp: account_inv_def\<close>)
  then show ?thesis using assms by (simp add: account_inv_def)
qed

lemma account_worker_step:
  assumes own: "own_inv s" and acc: "account_inv s"
    and i: "i < length (workers s)" and st: "worker_step execute i s = Some s'"
  shows "account_inv s'"
  using own i st
proof (cases rule: worker_step_cases)
  case (exits q)
  with i show ?thesis by (intro account_worker [OF acc i, where w = WExit]) auto
next
  case (takes e q)
  with i show ?thesis by (intro account_worker [OF acc i, where w = "WStart e"]) auto
next
  case (stamps e)
  with i show ?thesis by (intro account_worker [OF acc i, where w = "WRun e (clock s)"]) auto
next
  case (runs e deq p)
  let ?r = "run_result execute deq (clock s) e"
  from runs i show ?thesis
    by (intro account_worker [OF acc i, where w = "WRecord e (sample_of ?r)"])
       (auto simp: executed_fulfil refusals_fulfil)
next
  case (records e smp)
  have "i < length (p_samples s)" using acc i by (simp add: account_inv_def)
  from concat_update_append [OF this, of smp] records i show ?thesis
    by (intro account_worker [OF acc i, where w = WPop]) auto
qed

lemma account_caller_step:
  assumes own: "own_inv s" and acc: "account_inv s"
    and j: "j < length (callers s)" and st: "caller_step j s = Some s'"
  shows "account_inv s'"
proof -
  note keep = account_caller [OF acc j]
  show ?thesis using own j st
  proof (cases rule: caller_step_cases)
    case (rejects e p)
    then show ?thesis
      by (intro keep [where c = "CCount e"]) (auto simp: executed_fulfil refusals_fulfil)
  next
    case (discards f rs e es p)
    then show ?thesis
      by (intro keep [where c = "CDiscard f (rs @ [e]) es"]) (auto simp: executed_fulfil refusals_fulfil)
  qed (auto intro!: keep)
qed

section \<open>Instants in order\<close>

definition timings_ok :: "time_point \<Rightarrow> task_timings \<Rightarrow> bool" where
  "timings_ok now t \<longleftrightarrow> submitted t \<le> dequeued t \<and> dequeued t \<le> finished t \<and> finished t \<le> now"

fun wtimes :: "time_point \<Rightarrow> 't worker \<Rightarrow> bool" where
  "wtimes now (WRun e deq) \<longleftrightarrow> env_submitted e \<le> deq \<and> deq \<le> now"
| "wtimes now _ \<longleftrightarrow> True"

fun ctimes :: "time_point \<Rightarrow> 't caller \<Rightarrow> bool" where
  "ctimes now (CDiscard f rs es) \<longleftrightarrow> f \<le> now \<and> (\<forall>e \<in> set es. env_submitted e \<le> f)"
| "ctimes now _ \<longleftrightarrow> True"

definition time_inv :: "'t system \<Rightarrow> bool" where
  "time_inv s \<longleftrightarrow>
     (\<forall>e \<in># opened s. env_submitted e \<le> clock s)
     \<and> (\<forall>w \<in> set (workers s). wtimes (clock s) w)
     \<and> (\<forall>c \<in> set (callers s). ctimes (clock s) c)
     \<and> (\<forall>r \<in># results (chans s). timings_ok (clock s) (res_timings r))"

lemma wtimes_mono: "wtimes a w \<Longrightarrow> a \<le> b \<Longrightarrow> wtimes b w"
  by (cases w) auto

lemma ctimes_mono: "ctimes a c \<Longrightarrow> a \<le> b \<Longrightarrow> ctimes b c"
  by (cases c) auto

lemma opened_step:
  assumes "own_inv s" and "pool_step execute s s'" and "e \<in># opened s'"
  shows "e \<in># opened s \<or> env_submitted e = clock s"
  using pool_step_kind [OF assms(1,2)] assms(3) by (auto simp: moves_def settles_def opens_def)

text \<open>What no step of a thread changes.\<close>

lemma pool_run_frame:
  assumes "own_inv s" and "pool_run execute s s'"
  shows "clock s' = clock s" and "length (callers s') = length (callers s)"
    and "length (p_joinable s') = length (p_joinable s)" and "crashed s' = None"
proof -
  have "clock s' = clock s \<and> length (callers s') = length (callers s)
      \<and> length (p_joinable s') = length (p_joinable s) \<and> crashed s' = None"
    using assms(2)
  proof (cases rule: pool_runE)
    case (run_worker i)
    with assms(1) show ?thesis by (auto elim!: worker_step_cases)
  next
    case (run_caller j)
    with assms(1) show ?thesis by (auto elim!: caller_step_cases)
  qed
  then show "clock s' = clock s" "length (callers s') = length (callers s)"
      "length (p_joinable s') = length (p_joinable s)" "crashed s' = None" by simp_all
qed

lemma time_opened:
  assumes "own_inv s" and "time_inv s" and "pool_run execute s s'"
  shows "\<forall>e \<in># opened s'. env_submitted e \<le> clock s'"
  using opened_step [OF assms(1) step_run [OF assms(3)]] pool_run_frame(1) [OF assms(1,3)] assms(2)
  by (fastforce simp: time_inv_def)

lemma time_worker:
  assumes "time_inv s" and "\<forall>e \<in># opened s'. env_submitted e \<le> clock s'"
    and "clock s' = clock s" and "workers s' = (workers s)[i := w]" and "callers s' = callers s"
    and "wtimes (clock s) w" and "\<forall>r \<in># results (chans s'). timings_ok (clock s) (res_timings r)"
  shows "time_inv s'"
  using assms by (auto simp: time_inv_def dest!: set_update_subset_insert [THEN subsetD])

lemma time_caller:
  assumes "time_inv s" and "\<forall>e \<in># opened s'. env_submitted e \<le> clock s'"
    and "clock s' = clock s" and "callers s' = (callers s)[j := callers s' ! j]"
    and "workers s' = workers s" and "ctimes (clock s) (callers s' ! j)"
    and "\<forall>r \<in># results (chans s'). timings_ok (clock s) (res_timings r)"
  shows "time_inv s'"
proof -
  have "set (callers s') \<subseteq> insert (callers s' ! j) (set (callers s))"
    using assms(4) set_update_subset_insert [of "callers s" j "callers s' ! j"] by simp
  with assms show ?thesis by (auto simp: time_inv_def)
qed

lemma run_result_timings [simp]:
  "res_timings (run_result execute deq now e)
     = \<lparr>submitted = env_submitted e, dequeued = deq, finished = now\<rparr>"
  unfolding run_result_def by (cases "execute (the (env_task e))") (simp_all add: core_defs)

lemma time_worker_step:
  assumes own: "own_inv s" and tim: "time_inv s" and ok: "crashed s = None"
    and i: "i < length (workers s)" and st: "worker_step execute i s = Some s'"
  shows "time_inv s'"
proof -
  note keep = time_worker [OF tim time_opened [OF own tim run_worker [OF ok i st]]]
  have res: "\<forall>r \<in># results (chans s). timings_ok (clock s) (res_timings r)"
    using tim by (simp add: time_inv_def)
  have mine: "wtimes (clock s) (workers s ! i)" using tim i by (simp add: time_inv_def)
  show ?thesis using own i st
  proof (cases rule: worker_step_cases)
    case (exits q)
    with res show ?thesis by (intro keep [where i = i and w = WExit]) auto
  next
    case (takes e q)
    with res show ?thesis by (intro keep [where i = i and w = "WStart e"]) auto
  next
    case (stamps e)
    with i have "e \<in># opened s" by (auto intro: opened_worker)
    with tim have "env_submitted e \<le> clock s" by (simp add: time_inv_def)
    with stamps res show ?thesis by (intro keep [where i = i and w = "WRun e (clock s)"]) auto
  next
    case (runs e deq p)
    let ?r = "run_result execute deq (clock s) e"
    from runs mine res show ?thesis
      by (intro keep [where i = i and w = "WRecord e (sample_of ?r)"])
         (auto simp: results_fulfil timings_ok_def)
  next
    case (records e smp)
    with res show ?thesis by (intro keep [where i = i and w = WPop]) auto
  qed
qed

lemma time_caller_step:
  assumes own: "own_inv s" and tim: "time_inv s" and ok: "crashed s = None"
    and j: "j < length (callers s)" and st: "caller_step j s = Some s'"
  shows "time_inv s'"
proof -
  note keep = time_caller [OF tim time_opened [OF own tim run_caller [OF ok j st]], of j]
  have res: "\<forall>r \<in># results (chans s). timings_ok (clock s) (res_timings r)"
    using tim by (simp add: time_inv_def)
  have mine: "ctimes (clock s) (callers s ! j)" using tim j by (simp add: time_inv_def)
  have submitted_before: "e \<in># copen (callers s ! j) \<Longrightarrow> env_submitted e \<le> clock s" for e
    using opened_caller [OF j] tim by (simp add: time_inv_def)
  show ?thesis using own j st
  proof (cases rule: caller_step_cases)
    case (rejects e p)
    with res submitted_before j show ?thesis
      by (intro keep) (auto simp: results_fulfil timings_ok_def rejected_def)
  next
    case (discards f rs e es p)
    with res mine j show ?thesis
      by (intro keep) (auto simp: results_fulfil timings_ok_def rejected_def)
  next
    case (stamps ds)
    with res submitted_before j show ?thesis by (intro keep) auto
  qed (rule keep; use res j in simp)+
qed

section \<open>The books are kept\<close>

definition book_inv :: "'t system \<Rightarrow> bool" where
  "book_inv s \<longleftrightarrow> own_inv s \<and> account_inv s \<and> time_inv s"

lemma book_inv_init:
  assumes "fresh_system s"
  shows "book_inv s"
proof -
  have empty: "sum_list (replicate k {#}) = ({#} :: 'x multiset)" for k by (induction k) auto
  have zero: "sum_list (replicate k 0) = (0 :: nat)" for k by (induction k) auto
  have "account_inv s" "time_inv s"
    using assms fresh_queue [OF assms]
    by (auto simp: account_inv_def time_inv_def fresh_system_def empty zero
        executed_def refusals_def results_def opened_def List.map_filter_def)
  with own_inv_init [OF assms] show ?thesis by (simp add: book_inv_def)
qed

lemma book_inv_call:
  assumes "book_inv s" and "j < length (callers s)" and "callers s ! j = CIdle"
    and "uncounted c = 0" and "ctimes (clock s) c" and "\<forall>e \<in># copen c. env_submitted e \<le> clock s"
    and "results cs = results (chans s)"
  shows "account_inv (set_caller j c (s\<lparr>chans := cs\<rparr>))" and "time_inv (set_caller j c (s\<lparr>chans := cs\<rparr>))"
proof -
  let ?s = "set_caller j c (s\<lparr>chans := cs\<rparr>)"
  show "account_inv ?s"
    using assms by (intro account_caller [of s j ?s c]) (auto simp: book_inv_def executed_def refusals_def)
  have "opened ?s = opened s + copen c"
    using opened_set_caller [of j "s\<lparr>chans := cs\<rparr>" c] assms(2,3) by simp
  with assms show "time_inv ?s"
    by (intro time_caller [of s ?s j]) (auto simp: book_inv_def time_inv_def)
qed

lemma book_inv_step:
  assumes "book_inv s" and "pool_step execute s s'"
  shows "book_inv s'"
proof -
  have own: "own_inv s'" using own.inv_step assms by (auto simp: book_inv_def)
  have "account_inv s' \<and> time_inv s'" using assms(2)
  proof cases
    case step_run
    then show ?thesis using assms(1)
      by cases (auto simp: book_inv_def intro: account_worker_step account_caller_step
          time_worker_step time_caller_step)
  next
    case (step_submit j i task)
    then show ?thesis using assms(1)
      by (auto simp: enter_submit_eq intro!: book_inv_call)
  next
    case (step_shutdown j)
    then show ?thesis using book_inv_call [OF assms(1), of j CClose "chans s"] by simp
  next
    case (step_shutdown_now j)
    then show ?thesis using book_inv_call [OF assms(1), of j CDrain "chans s"] by simp
  next
    case (step_tick now)
    then have "time_inv s'" using assms(1)
      by (fastforce simp: book_inv_def time_inv_def timings_ok_def intro: wtimes_mono ctimes_mono)
    with step_tick assms(1) show ?thesis by (simp add: book_inv_def account_inv_def)
  qed
  with own show ?thesis by (simp add: book_inv_def)
qed

interpretation book: invariant_system pool_init "pool_step execute" book_inv for execute
  by unfold_locales (auto intro: book_inv_init pool_init_fresh book_inv_step)

end
