(* ===== verification/Pool_Shutdown.thy ===== *)
theory Pool_Shutdown
  imports Pool_Accounting
begin

text \<open>
  Shutting the pool down. The invariant ties the worker threads, the shutdown mutex and the
  \<open>joined_\<close> flag together: a worker exits only from a closed, empty queue, and \<open>joined_\<close>
  is set only when every worker has exited. On top of it stand the liveness results: every call of
  \<open>submit\<close>, \<open>shutdown\<close> and \<open>shutdown_now\<close> returns, no interleaving deadlocks, and after a
  shutdown every future holds its result and the books are complete.
\<close>

section \<open>The shutdown invariant\<close>

text \<open>The callers that have closed the queue already, and the ones that hold the shutdown mutex.\<close>

fun closing :: "'t caller \<Rightarrow> bool" where
  "closing (CStamp ds) = True"
| "closing (CDiscard f rs es) = True"
| "closing (CJoin ds) = True"
| "closing (CJoining ds i) = True"
| "closing (CLeave ds) = True"
| "closing _ = False"

fun joining :: "'t caller \<Rightarrow> bool" where
  "joining (CJoining ds i) = True"
| "joining _ = False"

text \<open>The callers that have closed the queue and have not got past \<open>join_workers\<close> yet.\<close>

fun pre_join :: "'t caller \<Rightarrow> bool" where
  "pre_join (CLeave ds) = False"
| "pre_join c = closing c"

text \<open>How many workers a joining caller has joined so far.\<close>

fun joined_upto :: "'t caller \<Rightarrow> nat" where
  "joined_upto (CJoining ds i) = i"
| "joined_upto _ = 0"

definition exited :: "'t system \<Rightarrow> nat \<Rightarrow> bool" where
  "exited s k \<longleftrightarrow> k < length (workers s) \<and> workers s ! k = WExit"

definition shut_inv :: "'t system \<Rightarrow> bool" where
  "shut_inv s \<longleftrightarrow>
     queue_ok (p_queue s) \<and> 0 < length (workers s) \<and> length (p_joinable s) = length (workers s)
     \<and> (\<forall>k. exited s k \<longrightarrow> q_closed (p_queue s) \<and> q_items (p_queue s) = [])
     \<and> (\<forall>c \<in> set (callers s). closing c \<longrightarrow> q_closed (p_queue s))
     \<and> (p_joined s \<longrightarrow> (\<forall>k < length (workers s). exited s k))
     \<and> (\<forall>k < length (workers s). \<not> p_joinable s ! k \<longrightarrow> exited s k)
     \<and> (\<forall>j. p_mutex s = Some j \<longleftrightarrow> j < length (callers s) \<and> joining (callers s ! j))
     \<and> (\<forall>c \<in> set (callers s). \<forall>k < joined_upto c. k < length (workers s) \<longrightarrow> exited s k)"

text \<open>What any operation on the queue keeps.\<close>

definition queue_later :: "'a blocking_queue \<Rightarrow> 'a blocking_queue \<Rightarrow> bool" where
  "queue_later q q' \<longleftrightarrow> (queue_ok q \<longrightarrow> queue_ok q') \<and> (q_closed q \<longrightarrow> q_closed q')
     \<and> (q_closed q \<and> q_items q = [] \<longrightarrow> q_items q' = [])"

lemma queue_later_refl [simp]: "queue_later q q"
  by (simp add: queue_later_def)

lemma queue_later_ops:
  assumes "queue_ok q"
  shows "push v q = Some (b, q') \<Longrightarrow> queue_later q q'"
    and "pop q = Some (x, q') \<Longrightarrow> queue_later q q'"
    and "queue_later q (close q)"
    and "close_and_drain q = (ds, q') \<Longrightarrow> queue_later q q'"
proof -
  show "push v q = Some (b, q') \<Longrightarrow> queue_later q q'"
    using bq.push_True [OF assms] bq.push_False [OF assms]
    by (cases b) (fastforce simp: queue_later_def)+
  show "pop q = Some (x, q') \<Longrightarrow> queue_later q q'"
    using bq.pop_Some [OF assms] bq.pop_None [OF assms]
    by (cases x) (fastforce simp: queue_later_def)+
  show "queue_later q (close q)" using bq.close_law [OF assms] by (simp add: queue_later_def)
  show "close_and_drain q = (ds, q') \<Longrightarrow> queue_later q q'"
    using bq.drain_law [OF assms] by (simp add: queue_later_def)
qed

lemma shut_worker:
  assumes inv: "shut_inv s" and i: "i < length (workers s)" and "workers s ! i \<noteq> WExit"
    and w: "workers s' = (workers s)[i := w]" and same: "callers s' = callers s" "p_joinable s' = p_joinable s"
      "p_mutex s' = p_mutex s" "p_joined s' = p_joined s"
    and q: "queue_later (p_queue s) (p_queue s')"
    and exits: "w = WExit \<longrightarrow> q_closed (p_queue s') \<and> q_items (p_queue s') = []"
  shows "shut_inv s'"
proof -
  have still: "exited s' k" if "exited s k" for k
    using that assms(3) by (cases "i = k") (auto simp: exited_def w)
  have only: "q_closed (p_queue s') \<and> q_items (p_queue s') = []" if "exited s' k" for k
  proof (cases "k = i")
    case True
    with that i exits show ?thesis by (simp add: exited_def w)
  next
    case False
    with that have "exited s k" by (simp add: exited_def w)
    with inv q show ?thesis by (auto simp: shut_inv_def queue_later_def)
  qed
  show ?thesis
    using inv q still only unfolding shut_inv_def same w queue_later_def length_list_update by blast
qed

lemma shut_caller:
  assumes inv: "shut_inv s" and j: "j < length (callers s)"
    and c: "callers s' = (callers s)[j := c]" and same: "workers s' = workers s"
    and q: "queue_later (p_queue s) (p_queue s')"
    and len: "length (p_joinable s') = length (p_joinable s)"
    and joinable: "\<And>k. k < length (workers s) \<Longrightarrow> \<not> p_joinable s' ! k \<Longrightarrow> p_joinable s ! k \<Longrightarrow> exited s k"
    and joined: "p_joined s' \<Longrightarrow> \<not> p_joined s \<Longrightarrow> (\<forall>k < length (workers s). exited s k)"
    and closed: "closing c \<Longrightarrow> q_closed (p_queue s')"
    and mutex: "p_mutex s' = (if joining c then Some j
                              else if joining (callers s ! j) then None else p_mutex s)"
    and free: "joining c \<Longrightarrow> \<not> joining (callers s ! j) \<Longrightarrow> p_mutex s = None"
    and upto: "\<And>k. k < joined_upto c \<Longrightarrow> k < length (workers s) \<Longrightarrow> exited s k"
  shows "shut_inv s'"
proof -
  have ex: "exited s' = exited s" by (simp add: exited_def fun_eq_iff same)
  have holder: "p_mutex s = Some k \<longleftrightarrow> k < length (callers s) \<and> joining (callers s ! k)" for k
    using inv by (simp add: shut_inv_def)
  have "p_mutex s' = Some k \<longleftrightarrow> k < length (callers s') \<and> joining (callers s' ! k)" for k
  proof (cases "k = j")
    case True
    with j c mutex holder [of j] show ?thesis by auto
  next
    case False
    have "\<not> (k < length (callers s) \<and> joining (callers s ! k))" if "joining c \<or> joining (callers s ! j)"
      using that free False holder [of k] holder [of j] j by (metis option.distinct(1) option.inject)
    with False c mutex holder [of k] show ?thesis by auto
  qed
  moreover have "closing x \<longrightarrow> q_closed (p_queue s')" if "x \<in> set (callers s')" for x
    using that inv closed q set_update_subset_insert [of "callers s" j c]
    by (auto simp: c shut_inv_def queue_later_def)
  moreover have "\<forall>k < joined_upto x. k < length (workers s) \<longrightarrow> exited s k" if "x \<in> set (callers s')" for x
  proof -
    from that have "x = c \<or> x \<in> set (callers s)"
      using set_update_subset_insert [of "callers s" j c] by (auto simp: c)
    with inv upto show ?thesis unfolding shut_inv_def by blast
  qed
  moreover have "\<forall>k < length (workers s). \<not> p_joinable s' ! k \<longrightarrow> exited s k"
    using inv joinable unfolding shut_inv_def by blast
  moreover have "p_joined s' \<longrightarrow> (\<forall>k < length (workers s). exited s k)"
    using inv joined unfolding shut_inv_def by blast
  ultimately show ?thesis
    using inv q len unfolding shut_inv_def ex same queue_later_def by simp
qed

lemma shut_worker_step:
  assumes own: "own_inv s" and inv: "shut_inv s"
    and i: "i < length (workers s)" and st: "worker_step execute i s = Some s'"
  shows "shut_inv s'"
proof -
  have q: "queue_ok (p_queue s)" using inv by (simp add: shut_inv_def)
  show ?thesis using own i st
  proof (cases rule: worker_step_cases)
    case (exits r)
    with bq.pop_None [OF q] show ?thesis
      by (intro shut_worker [OF inv i, where w = WExit]) (auto intro: queue_later_ops(2) [OF q])
  next
    case (takes e r)
    then show ?thesis
      by (intro shut_worker [OF inv i, where w = "WStart e"]) (auto intro: queue_later_ops(2) [OF q])
  next
    case (stamps e)
    then show ?thesis by (intro shut_worker [OF inv i, where w = "WRun e (clock s)"]) auto
  next
    case (runs e deq p)
    let ?r = "run_result execute deq (clock s) e"
    from runs show ?thesis
      by (intro shut_worker [OF inv i, where w = "WRecord e (sample_of ?r)"]) auto
  next
    case (records e smp)
    then show ?thesis by (intro shut_worker [OF inv i, where w = WPop]) auto
  qed
qed

lemma shut_caller_step:
  assumes own: "own_inv s" and inv: "shut_inv s"
    and j: "j < length (callers s)" and st: "caller_step j s = Some s'"
  shows "shut_inv s'"
proof -
  have q: "queue_ok (p_queue s)" using inv by (simp add: shut_inv_def)
  have shut: "closing (callers s ! j) \<Longrightarrow> q_closed (p_queue s)"
    using inv nth_mem [OF j] unfolding shut_inv_def by blast
  have upto: "k < joined_upto (callers s ! j) \<Longrightarrow> k < length (workers s) \<Longrightarrow> exited s k" for k
    using inv nth_mem [OF j] unfolding shut_inv_def by blast
  have len: "length (p_joinable s) = length (workers s)" using inv by (simp add: shut_inv_def)
  have holds: "joining (callers s ! j) \<Longrightarrow> p_mutex s = Some j" using inv j by (simp add: shut_inv_def)
  note keep = shut_caller [OF inv j]
  show ?thesis using own j st
  proof (cases rule: caller_step_cases)
    case (accepted e r)
    then show ?thesis by (intro keep [where c = CIdle]) (auto intro: queue_later_ops(1) [OF q])
  next
    case (refused e r)
    then show ?thesis by (intro keep [where c = "CReject e"]) (auto intro: queue_later_ops(1) [OF q])
  next
    case closes
    with bq.close_law [OF q] show ?thesis
      by (intro keep [where c = "CJoin []"]) (auto intro: queue_later_ops(3) [OF q])
  next
    case (drains ds r)
    with bq.drain_law [OF q] show ?thesis
      by (intro keep [where c = "CStamp ds"]) (auto intro: queue_later_ops(4) [OF q])
  next
    case (joins ds i)
    with shut upto len holds show ?thesis
      by (intro keep [where c = "CJoining ds (Suc i)"])
         (auto simp: nth_list_update exited_def less_Suc_eq split: if_splits)
  next
    case (skips ds i)
    then have "exited s i" using inv len by (simp add: shut_inv_def)
    with skips shut upto holds show ?thesis
      by (intro keep [where c = "CJoining ds (Suc i)"]) (auto simp: less_Suc_eq)
  next
    case (finishes ds i)
    with shut upto len holds show ?thesis by (intro keep [where c = "CLeave ds"]) auto
  next
    case (locks ds)
    with shut show ?thesis by (intro keep [where c = "CJoining ds 0"]) auto
  qed (use shut in \<open>auto intro!: keep\<close>)
qed

lemma shut_inv_init: "fresh_system s \<Longrightarrow> shut_inv s"
  by (frule fresh_queue) (auto simp: fresh_system_def shut_inv_def exited_def)

definition pool_inv :: "'t system \<Rightarrow> bool" where
  "pool_inv s \<longleftrightarrow> book_inv s \<and> shut_inv s"

lemma pool_inv_step:
  assumes "pool_inv s" and "pool_step execute s s'"
  shows "pool_inv s'"
proof -
  have book: "book_inv s'" using book_inv_step assms by (auto simp: pool_inv_def)
  have own: "own_inv s" and inv: "shut_inv s" using assms(1) by (simp_all add: pool_inv_def book_inv_def)
  have "shut_inv s'" using assms(2)
  proof cases
    case step_run
    then show ?thesis
      by cases (auto intro: shut_worker_step [OF own inv] shut_caller_step [OF own inv])
  next
    case (step_submit j i task)
    then show ?thesis by (auto simp: enter_submit_eq intro!: shut_caller [OF inv])
  next
    case (step_shutdown j)
    then show ?thesis by (auto intro!: shut_caller [OF inv])
  next
    case (step_shutdown_now j)
    then show ?thesis by (auto intro!: shut_caller [OF inv])
  next
    case (step_tick now)
    with inv show ?thesis by (simp add: shut_inv_def exited_def)
  qed
  with book show ?thesis by (simp add: pool_inv_def)
qed

section \<open>Every call returns\<close>

text \<open>
  The work that is left: a queued task needs a worker's three steps, a caller the steps of its
  function; joining takes one step per worker.
\<close>

fun wweight :: "'t worker \<Rightarrow> nat" where
  "wweight WExit = 0"
| "wweight WPop = 1"
| "wweight (WRecord e smp) = 2"
| "wweight (WRun e d) = 3"
| "wweight (WStart e) = 4"

fun cweight :: "nat \<Rightarrow> 't caller \<Rightarrow> nat" where
  "cweight n CIdle = 0"
| "cweight n (CCount e) = 1"
| "cweight n (CReject e) = 2"
| "cweight n (CPush e) = 5"
| "cweight n (CLeave ds) = 1"
| "cweight n (CJoining ds i) = 2 + (n - i)"
| "cweight n (CJoin ds) = 3 + n"
| "cweight n CClose = 4 + n"
| "cweight n (CDiscard f rs es) = 4 + n + length es"
| "cweight n (CStamp ds) = 5 + n + length ds"
| "cweight n CDrain = 6 + n"

definition pool_weight :: "'t system \<Rightarrow> nat" where
  "pool_weight s = 4 * length (q_items (p_queue s)) + sum_list (map wweight (workers s))
     + sum_list (map (cweight (length (p_joinable s))) (callers s))"

lemma weight_worker:
  assumes "i < length (workers s)" and "workers s' = (workers s)[i := w]" and "callers s' = callers s"
    and "p_joinable s' = p_joinable s"
    and "4 * length (q_items (p_queue s')) + wweight w
         < 4 * length (q_items (p_queue s)) + wweight (workers s ! i)"
  shows "pool_weight s' < pool_weight s"
  using assms sum_list_map_update [OF assms(1), of wweight w] by (simp add: pool_weight_def)

lemma weight_caller:
  assumes "j < length (callers s)" and "callers s' = (callers s)[j := c]" and "workers s' = workers s"
    and "length (p_joinable s') = length (p_joinable s)"
    and "4 * length (q_items (p_queue s')) + cweight (length (p_joinable s)) c
         < 4 * length (q_items (p_queue s)) + cweight (length (p_joinable s)) (callers s ! j)"
  shows "pool_weight s' < pool_weight s"
  using assms sum_list_map_update [OF assms(1), of "cweight (length (p_joinable s))" c]
  by (simp add: pool_weight_def)

lemma pool_run_decreases:
  assumes inv: "pool_inv s" and st: "pool_run execute s s'"
  shows "pool_weight s' < pool_weight s"
proof -
  have own: "own_inv s" and q: "queue_ok (p_queue s)"
    using inv by (simp_all add: pool_inv_def book_inv_def shut_inv_def)
  show ?thesis using st
  proof cases
    case (run_worker i)
    note keep = weight_worker [OF run_worker(2)]
    from own run_worker(2,3) show ?thesis
    proof (cases rule: worker_step_cases)
      case (exits r)
      with bq.pop_None [OF q] show ?thesis by (intro keep [where w = WExit]) auto
    next
      case (takes e r)
      with bq.pop_Some [OF q] show ?thesis by (intro keep [where w = "WStart e"]) auto
    qed (auto intro!: keep)
  next
    case (run_caller j)
    note keep = weight_caller [OF run_caller(2)]
    from own run_caller(2,3) show ?thesis
    proof (cases rule: caller_step_cases)
      case (accepted e r)
      with bq.push_True [OF q] show ?thesis by (intro keep [where c = CIdle]) auto
    next
      case (refused e r)
      then have "r = p_queue s" using bq.push_False [OF q] by blast
      with refused show ?thesis by (intro keep [where c = "CReject e"]) auto
    next
      case closes
      with bq.close_law [OF q] show ?thesis by (intro keep [where c = "CJoin []"]) auto
    next
      case (drains ds r)
      with bq.drain_law [OF q] show ?thesis by (intro keep [where c = "CStamp ds"]) auto
    qed (auto intro!: keep)
  qed
qed

lemma worker_stuck:
  "worker_step execute i s = None \<Longrightarrow> workers s ! i = WExit \<or> workers s ! i = WPop \<and> pop (p_queue s) = None"
  by (auto simp: worker_step_def split: worker.splits option.splits prod.splits sum.splits)

lemma caller_stuck:
  assumes "caller_step j s = None"
  obtains "callers s ! j = CIdle"
  | e where "callers s ! j = CPush e" "push e (p_queue s) = None"
  | ds k where "callers s ! j = CJoin ds" "p_mutex s = Some k"
  | ds i where "callers s ! j = CJoining ds i" "i < length (p_joinable s)" "workers s ! i \<noteq> WExit"
proof (cases "callers s ! j")
  case (CDiscard f rs es)
  with assms show thesis
    by (cases es) (auto simp: caller_step_def shutdown_now_step_def split: sum.splits)
qed (use assms that in \<open>auto simp: caller_step_def submit_step_def shutdown_step_def
      shutdown_now_step_def join_step_def split: option.splits prod.splits bool.splits sum.splits if_splits\<close>)

text \<open>Nobody is inside the pool, and every worker has exited or waits at an open, empty queue.\<close>

definition quiescent :: "'t system \<Rightarrow> bool" where
  "quiescent s \<longleftrightarrow> (\<forall>c \<in> set (callers s). c = CIdle)
     \<and> (\<forall>w \<in> set (workers s). w = WExit
          \<or> w = WPop \<and> \<not> q_closed (p_queue s) \<and> q_items (p_queue s) = [])"

lemma all_nthI: "(\<And>i. i < length xs \<Longrightarrow> P (xs ! i)) \<Longrightarrow> \<forall>x \<in> set xs. P x"
  by (metis in_set_conv_nth)

lemma pool_progress:
  assumes inv: "pool_inv s" and notfinal: "\<not> quiescent s"
  shows "\<exists>t. pool_run execute s t"
proof (rule ccontr)
  assume stuck: "\<nexists>t. pool_run execute s t"
  have shut: "shut_inv s" and ok: "crashed s = None"
    using inv by (simp_all add: pool_inv_def book_inv_def own_inv_def)
  have q: "queue_ok (p_queue s)" using shut by (simp add: shut_inv_def)
  have W: "workers s ! i = WExit \<or> workers s ! i = WPop \<and> \<not> q_closed (p_queue s) \<and> q_items (p_queue s) = []"
    if "i < length (workers s)" for i
    using stuck that worker_stuck [of execute i s] run_worker [OF ok that] bq.pop_blocked [OF q]
    by (metis not_None_eq)
  have C: "caller_step j s = None" if "j < length (callers s)" for j
    using stuck run_caller [OF ok that] by (metis not_None_eq)
  have "callers s ! j = CIdle" if j: "j < length (callers s)" for j
  proof (cases "\<exists>i < length (workers s). workers s ! i = WPop")
    case True
    with W have "\<not> q_closed (p_queue s)" "q_items (p_queue s) = []" by fastforce+
    moreover have "closing (callers s ! j) \<longrightarrow> q_closed (p_queue s)"
      using shut nth_mem [OF j] unfolding shut_inv_def by blast
    moreover from calculation have "push e (p_queue s) = Some (push_locked e (p_queue s))" for e
      using q by (simp add: push_def can_push_def queue_ok_def)
    ultimately show ?thesis using C [OF j] by (auto elim!: caller_stuck)
  next
    case False
    with W have exit: "workers s ! i = WExit" if "i < length (workers s)" for i using that by blast
    have len: "length (p_joinable s) = length (workers s)" and pos: "0 < length (workers s)"
      using shut by (simp_all add: shut_inv_def)
    from exit [OF pos] pos have closed: "q_closed (p_queue s)"
      using shut unfolding shut_inv_def exited_def by blast
    have nojoin: "\<not> joining (callers s ! k)" if "k < length (callers s)" for k
      using C [OF that] exit len by (auto elim!: caller_stuck)
    then have "p_mutex s = None"
      using shut unfolding shut_inv_def by (metis not_None_eq)
    with C [OF j] exit len closed show ?thesis by (auto elim!: caller_stuck simp: push_def can_push_def)
  qed
  then have "\<forall>c \<in> set (callers s). c = CIdle" by (intro all_nthI)
  moreover have "\<forall>w \<in> set (workers s). w = WExit
      \<or> w = WPop \<and> \<not> q_closed (p_queue s) \<and> q_items (p_queue s) = []"
    by (intro all_nthI) (rule W)
  ultimately show False using notfinal by (simp add: quiescent_def)
qed

interpretation pool: terminating_system pool_init "pool_step execute" pool_inv
  "pool_run execute" pool_weight quiescent for execute
proof
  show "pool_inv s" if "pool_init s" for s :: "'a system"
    using pool_init_fresh [OF that] by (simp add: pool_inv_def book_inv_init shut_inv_init)
  show "pool_inv t" if "pool_inv s" and "pool_step execute s t" for s t :: "'a system"
    using that by (rule pool_inv_step)
  show "pool_step execute s t" if "pool_run execute s t" for s t :: "'a system"
    using that by (rule step_run)
  show "pool_weight t < pool_weight s" if "pool_inv s" and "pool_run execute s t" for s t :: "'a system"
    using that by (rule pool_run_decreases)
  show "\<exists>t. pool_run execute s t" if "pool_inv s" and "\<not> quiescent s" for s :: "'a system"
    using that by (rule pool_progress)
qed

section \<open>Closing leads to joining\<close>

text \<open>
  A closed queue means that the workers are joined or that some caller is on its way to join them;
  a caller that is about to leave a shutdown has seen them joined.
\<close>

fun leaving :: "'t caller \<Rightarrow> bool" where
  "leaving (CLeave ds) = True"
| "leaving _ = False"

definition join_inv :: "'t system \<Rightarrow> bool" where
  "join_inv s \<longleftrightarrow>
     (q_closed (p_queue s) \<longrightarrow> p_joined s \<or> (\<exists>j < length (callers s). pre_join (callers s ! j)))
     \<and> (\<forall>j < length (callers s). leaving (callers s ! j) \<longrightarrow> p_joined s)
     \<and> (p_joined s \<longrightarrow> p_mutex s = None)"

lemma join_caller:
  assumes "join_inv s" and "j < length (callers s)" and "callers s' = (callers s)[j := c]"
    and "p_joined s \<Longrightarrow> p_joined s'" and "leaving c \<Longrightarrow> p_joined s'"
    and "p_joined s' \<Longrightarrow> p_mutex s' \<noteq> None \<Longrightarrow> p_joined s \<and> p_mutex s' = p_mutex s"
    and "pre_join c \<or> p_joined s' \<or> q_closed (p_queue s') = q_closed (p_queue s) \<and> \<not> pre_join (callers s ! j)"
  shows "join_inv s'"
proof -
  have "p_joined s' \<or> (\<exists>k < length (callers s'). pre_join (callers s' ! k))" if "q_closed (p_queue s')"
  proof (cases "pre_join c \<or> p_joined s'")
    case True
    with assms(2,3) show ?thesis by (metis length_list_update nth_list_update_eq)
  next
    case False
    with assms(7) that have "q_closed (p_queue s)" "\<not> pre_join (callers s ! j)" by simp_all
    with assms(1,4) False obtain k where "k < length (callers s)" "pre_join (callers s ! k)" "k \<noteq> j"
      unfolding join_inv_def by metis
    with assms(3) show ?thesis by (metis length_list_update nth_list_update_neq)
  qed
  moreover have "leaving (callers s' ! k) \<longrightarrow> p_joined s'" if "k < length (callers s')" for k
    using that assms by (cases "k = j") (auto simp: join_inv_def)
  moreover have "p_joined s' \<longrightarrow> p_mutex s' = None"
    using assms(1,6) unfolding join_inv_def by metis
  ultimately show ?thesis unfolding join_inv_def by blast
qed

lemma join_worker_step:
  assumes "own_inv s" and "join_inv s" and "i < length (workers s)" and "worker_step execute i s = Some s'"
  shows "join_inv s'"
proof -
  have "callers s' = callers s \<and> p_joined s' = p_joined s \<and> p_mutex s' = p_mutex s
      \<and> q_closed (p_queue s') = q_closed (p_queue s)"
    using assms(1,3,4)
    by (cases rule: worker_step_cases) (auto simp: queue_defs split: list.splits if_splits)
  with assms(2) show ?thesis by (simp add: join_inv_def)
qed

lemma join_caller_step:
  assumes own: "own_inv s" and inv: "join_inv s" and j: "j < length (callers s)"
    and st: "caller_step j s = Some s'"
  shows "join_inv s'"
proof -
  have left: "leaving (callers s ! j) \<Longrightarrow> p_joined s" using inv j by (simp add: join_inv_def)
  show ?thesis using own j st
  proof (cases rule: caller_step_cases)
    case (accepted e q)
    then have "q_closed q = q_closed (p_queue s)" by (auto simp: queue_defs split: if_splits)
    with accepted show ?thesis by (intro join_caller [OF inv j, where c = CIdle]) auto
  next
    case (refused e q)
    then have "q = p_queue s" by (auto simp: queue_defs split: if_splits)
    with refused show ?thesis by (intro join_caller [OF inv j, where c = "CReject e"]) auto
  qed (use left in \<open>auto intro!: join_caller [OF inv j]\<close>)
qed

definition full_inv :: "'t system \<Rightarrow> bool" where
  "full_inv s \<longleftrightarrow> pool_inv s \<and> join_inv s"

lemma full_inv_step:
  assumes "full_inv s" and "pool_step execute s s'"
  shows "full_inv s'"
proof -
  have "own_inv s" and inv: "join_inv s" and pool: "pool_inv s'"
    using assms pool_inv_step by (auto simp: full_inv_def pool_inv_def book_inv_def)
  have "join_inv s'" using assms(2)
  proof cases
    case step_run
    then show ?thesis
      by cases (auto intro: join_worker_step [OF \<open>own_inv s\<close> inv] join_caller_step [OF \<open>own_inv s\<close> inv])
  next
    case (step_submit j i task)
    then show ?thesis by (auto simp: enter_submit_eq intro!: join_caller [OF inv])
  next
    case (step_shutdown j)
    then show ?thesis by (auto intro!: join_caller [OF inv])
  next
    case (step_shutdown_now j)
    then show ?thesis by (auto intro!: join_caller [OF inv])
  next
    case (step_tick now)
    with inv show ?thesis by (simp add: join_inv_def)
  qed
  with pool show ?thesis by (simp add: full_inv_def)
qed

lemma full_inv_init: "fresh_system s \<Longrightarrow> full_inv s"
  by (frule fresh_queue)
     (auto simp: full_inv_def pool_inv_def book_inv_init shut_inv_init join_inv_def fresh_system_def)

interpretation full: invariant_system pool_init "pool_step execute" full_inv for execute
proof
  show "full_inv s" if "pool_init s" for s :: "'a system"
    using pool_init_fresh [OF that] by (rule full_inv_init)
  show "full_inv t" if "full_inv s" and "pool_step execute s t" for s t :: "'a system"
    using that by (rule full_inv_step)
qed

end
