(* ===== verification/Pool_Correct.thy ===== *)
theory Pool_Correct
  imports Pool_Shutdown
begin

text \<open>
  The promises of \<open>ThreadPool\<close>, drawn from the ownership, accounting and shutdown invariants.
  The sections follow the class: what a finished shutdown means for the futures, that calls return,
  that the drain shutdown runs everything it accepted, and what the queries report.
\<close>

section \<open>Consequences of the invariants\<close>

lemma reach_full:
  assumes "reach pool_init (pool_step execute) s"
  shows "own_inv s" "account_inv s" "time_inv s" "shut_inv s" "join_inv s" "pool_inv s"
  using full.inv_reach [OF assms] by (simp_all add: full_inv_def pool_inv_def book_inv_def)

text \<open>A waiting future belongs to an envelope somebody holds.\<close>

lemma pending_opened:
  assumes "own_inv s" and "pending (chans s) p"
  obtains e where "e \<in># opened s" "env_promise e = Some p"
proof -
  from assms have "p \<in># image_mset (\<lambda>e. the (env_promise e)) (opened s)" by (simp add: own_inv_def)
  then obtain e where e: "e \<in># opened s" "p = the (env_promise e)" by auto
  with assms(1) have "env_promise e \<noteq> None" by (simp add: own_inv_def)
  with e that show thesis by auto
qed

lemma value_or_pending:
  assumes "own_inv s" and "p < length (chans s)"
  shows "ch_value (chans s ! p) \<noteq> None \<or> pending (chans s) p"
  using assms by (auto simp: own_inv_def pending_def)

lemma sum_mset_zero: "(\<And>x. x \<in> set xs \<Longrightarrow> f x = {#}) \<Longrightarrow> sum_list (map f xs) = ({#} :: 'x multiset)"
  by (induction xs) auto

lemma sum_mset_memD: "e \<in># sum_list (map f xs) \<Longrightarrow> \<exists>x \<in> set xs. e \<in># f x"
  by (induction xs) auto

lemma exited_all: "(\<forall>k < length (workers s). exited s k) \<longleftrightarrow> (\<forall>w \<in> set (workers s). w = WExit)"
  by (auto simp: exited_def all_set_conv_all_nth)

lemma joined_queue:
  assumes "shut_inv s" and "p_joined s"
  shows "\<forall>w \<in> set (workers s). w = WExit" and "q_closed (p_queue s)" and "q_items (p_queue s) = []"
proof -
  have ex: "\<forall>k < length (workers s). exited s k" and "0 < length (workers s)"
    using assms by (simp_all add: shut_inv_def)
  then have "exited s 0" by simp
  with assms(1) show "q_closed (p_queue s)" "q_items (p_queue s) = []"
    unfolding shut_inv_def by blast+
  show "\<forall>w \<in> set (workers s). w = WExit" using ex exited_all by blast
qed

lemma opened_joined:
  assumes "shut_inv s" and "p_joined s"
  shows "opened s = sum_list (map copen (callers s))"
proof -
  have "sum_list (map wopen (workers s)) = {#}"
    using joined_queue(1) [OF assms] by (intro sum_mset_zero) auto
  then show ?thesis using joined_queue(3) [OF assms] by (simp add: opened_def)
qed

lemma quiescent_joined:
  assumes "full_inv s" and "quiescent s" and "q_closed (p_queue s)"
  shows "p_joined s"
  using assms unfolding full_inv_def join_inv_def quiescent_def
  by (metis nth_mem pre_join.simps(2) closing.simps(6))

lemma quiescent_opened:
  assumes "full_inv s" and "quiescent s"
  shows "opened s = {#}"
proof -
  have "shut_inv s" using assms(1) by (simp add: full_inv_def pool_inv_def)
  then obtain w where w: "w \<in> set (workers s)" by (auto simp: shut_inv_def intro: that nth_mem)
  have "q_items (p_queue s) = []"
  proof (cases "w = WExit")
    case True
    with w have "\<exists>k. exited s k" by (auto simp: exited_def in_set_conv_nth)
    with \<open>shut_inv s\<close> show ?thesis unfolding shut_inv_def by blast
  next
    case False
    with w assms(2) show ?thesis by (auto simp: quiescent_def)
  qed
  moreover have "sum_list (map wopen (workers s)) = {#}" "sum_list (map copen (callers s)) = {#}"
    using assms(2) by (auto simp: quiescent_def intro!: sum_mset_zero)
  ultimately show ?thesis by (simp add: opened_def)
qed

lemma quiescent_no_pending:
  assumes "full_inv s" and "quiescent s"
  shows "\<not> pending (chans s) p"
proof
  assume "pending (chans s) p"
  with assms(1) obtain e where "e \<in># opened s"
    by (auto simp: full_inv_def pool_inv_def book_inv_def elim: pending_opened)
  with quiescent_opened [OF assms] show False by simp
qed

lemma quiescent_books:
  assumes "full_inv s" and "quiescent s"
  shows "mset (concat (p_samples s)) = image_mset sample_of (executed (chans s))"
    and "p_rejected s = of_nat (size (refusals (chans s)))"
    and "size (executed (chans s)) + size (refusals (chans s)) = length (chans s)"
proof -
  have own: "own_inv s" and acc: "account_inv s"
    using assms(1) by (simp_all add: full_inv_def pool_inv_def book_inv_def)
  have "sum_list (map wsample (workers s)) = {#}"
    using assms(2) by (auto simp: quiescent_def intro!: sum_mset_zero)
  with acc show "mset (concat (p_samples s)) = image_mset sample_of (executed (chans s))"
    by (simp add: account_inv_def)
  have zero: "sum_list (map uncounted (callers s)) = 0"
    using assms(2) by (auto simp: quiescent_def)
  have "p_rejected s + of_nat (sum_list (map uncounted (callers s))) = of_nat (size (refusals (chans s)))"
    using acc by (simp add: account_inv_def)
  then show "p_rejected s = of_nat (size (refusals (chans s)))" unfolding zero by simp
  show "size (executed (chans s)) + size (refusals (chans s)) = length (chans s)"
    using size_results quiescent_no_pending [OF assms] own results_split by (metis own_inv_def)
qed

lemma quiescent_fulfilled:
  assumes "reach pool_init (pool_step execute) s" and "quiescent s" and "is_shut_down s"
    and "p < length (chans s)"
  shows "workers_joined s
     \<and> (\<exists>r. ch_value (chans s ! p) = Some r \<and> result_ok r \<and> is_terminal (res_state r))"
proof -
  note inv = full.inv_reach [OF assms(1)]
  from assms(3) have "q_closed (p_queue s)" by (simp add: is_shut_down_def is_closed_def)
  from quiescent_joined [OF inv assms(2) this] have "workers_joined s" by (simp add: workers_joined_def)
  moreover obtain r where r: "ch_value (chans s ! p) = Some r"
    using value_or_pending [OF reach_full(1) [OF assms(1)] assms(4)] quiescent_no_pending [OF inv assms(2)]
    by blast
  moreover have "result_ok r"
    using ledger.inv_reach [OF reach_ledger [OF assms(1)]] r nth_mem [OF assms(4)]
    by (fastforce simp: ledger_ok_def)
  ultimately show ?thesis by (simp add: result_ok_def)
qed

lemma merge_buffers_concat: "merge_buffers bs merged = merged @ concat bs"
  by (induction bs arbitrary: merged) simp_all

section \<open>A run to the end\<close>

text \<open>
  Continue the example: the worker records its sample, a caller shuts the pool down, a late
  submission is rejected.
\<close>

definition demo_end_trace :: "bool action list" where
  "demo_end_trace = [Work 0, Call_shutdown 1, Proceed 1, Work 0, Proceed 1, Proceed 1, Proceed 1,
     Call_submit 0 2 False, Proceed 0, Tick 7, Proceed 0, Proceed 0]"

definition demo_sample :: sample where
  "demo_sample = \<lparr>smp_id = 1, smp_state = Succeeded,
     smp_timings = \<lparr>submitted = 0, dequeued = 3, finished = 5\<rparr>\<rparr>"

text \<open>All workers joined, the caller of \<open>shutdown\<close> in the given state.\<close>

definition demo_end :: "bool caller \<Rightarrow> bool system" where
  "demo_end c = pool.extend
     \<lparr>p_queue = \<lparr>q_items = [], q_closed = True, q_capacity = 1\<rparr>, p_samples = [[demo_sample]],
      p_rejected = 1, p_mutex = None, p_joined = True, p_joinable = [False]\<rparr>
     \<lparr>chans = [\<lparr>ch_value = Some (succeeded 1 \<lparr>submitted = 0, dequeued = 3, finished = 5\<rparr>),
                ch_retrieved = True, ch_broken = False\<rparr>,
               \<lparr>ch_value = Some (rejected 2 5 7), ch_retrieved = True, ch_broken = False\<rparr>],
      clock = 7, workers = [WExit], callers = [CIdle, c], crashed = None\<rparr>"

lemmas demo_run_simps =
  demo_after_def pool.defs demo_pool_def idle_def caller_step_def shutdown_step_def join_step_def
  submit_step_def enter_submit_def make_envelope_def get_future_def fresh_channel_def reject_def
  set_value_def fulfil_def worker_step_def destroy_def pending_def queue_defs set_worker_def
  set_caller_def

lemma demo_end_acts: "acts demo_execute demo_end_trace demo_after = Some (demo_end (CLeave []))"
  by (simp add: demo_end_trace_def demo_end_def demo_sample_def demo_run_simps)

lemma demo_end_leave: "act demo_execute (Proceed 1) (demo_end (CLeave [])) = Some (demo_end CIdle)"
  by (simp add: demo_end_def demo_run_simps)

lemma demo_end_reach:
  "reach pool_init (pool_step demo_execute) (demo_end (CLeave []))"
  "reach pool_init (pool_step demo_execute) (demo_end CIdle)"
proof -
  show "reach pool_init (pool_step demo_execute) (demo_end (CLeave []))"
    using acts_steps [OF demo_end_acts] demo_after_reach by (rule reach_steps)
  then show "reach pool_init (pool_step demo_execute) (demo_end CIdle)"
    by (rule reach_step) (use demo_end_leave pool_step_iff_act in blast)
qed

lemma demo_end_quiescent: "quiescent (demo_end CIdle)"
  by (simp add: demo_end_def pool.defs quiescent_def)

section \<open>Properties\<close>

text \<open>
  No deadlock and no endless wait: from every reachable state, once no new call arrives, the
  threads make only finitely many further steps (at most \<open>pool_weight\<close> many, whatever the
  schedule), and they can only come to rest when every caller has returned and every worker has
  exited or waits at an open, empty queue; such a state is always reached.
\<close>

theorem every_call_returns:
  assumes "reach pool_init (pool_step execute) s"
  shows "(\<forall>n t. (pool_run execute ^^ n) s t \<longrightarrow> n \<le> pool_weight s)
     \<and> (\<forall>t. (pool_run execute)\<^sup>*\<^sup>* s t \<longrightarrow> (\<nexists>u. pool_run execute t u) \<longrightarrow> quiescent t)
     \<and> (\<exists>t. (pool_run execute)\<^sup>*\<^sup>* s t \<and> quiescent t)"
proof -
  note inv = reach_full(6) [OF assms]
  show ?thesis
    using pool.run_bounded [OF inv] pool.run_stuck_is_final [OF inv] pool.run_reaches_final [OF inv]
    by (meson add_leD1)
qed

theorem every_call_returns_witness:
  "\<exists>t. (pool_run demo_execute)\<^sup>*\<^sup>* demo_after t \<and> quiescent t"
  using every_call_returns [OF demo_after_reach] by blast

text \<open>
  When \<open>joined_\<close> is set, and in particular whenever a call of \<open>shutdown\<close> or
  \<open>shutdown_now\<close> is about to return, every worker thread has exited, the queue is closed and
  empty, and every future handed out holds its result, except for tasks that other callers are still
  inside \<open>submit\<close> or \<open>shutdown_now\<close> with.
\<close>

theorem shutdown_returns_after_join:
  assumes "reach pool_init (pool_step execute) s"
    and "workers_joined s \<or> (\<exists>ds. CLeave ds \<in> set (callers s))"
  shows "(\<forall>w \<in> set (workers s). w = WExit) \<and> is_shut_down s \<and> queued s = 0
     \<and> (\<forall>p < length (chans s). ch_value (chans s ! p) \<noteq> None
          \<or> (\<exists>c \<in> set (callers s). \<exists>e \<in># copen c. env_promise e = Some p))"
proof -
  note inv = reach_full [OF assms(1)]
  have joined: "p_joined s"
    using assms(2) inv(5) unfolding join_inv_def workers_joined_def
    by (metis in_set_conv_nth leaving.simps(1))
  have "\<exists>c \<in> set (callers s). \<exists>e \<in># copen c. env_promise e = Some p"
    if p: "pending (chans s) p" for p
  proof -
    from pending_opened [OF inv(1) p] obtain e where "e \<in># opened s" "env_promise e = Some p" .
    with sum_mset_memD opened_joined [OF inv(4) joined] show ?thesis by metis
  qed
  with value_or_pending [OF inv(1)] joined_queue [OF inv(4) joined] show ?thesis
    by (auto simp: is_shut_down_def is_closed_def queued_def queue_size_def)
qed

theorem shutdown_returns_after_join_witness:
  "set (workers (demo_end (CLeave []))) \<subseteq> {WExit} \<and> is_shut_down (demo_end (CLeave []))
     \<and> queued (demo_end (CLeave [])) = 0"
  using shutdown_returns_after_join [OF demo_end_reach(1)]
  by (simp add: demo_end_def pool.defs workers_joined_def)

text \<open>
  C12: After any shutdown has gone through and no call is in progress, every future ever handed
  out holds a terminal result.
\<close>

theorem shutdown_fulfils_every_future:
  assumes "reach pool_init (pool_step execute) s" and "quiescent s" and "is_shut_down s"
    and "p < length (chans s)"
  shows "workers_joined s
     \<and> (\<exists>r. ch_value (chans s ! p) = Some r \<and> result_ok r \<and> is_terminal (res_state r))"
  using quiescent_fulfilled [OF assms] .

theorem shutdown_fulfils_every_future_witness:
  "workers_joined (demo_end CIdle)
     \<and> (\<exists>r. ch_value (chans (demo_end CIdle) ! 1) = Some r \<and> is_terminal (res_state r))"
  using shutdown_fulfils_every_future [OF demo_end_reach(2) demo_end_quiescent, of 1]
  by (simp add: demo_end_def pool.defs is_shut_down_def is_closed_def)

text \<open>
  C23: The numbers are complete and count nothing twice: at rest, the samples of all workers are
  exactly the measurements of the futures that were run, the counter is exactly the number of
  rejected futures, and together they are as many as the submissions; \<open>collect_samples\<close>
  returns precisely those samples once the workers are joined and refuses before.
\<close>

theorem books_complete:
  assumes "reach pool_init (pool_step execute) s" and "quiescent s"
  shows "(if workers_joined s then \<exists>smps. collect_samples s = Inr smps
            \<and> mset smps = image_mset sample_of {#r \<in># results (chans s). res_state r \<noteq> Rejected#}
            \<and> length smps + size {#r \<in># results (chans s). res_state r = Rejected#} = length (chans s)
          else \<exists>msg. collect_samples s = Inl (Logic_error msg))
     \<and> rejected_count s = of_nat (size {#r \<in># results (chans s). res_state r = Rejected#})"
proof -
  note b = quiescent_books [OF full.inv_reach [OF assms(1)] assms(2)]
  have "length (concat (p_samples s)) = size (executed (chans s))"
    using arg_cong [OF b(1), of size] by simp
  with b show ?thesis
    by (auto simp: collect_samples_def rejected_count_def merge_buffers_concat executed_def
        refusals_def)
qed

theorem books_complete_witness:
  "(\<exists>smps. collect_samples (demo_end CIdle) = Inr smps \<and> length smps = 1)
     \<and> rejected_count (demo_end CIdle) = 1"
  using books_complete [OF demo_end_reach(2) demo_end_quiescent]
  by (auto simp: demo_end_def pool.defs workers_joined_def results_def List.map_filter_simps
      succeeded_def rejected_def)

text \<open>
  C34: In every result that a future holds, and so in every sample, the submission instant is not
  after the dequeue instant, nor that after the finish instant; so no reported duration is negative.
\<close>

theorem durations_nonnegative:
  assumes "reach pool_init (pool_step execute) s"
    and "p < length (chans s)" and "ch_value (chans s ! p) = Some r"
  shows "0 \<le> queue_wait (res_timings r) \<and> 0 \<le> execution_time (res_timings r)
     \<and> total_latency (res_timings r) = queue_wait (res_timings r) + execution_time (res_timings r)
     \<and> finished (res_timings r) \<le> clock s"
  using reach_full(3) [OF assms(1)] results_value [OF assms(2,3)]
  by (auto simp: time_inv_def timings_ok_def core_defs)

theorem durations_nonnegative_witness:
  "0 \<le> queue_wait \<lparr>submitted = 0, dequeued = 3, finished = 5\<rparr>
     \<and> 0 \<le> execution_time \<lparr>submitted = 0, dequeued = 3, finished = 5\<rparr>"
  using durations_nonnegative [OF demo_after_reach, of 0
      "succeeded 1 \<lparr>submitted = 0, dequeued = 3, finished = 5\<rparr>"]
  by (simp add: demo_after_def pool.defs succeeded_def)

section \<open>The drain shutdown runs what was accepted\<close>

text \<open>Steps during which nobody is inside \<open>shutdown_now\<close>.\<close>

fun draining :: "'t caller \<Rightarrow> bool" where
  "draining CDrain = True"
| "draining (CStamp ds) = True"
| "draining (CDiscard f rs es) = True"
| "draining _ = False"

definition graceful :: "('t \<Rightarrow> exec_outcome) \<Rightarrow> 't system \<Rightarrow> 't system \<Rightarrow> bool" where
  "graceful execute s s' \<longleftrightarrow> pool_step execute s s' \<and> (\<forall>c \<in> set (callers s). \<not> draining c)"

text \<open>The envelopes past the door: queued, or with a worker.\<close>

definition inside :: "'t system \<Rightarrow> 't envelope multiset" where
  "inside s = mset (q_items (p_queue s)) + sum_list (map wopen (workers s))"

text \<open>The envelope is still inside, or its future holds the result of running it.\<close>

definition served :: "('t \<Rightarrow> exec_outcome) \<Rightarrow> 't envelope \<Rightarrow> nat \<Rightarrow> 't system \<Rightarrow> bool" where
  "served execute e p s \<longleftrightarrow> env_promise e = Some p \<and> p < length (chans s)
     \<and> (e \<in># inside s \<or> (\<exists>deq now. ch_value (chans s ! p) = Some (run_result execute deq now e)))"

lemma inside_set_worker:
  assumes "i < length (workers s)" and "q_items (p_queue s') = items" and "workers s' = (workers s)[i := w]"
  shows "inside s' + (mset (q_items (p_queue s)) + wopen (workers s ! i)) = inside s + (mset items + wopen w)"
  using sum_mset_map_update [OF assms(1), of wopen w] assms(2,3) by (simp add: inside_def ac_simps)

lemma inside_worker_step:
  assumes own: "own_inv s" and i: "i < length (workers s)" and st: "worker_step execute i s = Some s'"
    and e: "e \<in># inside s" "env_promise e = Some p"
  shows "e \<in># inside s' \<or> (\<exists>deq now. ch_value (chans s' ! p) = Some (run_result execute deq now e))"
  using own i st
proof (cases rule: worker_step_cases)
  case (exits q)
  then have "q_items q = q_items (p_queue s)" by (auto simp: queue_defs split: if_splits list.splits)
  with exits inside_set_worker [OF i, of s' _ WExit] e(1) show ?thesis by simp
next
  case (takes x q)
  then have "q_items (p_queue s) = x # q_items q" by (auto simp: queue_defs split: if_splits list.splits)
  with takes inside_set_worker [OF i, of s' _ "WStart x"] e(1) show ?thesis by simp
next
  case (stamps x)
  with inside_set_worker [OF i, of s' _ "WRun x (clock s)"] e(1) show ?thesis by simp
next
  case (runs x deq px)
  let ?r = "run_result execute deq (clock s) x"
  from runs inside_set_worker [OF i, of s' _ "WRecord x (sample_of ?r)"]
  have "inside s = add_mset x (inside s')" by simp
  with e(1) consider "e = x" | "e \<in># inside s'" by auto
  then show ?thesis
  proof cases
    case 1
    with runs e(2) have "ch_value (chans s' ! p) = Some (run_result execute deq (clock s) e)"
      by (simp add: fulfil_nth pending_def)
    then show ?thesis by blast
  qed simp
next
  case (records x smp)
  with inside_set_worker [OF i, of s' _ WPop] e(1) show ?thesis by simp
qed

lemma inside_caller_step:
  assumes own: "own_inv s" and j: "j < length (callers s)" and st: "caller_step j s = Some s'"
    and "\<not> draining (callers s ! j)"
  shows "inside s \<subseteq># inside s'"
  using own j st
  by (cases rule: caller_step_cases)
     (use assms(4) in \<open>auto simp: inside_def queue_defs split: if_splits\<close>)

lemma served_step:
  assumes own: "own_inv s" and st: "graceful execute s s'" and "served execute e p s"
  shows "served execute e p s'"
proof -
  from st have step: "pool_step execute s s'" and calm: "\<forall>c \<in> set (callers s). \<not> draining c"
    by (simp_all add: graceful_def)
  note stable = ledger_step_stable [OF pool_step_ledger [OF own step], of p]
  have p: "env_promise e = Some p" "p < length (chans s)" using assms(3) by (simp_all add: served_def)
  have len: "p < length (chans s')"
    using ledger_step_length [OF pool_step_ledger [OF own step]] p(2) by simp
  have "e \<in># inside s' \<or> (\<exists>deq now. ch_value (chans s' ! p) = Some (run_result execute deq now e))"
    if e: "e \<in># inside s"
    using step
  proof cases
    case step_run
    then show ?thesis
    proof cases
      case (run_worker i)
      with inside_worker_step [OF own _ _ e p(1)] show ?thesis by blast
    next
      case (run_caller j)
      with inside_caller_step [OF own, of j s'] calm e show ?thesis by (auto dest: mset_subset_eqD)
    qed
  qed (use e in \<open>auto simp: enter_submit_eq inside_def\<close>)
  with stable p len assms(3) show ?thesis unfolding served_def by metis
qed

lemma served_steps:
  assumes "own_inv s" and "(graceful execute)\<^sup>*\<^sup>* s t" and "served execute e p s"
  shows "served execute e p t \<and> own_inv t"
  using assms(2)
proof (induction rule: rtranclp_induct)
  case (step t u)
  then have "pool_step execute t u" by (simp add: graceful_def)
  with step show ?case using served_step own.inv_step by blast
qed (use assms in simp)

text \<open>
  C17: The drain shutdown loses nothing: a task that is in the queue is run to its end, even if
  the pool is shut down meanwhile, as long as nobody calls \<open>shutdown_now\<close>: when the pool comes to
  rest its future holds the result of executing that very task, Succeeded exactly when the task
  returned, and never Rejected.
\<close>

theorem drain_runs_accepted:
  assumes "reach pool_init (pool_step execute) s" and "e \<in> set (q_items (p_queue s))"
    and "(graceful execute)\<^sup>*\<^sup>* s t" and "quiescent t"
  shows "\<exists>p r task. env_promise e = Some p \<and> env_task e = Some task \<and> ch_value (chans t ! p) = Some r
     \<and> res_id r = env_id e
     \<and> res_state r = (if execute task = Returned then Succeeded else Failed)"
proof -
  have own: "own_inv s" by (rule reach_full(1) [OF assms(1)])
  have "e \<in># opened s" using assms(2) by (simp add: opened_def)
  then obtain p task where p: "env_promise e = Some p" "pending (chans s) p" "env_task e = Some task"
    using own_inv_open [OF own] by blast
  then have "served execute e p s" using assms(2) by (simp add: served_def inside_def pending_def)
  then have srv: "served execute e p t" using served_steps own assms(3) by blast
  have "(pool_step execute)\<^sup>*\<^sup>* s t"
    using assms(3) by (rule mono_rtranclp [rule_format, rotated]) (simp add: graceful_def)
  then have "full_inv t" using full.inv_steps full.inv_reach [OF assms(1)] by blast
  with assms(4) have "opened t = {#}" by (rule quiescent_opened [rotated])
  then have "inside t = {#}" by (simp add: opened_def inside_def)
  with srv obtain deq now where r: "ch_value (chans t ! p) = Some (run_result execute deq now e)"
    by (auto simp: served_def)
  with p show ?thesis by (auto simp: run_result_state run_result_id)
qed

text \<open>A schedule in which nobody is inside \<open>shutdown_now\<close>, evaluated.\<close>

fun calm_acts :: "('t \<Rightarrow> exec_outcome) \<Rightarrow> 't action list \<Rightarrow> 't system \<Rightarrow> 't system option" where
  "calm_acts execute [] s = Some s"
| "calm_acts execute (a # as) s =
     (if list_ex draining (callers s) then None
      else case act execute a s of None \<Rightarrow> None | Some s' \<Rightarrow> calm_acts execute as s')"

lemma calm_acts_graceful: "calm_acts execute as s = Some t \<Longrightarrow> (graceful execute)\<^sup>*\<^sup>* s t"
proof (induction as arbitrary: s)
  case (Cons a as)
  then obtain s' where a: "act execute a s = Some s'" and rest: "calm_acts execute as s' = Some t"
    and calm: "\<not> list_ex draining (callers s)"
    by (auto split: option.splits if_splits)
  have "pool_step execute s s'" using a pool_step_iff_act by blast
  with calm have "graceful execute s s'" by (auto simp: graceful_def list_ex_iff)
  then show ?case using Cons.IH [OF rest] by (rule converse_rtranclp_into_rtranclp)
qed simp

definition demo_queued_env :: "bool envelope" where
  "demo_queued_env = \<lparr>env_id = 9, env_task = Some False, env_submitted = 0, env_promise = Some 0\<rparr>"

definition demo_queued :: "bool system" where
  "demo_queued = pool.extend
     (demo_pool\<lparr>p_queue := \<lparr>q_items = [demo_queued_env], q_closed = False, q_capacity = 1\<rparr>\<rparr>)
     \<lparr>chans = [\<lparr>ch_value = None, ch_retrieved = True, ch_broken = False\<rparr>],
      clock = 0, workers = [WPop], callers = [CIdle, CIdle], crashed = None\<rparr>"

lemma demo_queued_acts:
  "acts demo_execute [Call_submit 0 9 False, Proceed 0] (start_system demo_pool 2 0) = Some demo_queued"
  by (simp add: demo_queued_def demo_queued_env_def start_system_def demo_run_simps moved_from_def
      numeral_2_eq_2)

lemma demo_queued_reach: "reach pool_init (pool_step demo_execute) demo_queued"
  using demo_pool_init demo_queued_acts by (rule acts_reach)

definition demo_drained :: "bool system" where
  "demo_drained = pool.extend
     \<lparr>p_queue = \<lparr>q_items = [], q_closed = True, q_capacity = 1\<rparr>,
      p_samples = [[\<lparr>smp_id = 9, smp_state = Failed,
                     smp_timings = \<lparr>submitted = 0, dequeued = 0, finished = 5\<rparr>\<rparr>]],
      p_rejected = 0, p_mutex = None, p_joined = True, p_joinable = [False]\<rparr>
     \<lparr>chans = [\<lparr>ch_value = Some (failed 9 \<lparr>message = ''boom''\<rparr>
                   \<lparr>submitted = 0, dequeued = 0, finished = 5\<rparr>),
                ch_retrieved = True, ch_broken = False\<rparr>],
      clock = 5, workers = [WExit], callers = [CIdle, CIdle], crashed = None\<rparr>"

lemma demo_drained_acts:
  "calm_acts demo_execute [Call_shutdown 1, Proceed 1, Work 0, Work 0, Tick 5, Work 0, Work 0, Work 0,
     Proceed 1, Proceed 1, Proceed 1, Proceed 1] demo_queued = Some demo_drained"
  by (simp add: demo_drained_def demo_queued_def demo_queued_env_def demo_run_simps run_def Let_def
      demo_execute_def failed_def)

theorem drain_runs_accepted_witness:
  "\<exists>r. ch_value (chans demo_drained ! 0) = Some r \<and> res_id r = 9 \<and> res_state r = Failed"
proof -
  have "quiescent demo_drained" by (simp add: demo_drained_def pool.defs quiescent_def)
  from drain_runs_accepted [OF demo_queued_reach _ calm_acts_graceful [OF demo_drained_acts] this,
      of demo_queued_env]
  show ?thesis by (auto simp: demo_queued_def demo_queued_env_def pool.defs demo_execute_def)
qed

section \<open>The discarding shutdown rejects what was queued\<close>

text \<open>A caller of \<open>shutdown_now\<close> still has to reject the envelope, or its future is rejected.\<close>

definition abandoned :: "'t envelope \<Rightarrow> nat \<Rightarrow> 't system \<Rightarrow> bool" where
  "abandoned e p s \<longleftrightarrow> env_promise e = Some p \<and> p < length (chans s)
     \<and> ((\<exists>j < length (callers s). draining (callers s ! j) \<and> e \<in># copen (callers s ! j))
        \<or> (\<exists>f. ch_value (chans s ! p) = Some (rejected (env_id e) (env_submitted e) f)))"

lemma abandoned_caller_step:
  assumes own: "own_inv s" and j: "j < length (callers s)" and st: "caller_step j s = Some s'"
    and d: "draining (callers s ! j)" and e: "e \<in># copen (callers s ! j)" "env_promise e = Some p"
  shows "draining (callers s' ! j) \<and> e \<in># copen (callers s' ! j)
     \<or> (\<exists>f. ch_value (chans s' ! p) = Some (rejected (env_id e) (env_submitted e) f))"
  using own j st
proof (cases rule: caller_step_cases)
  case (discards f rs x es px)
  with e j show ?thesis by (cases "e = x") (auto simp: fulfil_nth pending_def)
qed (use d e j in auto)

lemma callers_step:
  assumes "own_inv s" and "pool_step execute s s'" and "k < length (callers s)" and "draining (callers s ! k)"
  shows "k < length (callers s')
     \<and> (callers s' ! k = callers s ! k \<or> caller_step k s = Some s')"
  using assms(2)
proof cases
  case step_run
  then show ?thesis
  proof cases
    case (run_worker i)
    with assms(1,3) show ?thesis by (auto elim!: worker_step_cases)
  next
    case (run_caller j)
    from assms(1) run_caller(2,3) have "\<exists>c. callers s' = (callers s)[j := c]"
      by (cases rule: caller_step_cases) auto
    with run_caller(3) assms(3) show ?thesis by (cases "j = k") auto
  qed
next
  case (step_submit j i task)
  with assms(3,4) show ?thesis by (cases "j = k") (auto simp: enter_submit_eq)
next
  case (step_shutdown j)
  with assms(3,4) show ?thesis by (cases "j = k") auto
next
  case (step_shutdown_now j)
  with assms(3,4) show ?thesis by (cases "j = k") auto
qed (use assms(3) in simp)

lemma abandoned_step:
  assumes own: "own_inv s" and step: "pool_step execute s s'" and "abandoned e p s"
  shows "abandoned e p s'"
proof -
  note stable = ledger_step_stable [OF pool_step_ledger [OF own step], of p]
  have p: "env_promise e = Some p" "p < length (chans s)" using assms(3) by (simp_all add: abandoned_def)
  have len: "p < length (chans s')"
    using ledger_step_length [OF pool_step_ledger [OF own step]] p(2) by simp
  show ?thesis
  proof (cases "\<exists>f. ch_value (chans s ! p) = Some (rejected (env_id e) (env_submitted e) f)")
    case True
    with stable p len show ?thesis unfolding abandoned_def by metis
  next
    case False
    with assms(3) obtain j where j: "j < length (callers s)" "draining (callers s ! j)"
        "e \<in># copen (callers s ! j)" by (auto simp: abandoned_def)
    from callers_step [OF own step j(1,2)] abandoned_caller_step [OF own j(1) _ j(2,3) p(1)] j p len
    show ?thesis unfolding abandoned_def by metis
  qed
qed

lemma abandoned_steps:
  assumes "own_inv s" and "(pool_step execute)\<^sup>*\<^sup>* s t" and "abandoned e p s"
  shows "abandoned e p t"
  using assms(2)
proof (induction rule: rtranclp_induct)
  case (step t u)
  then show ?case using abandoned_step own.inv_steps assms(1) by blast
qed (use assms in simp)

text \<open>
  C18: The discarding shutdown abandons exactly the queued tasks: everything in the queue at the
  moment \<open>shutdown_now\<close> drains it ends with a Rejected result that carries its identity and its
  submission instant; none of those tasks is ever executed.
\<close>

theorem shutdown_now_rejects_queued:
  assumes "reach pool_init (pool_step execute) s" and "e \<in> set (q_items (p_queue s))"
    and "j < length (callers s)" and "callers s ! j = CDrain" and "shutdown_now_step j s = Some s'"
    and "(pool_step execute)\<^sup>*\<^sup>* s' t" and "quiescent t"
  shows "\<exists>p f. env_promise e = Some p
     \<and> ch_value (chans t ! p) = Some (rejected (env_id e) (env_submitted e) f)"
proof -
  have own: "own_inv s" by (rule reach_full(1) [OF assms(1)])
  have st: "caller_step j s = Some s'" using assms(4,5) by (simp add: caller_step_def)
  have "own_inv s'"
    using own.inv_step [OF own, of undefined s'] step_run [OF run_caller [of s j s']] own st assms(3)
    by (simp add: own_inv_def own.inv_step)
  have "e \<in># opened s" using assms(2) by (simp add: opened_def)
  then obtain p where p: "env_promise e = Some p" "pending (chans s) p" using own_inv_open [OF own] by blast
  from assms(3-5) have "callers s' ! j = CStamp (q_items (p_queue s))" "length (callers s') = length (callers s)"
      "chans s' = chans s" by (auto simp: shutdown_now_step_def close_and_drain_def)
  with p assms(2,3) have "abandoned e p s'" by (auto simp: abandoned_def pending_def)
  with abandoned_steps [OF \<open>own_inv s'\<close> assms(6)] have "abandoned e p t" by blast
  with assms(7) show ?thesis by (fastforce simp: abandoned_def quiescent_def dest: nth_mem)
qed

definition demo_discarded :: "bool system" where
  "demo_discarded = pool.extend
     \<lparr>p_queue = \<lparr>q_items = [], q_closed = True, q_capacity = 1\<rparr>, p_samples = [[]],
      p_rejected = 1, p_mutex = None, p_joined = True, p_joinable = [False]\<rparr>
     \<lparr>chans = [\<lparr>ch_value = Some (rejected 9 0 4), ch_retrieved = True, ch_broken = False\<rparr>],
      clock = 4, workers = [WExit], callers = [CIdle, CIdle], crashed = None\<rparr>"

theorem shutdown_now_rejects_queued_witness:
  "\<exists>f. ch_value (chans demo_discarded ! 0) = Some (rejected 9 0 f)"
proof -
  let ?s = "set_caller 1 CDrain demo_queued"
  let ?t = "set_caller 1 (CStamp [demo_queued_env])
      (demo_queued\<lparr>p_queue := \<lparr>q_items = [], q_closed = True, q_capacity = 1\<rparr>\<rparr>)"
  have r: "reach pool_init (pool_step demo_execute) ?s"
    using demo_queued_reach
    by (rule reach_step) (rule step_shutdown_now; simp add: demo_queued_def pool.defs)
  have d: "shutdown_now_step 1 ?s = Some ?t"
    by (simp add: shutdown_now_step_def demo_queued_def demo_run_simps)
  have a: "acts demo_execute [Tick 4, Proceed 1, Proceed 1, Proceed 1, Work 0, Proceed 1, Proceed 1,
      Proceed 1, Proceed 1] ?t = Some demo_discarded"
    by (simp add: demo_discarded_def demo_queued_def demo_queued_env_def shutdown_now_step_def
        demo_run_simps)
  have q: "quiescent demo_discarded" by (simp add: demo_discarded_def pool.defs quiescent_def)
  from shutdown_now_rejects_queued [OF r _ _ _ d acts_steps [OF a] q, of demo_queued_env]
  show ?thesis by (auto simp: demo_queued_def demo_queued_env_def pool.defs set_caller_def)
qed

section \<open>Shutting down again\<close>

lemma joined_queue_fixed:
  assumes "shut_inv s" and "p_joined s"
  shows "close (p_queue s) = p_queue s" and "close_and_drain (p_queue s) = ([], p_queue s)"
  using joined_queue(2,3) [OF assms] by (simp_all add: close_def close_and_drain_def)

lemma joined_calls_return:
  assumes "shut_inv s" "join_inv s" "crashed s = None" and joined: "p_joined s"
    and j: "j < length (callers s)" "callers s ! j = CIdle"
  shows "acts execute [Call_shutdown j, Proceed j, Proceed j, Proceed j] s = Some s"
    and "acts execute [Call_shutdown_now j, Proceed j, Proceed j, Proceed j, Proceed j, Proceed j] s = Some s"
proof -
  have free: "p_mutex s = None" using assms(2) joined by (simp add: join_inv_def)
  note same = joined_queue_fixed [OF assms(1) joined]
  have restore: "(callers s)[j := CIdle] = callers s" using j(2) by (metis list_update_id)
  note steps = idle_def caller_step_def shutdown_step_def shutdown_now_step_def join_step_def set_caller_def
  show "acts execute [Call_shutdown j, Proceed j, Proceed j, Proceed j] s = Some s"
    "acts execute [Call_shutdown_now j, Proceed j, Proceed j, Proceed j, Proceed j, Proceed j] s = Some s"
    using j assms(3) free joined same restore by (simp_all add: steps)
qed

text \<open>
  C19: Both shutdowns are idempotent: once the workers are joined, a further call of \<open>shutdown\<close> or
  of \<open>shutdown_now\<close> never waits, returns after its own few steps, and leaves the whole system,
  futures, samples and counters included, exactly as it was.
\<close>

theorem shutdown_idempotent:
  assumes "reach pool_init (pool_step execute) s" and "workers_joined s"
    and "j < length (callers s)" and "callers s ! j = CIdle"
  shows "acts execute [Call_shutdown j, Proceed j, Proceed j, Proceed j] s = Some s
     \<and> acts execute [Call_shutdown_now j, Proceed j, Proceed j, Proceed j, Proceed j, Proceed j] s = Some s"
proof -
  note inv = reach_full [OF assms(1)]
  have "p_joined s" "crashed s = None" using assms(2) inv(1) by (simp_all add: workers_joined_def own_inv_def)
  with joined_calls_return [OF inv(4,5)] assms(3,4) show ?thesis by blast
qed

theorem shutdown_idempotent_witness:
  "acts demo_execute [Call_shutdown 0, Proceed 0, Proceed 0, Proceed 0] (demo_end CIdle) = Some (demo_end CIdle)"
  using shutdown_idempotent [OF demo_end_reach(2), of 0]
  by (simp add: demo_end_def pool.defs workers_joined_def)

end
