(* ===== verification/Pool_Construction.thy ===== *)
theory Pool_Construction
  imports Pool_Correct
begin

text \<open>
  The two ends of a \<open>ThreadPool\<close>'s life. When the constructor cannot create one of its threads,
  its handler closes the queue, joins the threads that did start and rethrows; the handler is a
  caller of the pool under construction. The destructor is a \<open>shutdown\<close>. In both cases no
  thread is left that could touch the pool's memory afterwards.
\<close>

section \<open>The handler of a failed construction\<close>

text \<open>
  The threads started so far wait for work, and the constructing thread is about to close the
  queue and to join them, the way \<open>shutdown\<close> does.
\<close>

definition failed_construction :: "'t pool \<Rightarrow> time_point \<Rightarrow> 't system" where
  "failed_construction p now = set_caller 0 CClose (start_system p 1 now)"

text \<open>No thread of the pool is running or unjoined.\<close>

definition threads_gone :: "'t system \<Rightarrow> bool" where
  "threads_gone s \<longleftrightarrow> p_joined s \<and> (\<forall>w \<in> set (workers s). w = WExit)"

lemma failed_pool:
  assumes "make_queue cap = Inr q" and "spawn_workers spawn 0 (unat wc) (empty_pool q wc) = Inl p"
  obtains k where "k < unat wc" "p = (empty_pool q wc)\<lparr>p_joinable := replicate k True\<rparr>" "\<not> spawn k"
  using spawn_workers_Inl [OF assms(2)] by (auto simp: empty_pool_def)

lemma failed_inv:
  assumes "make_queue cap = Inr q" and "p = (empty_pool q wc)\<lparr>p_joinable := replicate k True\<rparr>"
    and "0 < k" and "k \<le> unat wc"
  shows "full_inv (failed_construction p now)"
proof -
  let ?s = "start_system p 1 now"
  have "fresh_system ?s" unfolding fresh_system_def
    using assms by (intro conjI exI [of _ cap] exI [of _ "unat wc"] exI [of _ k] exI [of _ 1])
      (simp_all add: start_system_def pool.defs empty_pool_def)
  then have "full_inv ?s" by (rule full_inv_init)
  moreover have "pool_step (\<lambda>_. Returned) ?s (set_caller 0 CClose ?s)"
    by (rule step_shutdown) (simp_all add: start_system_def pool.defs)
  ultimately show ?thesis unfolding failed_construction_def by (rule full_inv_step)
qed

text \<open>Somebody is about to close the queue, or it is closed.\<close>

definition will_close :: "'t system \<Rightarrow> bool" where
  "will_close s \<longleftrightarrow> CClose \<in> set (callers s) \<or> q_closed (p_queue s)"

lemma set_update_other: "x \<in> set xs \<Longrightarrow> x \<noteq> xs ! j \<Longrightarrow> x \<in> set (xs[j := y])"
  by (metis in_set_conv_nth length_list_update nth_list_update_neq)

lemma will_close_step:
  assumes own: "own_inv s" and inv: "will_close s" and st: "pool_run execute s s'"
  shows "will_close s'"
  using st
proof cases
  case (run_worker i)
  from own run_worker(2,3) show ?thesis
    by (cases rule: worker_step_cases)
       (use inv in \<open>auto simp: will_close_def queue_defs split: list.splits if_splits\<close>)
next
  case (run_caller j)
  from own run_caller(2,3) show ?thesis
    by (cases rule: caller_step_cases)
       (use inv in \<open>auto simp: will_close_def queue_defs intro: set_update_other split: if_splits\<close>)
qed

text \<open>Once such a run has come to rest, no thread is left.\<close>

lemma will_close_rest:
  assumes full: "full_inv s" and close: "will_close s" and rest: "quiescent s"
  shows "threads_gone s" and "q_closed (p_queue s)"
proof -
  show "q_closed (p_queue s)" using close rest by (auto simp: will_close_def quiescent_def)
  with quiescent_joined [OF full rest] rest show "threads_gone s"
    by (auto simp: threads_gone_def quiescent_def)
qed

text \<open>The constructing thread is the only caller.\<close>

definition handler_inv :: "'t system \<Rightarrow> bool" where
  "handler_inv s \<longleftrightarrow> full_inv s \<and> length (callers s) = 1 \<and> will_close s"

lemma full_own: "full_inv s \<Longrightarrow> own_inv s"
  by (simp add: full_inv_def pool_inv_def book_inv_def)

lemma handler_step: "handler_inv s \<Longrightarrow> pool_run execute s s' \<Longrightarrow> handler_inv s'"
  using full_inv_step [OF _ step_run] will_close_step [OF full_own] pool_run_frame(2) [OF full_own]
  unfolding handler_inv_def by metis

text \<open>When the very first creation fails there is no thread to join.\<close>

fun alone_at :: "'t system \<Rightarrow> 't caller \<Rightarrow> bool" where
  "alone_at s CClose = (p_mutex s = None \<and> \<not> p_joined s)"
| "alone_at s (CJoin ds) = (ds = [] \<and> p_mutex s = None \<and> \<not> p_joined s)"
| "alone_at s (CJoining ds i) = (ds = [] \<and> i = 0)"
| "alone_at s (CLeave ds) = (ds = [] \<and> p_joined s)"
| "alone_at s CIdle = p_joined s"
| "alone_at s c = False"

definition alone_inv :: "'t system \<Rightarrow> bool" where
  "alone_inv s \<longleftrightarrow> workers s = [] \<and> p_joinable s = [] \<and> crashed s = None
     \<and> (\<exists>c. callers s = [c] \<and> alone_at s c)"

lemma alone_step:
  assumes inv: "alone_inv s" and st: "pool_run execute s s'"
  shows "alone_inv s' \<and> pool_weight s' < pool_weight s"
  using st
proof cases
  case (run_worker i)
  with inv show ?thesis by (auto simp: alone_inv_def)
next
  case (run_caller j)
  obtain c where s: "workers s = []" "p_joinable s = []" "crashed s = None" "callers s = [c]" and c: "alone_at s c"
    using inv by (auto simp: alone_inv_def)
  have st: "caller_step 0 s = Some s'" using run_caller s by simp
  have q: "q_items (close q) = q_items q" for q :: "'a envelope blocking_queue" by (simp add: close_def)
  show ?thesis
    by (cases c; use st s c in \<open>simp add: caller_step_def shutdown_step_def join_step_def set_caller_def;
        auto simp: alone_inv_def pool_weight_def q\<close>)
qed

lemma alone_progress:
  assumes "alone_inv s" and "callers s \<noteq> [CIdle]"
  shows "\<exists>t. pool_run execute s t"
proof -
  obtain c where s: "p_joinable s = []" "crashed s = None" "callers s = [c]" and c: "alone_at s c" "c \<noteq> CIdle"
    using assms by (auto simp: alone_inv_def)
  then have "\<exists>t. caller_step 0 s = Some t"
    by (cases c) (auto simp: caller_step_def shutdown_step_def join_step_def)
  with s show ?thesis by (metis run_caller length_greater_0_conv list.distinct(1))
qed

definition release_inv :: "'t system \<Rightarrow> bool" where
  "release_inv s \<longleftrightarrow> handler_inv s \<or> alone_inv s"

definition released :: "'t system \<Rightarrow> bool" where
  "released s \<longleftrightarrow> callers s = [CIdle] \<and> threads_gone s"

definition construction_failed :: "'t system \<Rightarrow> bool" where
  "construction_failed s \<longleftrightarrow>
     (\<exists>spawn wc cap q p now. make_queue cap = Inr q
        \<and> spawn_workers spawn 0 (unat wc) (empty_pool q wc) = Inl p \<and> s = failed_construction p now)"

lemma construction_failed_inv:
  assumes "construction_failed s"
  shows "release_inv s"
proof -
  from assms obtain spawn wc cap q p now where q: "make_queue cap = Inr q"
    and sp: "spawn_workers spawn 0 (unat wc) (empty_pool q wc) = Inl p" and s: "s = failed_construction p now"
    by (auto simp: construction_failed_def)
  from q sp obtain k where k: "k < unat wc" and p: "p = (empty_pool q wc)\<lparr>p_joinable := replicate k True\<rparr>"
    by (rule failed_pool)
  have c: "callers s = [CClose]"
    by (simp add: s failed_construction_def start_system_def pool.defs set_caller_def)
  show ?thesis
  proof (cases "k = 0")
    case True
    then have "alone_inv s"
      by (simp add: alone_inv_def s p failed_construction_def start_system_def pool.defs set_caller_def empty_pool_def)
    then show ?thesis by (simp add: release_inv_def)
  next
    case False
    with failed_inv [OF q p] k have "full_inv s" by (simp add: s)
    with c show ?thesis by (simp add: release_inv_def handler_inv_def will_close_def)
  qed
qed

lemma handler_rest:
  assumes inv: "handler_inv s" and "quiescent s"
  shows "released s"
proof -
  obtain c where c: "callers s = [c]" using inv by (cases "callers s") (auto simp: handler_inv_def)
  moreover from c assms(2) have "c = CIdle" by (simp add: quiescent_def)
  ultimately show ?thesis
    using will_close_rest(1) assms by (auto simp: released_def handler_inv_def)
qed

lemma alone_rest: "alone_inv s \<Longrightarrow> callers s = [CIdle] \<Longrightarrow> released s"
  by (auto simp: alone_inv_def released_def threads_gone_def)

interpretation release: terminating_system construction_failed "pool_run execute" release_inv
  "pool_run execute" pool_weight released for execute
proof
  fix s t :: "'a system"
  show "construction_failed s \<Longrightarrow> release_inv s" by (rule construction_failed_inv)
  show "release_inv s \<Longrightarrow> pool_run execute s t \<Longrightarrow> release_inv t"
    unfolding release_inv_def using handler_step alone_step by blast
  show "release_inv s \<Longrightarrow> pool_run execute s t \<Longrightarrow> pool_weight t < pool_weight s"
    unfolding release_inv_def using alone_step pool_run_decreases
    by (auto simp: handler_inv_def full_inv_def)
  show "release_inv s \<Longrightarrow> \<not> released s \<Longrightarrow> \<exists>t. pool_run execute s t"
    using handler_rest pool_progress [of s execute] alone_progress alone_rest
    unfolding release_inv_def handler_inv_def full_inv_def by blast
qed simp

section \<open>Destruction\<close>

text \<open>The destructor calls \<open>shutdown\<close>.\<close>

definition enter_destructor :: "nat \<Rightarrow> 't system \<Rightarrow> 't system" where
  "enter_destructor j s = set_caller j CClose s"

lemma destructor_inv:
  assumes "full_inv s" and "idle j s"
  shows "full_inv (enter_destructor j s)" and "will_close (enter_destructor j s)"
proof -
  have "pool_step (\<lambda>_. Returned) s (enter_destructor j s)"
    unfolding enter_destructor_def by (rule step_shutdown) (use assms(2) in \<open>simp_all add: idle_def\<close>)
  then show "full_inv (enter_destructor j s)" by (rule full_inv_step [OF assms(1)])
  show "will_close (enter_destructor j s)"
    using assms(2) by (auto simp: enter_destructor_def will_close_def idle_def set_update_memI)
qed

lemma will_close_runs:
  "(pool_run execute)\<^sup>*\<^sup>* s t \<Longrightarrow> full_inv s \<Longrightarrow> will_close s \<Longrightarrow> full_inv t \<and> will_close t"
  by (induction rule: rtranclp_induct)
     (auto intro: full_inv_step [OF _ step_run] will_close_step [OF full_own])

text \<open>The second of two threads cannot be created; the schedule of the handler.\<close>

fun by_itself :: "'t action \<Rightarrow> bool" where
  "by_itself (Work i) = True"
| "by_itself (Proceed j) = True"
| "by_itself _ = False"

lemma acts_run:
  "acts execute as s = Some t \<Longrightarrow> list_all by_itself as \<Longrightarrow> (pool_run execute ^^ length as) s t"
proof (induction as arbitrary: s)
  case (Cons a as)
  then obtain u where u: "act execute a s = Some u" and "acts execute as u = Some t"
    by (auto split: option.splits)
  moreover have "pool_run execute s u"
    using u Cons.prems(2) by (cases a) (auto split: if_splits intro: pool_run.intros)
  moreover have "list_all by_itself as" using Cons.prems(2) by simp
  ultimately show ?case using Cons.IH by (metis relpowp_Suc_I2 length_Cons)
qed simp

definition demo_started :: "bool pool" where
  "demo_started = (empty_pool \<lparr>q_items = [], q_closed = False, q_capacity = 1\<rparr> 2)\<lparr>p_joinable := [True]\<rparr>"

definition demo_release :: "bool action list" where
  "demo_release = [Proceed 0, Work 0, Proceed 0, Proceed 0, Proceed 0, Proceed 0]"

definition demo_released :: "bool system" where
  "demo_released = pool.extend
     \<lparr>p_queue = \<lparr>q_items = [], q_closed = True, q_capacity = 1\<rparr>, p_samples = [[], []],
      p_rejected = 0, p_mutex = None, p_joined = True, p_joinable = [False]\<rparr>
     \<lparr>chans = [], clock = 0, workers = [WExit], callers = [CIdle], crashed = None\<rparr>"

lemma two_threads:
  "replicate 2 x = [x, x]" "spawn_workers (\<lambda>i. i = 0) 0 2 p = Inl (p\<lparr>p_joinable := p_joinable p @ [True]\<rparr>)"
  by (simp_all add: numeral_2_eq_2)

lemma demo_release_acts: "acts demo_execute demo_release (failed_construction demo_started 0) = Some demo_released"
  by (simp add: demo_release_def demo_started_def demo_released_def failed_construction_def empty_pool_def
      start_system_def demo_run_simps two_threads)

section \<open>Properties\<close>

text \<open>
  C20: A constructor that cannot create all its threads leaves none behind. Whatever number of
  threads had been started, closing the queue and joining them takes a bounded number of steps under
  every schedule, cannot get stuck, and ends with every started thread exited and joined, before
  the exception leaves the constructor; the constructor's result is that exception.
\<close>

theorem failed_constructor_leaves_no_thread:
  fixes p :: "'t pool"
  assumes "make_queue cap = Inr q" and "spawn_workers spawn 0 (unat wc) (empty_pool q wc) = Inl p"
    and "(pool_run execute ^^ n) (failed_construction p now) t"
  shows "n \<le> pool_weight (failed_construction p now)
     \<and> ((\<nexists>u. pool_run execute t u) \<longrightarrow> callers t = [CIdle] \<and> threads_gone t)
     \<and> (make_pool spawn wc cap :: fault + 't pool) = Inl System_error"
proof -
  have "construction_failed (failed_construction p now)"
    unfolding construction_failed_def using assms(1,2) by blast
  then have inv: "release_inv (failed_construction p now)" by (rule construction_failed_inv)
  have "release_inv t" and "n \<le> pool_weight (failed_construction p now)"
    using release.run_bounded [OF inv assms(3)] by simp_all
  moreover have "wc \<noteq> 0" using assms(2) by auto
  then have "(make_pool spawn wc cap :: fault + 't pool) = Inl System_error"
    using assms(1,2) by (simp add: make_pool_def)
  ultimately show ?thesis using release.run_progress [of t] by (auto simp: released_def)
qed

theorem failed_constructor_leaves_no_thread_witness:
  "6 \<le> pool_weight (failed_construction demo_started 0) \<and> threads_gone demo_released"
proof -
  have q: "make_queue 1 = Inr (\<lparr>q_items = [], q_closed = False, q_capacity = 1\<rparr> :: bool envelope blocking_queue)"
    by (simp add: make_queue_def)
  have sp: "spawn_workers (\<lambda>i. i < 1) 0 (unat (2 :: size_t)) (empty_pool \<lparr>q_items = [], q_closed = False, q_capacity = 1\<rparr> 2)
      = Inl demo_started"
    by (simp add: demo_started_def empty_pool_def two_threads)
  have run: "(pool_run demo_execute ^^ 6) (failed_construction demo_started 0) demo_released"
    using acts_run [OF demo_release_acts] by (simp add: demo_release_def numeral_eq_Suc)
  have "\<not> pool_run demo_execute demo_released u" for u
    by (auto elim!: pool_runE simp: demo_released_def pool.defs worker_step_def caller_step_def)
  with failed_constructor_leaves_no_thread [OF q sp run] show ?thesis by blast
qed

text \<open>
  C21: The destructor waits for everything. Entered by a caller in any reachable state, it comes to
  an end under every schedule, and when no thread moves any more the queue is closed and empty,
  every worker thread has exited and has been joined, and every future holds a terminal result, so
  nothing refers to the pool when its members are destroyed.
\<close>

theorem destructor_leaves_nothing:
  assumes "reach pool_init (pool_step execute) s" and "idle j s"
    and "(pool_run execute)\<^sup>*\<^sup>* (enter_destructor j s) t" and "\<nexists>u. pool_run execute t u"
  shows "threads_gone t \<and> is_shut_down t \<and> queued t = 0
     \<and> (\<forall>p < length (chans t). \<exists>r. ch_value (chans t ! p) = Some r \<and> is_terminal (res_state r))"
proof -
  have "pool_step execute s (enter_destructor j s)"
    unfolding enter_destructor_def by (rule step_shutdown) (use assms(2) in \<open>simp_all add: idle_def\<close>)
  with assms(1) have "reach pool_init (pool_step execute) (enter_destructor j s)" by (rule reach_step)
  moreover have "(pool_step execute)\<^sup>*\<^sup>* (enter_destructor j s) t"
    using assms(3) by (rule mono_rtranclp [rule_format, rotated]) (rule step_run)
  ultimately have reach: "reach pool_init (pool_step execute) t" by (rule reach_steps [rotated])
  have t: "full_inv t" "will_close t"
    using will_close_runs [OF assms(3) destructor_inv [OF full.inv_reach [OF assms(1)] assms(2)]] by simp_all
  then have rest: "quiescent t" using pool.run_progress assms(4) by (metis full_inv_def)
  note gone = will_close_rest [OF t rest]
  then have shut: "is_shut_down t" by (simp add: is_shut_down_def is_closed_def)
  have "q_items (p_queue t) = []"
    using joined_queue [of t] t gone by (simp add: full_inv_def pool_inv_def threads_gone_def)
  with gone shut quiescent_fulfilled [OF reach rest shut] show ?thesis
    by (auto simp: queued_def queue_size_def)
qed

definition demo_destroyed :: "bool system" where
  "demo_destroyed = pool.extend
     \<lparr>p_queue = \<lparr>q_items = [], q_closed = True, q_capacity = 1\<rparr>, p_samples = [[demo_sample]],
      p_rejected = 0, p_mutex = None, p_joined = True, p_joinable = [False]\<rparr>
     \<lparr>chans = [\<lparr>ch_value = Some (succeeded 1 \<lparr>submitted = 0, dequeued = 3, finished = 5\<rparr>),
                ch_retrieved = True, ch_broken = False\<rparr>],
      clock = 5, workers = [WExit], callers = [CIdle, CIdle], crashed = None\<rparr>"

lemma demo_destroyed_acts:
  "acts demo_execute [Proceed 1, Work 0, Work 0, Proceed 1, Proceed 1, Proceed 1, Proceed 1]
     (enter_destructor 1 demo_after) = Some demo_destroyed"
  by (simp add: demo_destroyed_def enter_destructor_def demo_sample_def demo_run_simps)

theorem destructor_leaves_nothing_witness:
  "threads_gone demo_destroyed \<and> is_shut_down demo_destroyed \<and> queued demo_destroyed = 0"
proof -
  have "idle 1 demo_after" by (simp add: idle_def demo_after_def pool.defs demo_pool_def)
  moreover have "(pool_run demo_execute)\<^sup>*\<^sup>* (enter_destructor 1 demo_after) demo_destroyed"
    using acts_run [OF demo_destroyed_acts, THEN relpowp_imp_rtranclp] by simp
  moreover have "\<nexists>u. pool_run demo_execute demo_destroyed u"
    by (auto elim!: pool_runE simp: demo_destroyed_def pool.defs worker_step_def caller_step_def less_Suc_eq)
  ultimately show ?thesis using destructor_leaves_nothing [OF demo_after_reach] by blast
qed

end
