(* ===== verification/Pool_Lifecycle.thy ===== *)
theory Pool_Lifecycle
  imports Pool_Correct
begin

text \<open>
  The life of one task inside the pool, and who writes the sample buffers.

  The first part is the state machine of a task (the enumeration \<open>TaskState\<close> with the moments
  in between at which a caller still holds the task): seen from any single future, every step of the
  pool is a step of that machine or none. The second part is the queue seen from outside: the calls
  of all threads, in the order they take effect, are one replay of the queue, so its first-in,
  first-out law is a law about the order in which tasks start. The third part is the single-writer
  discipline of the per-worker buffers, which is what makes merging them without a lock correct.
\<close>

section \<open>The stages of a task\<close>

text \<open>
  \<open>Offered\<close>: inside \<open>push\<close>, possibly blocked. \<open>Discarded\<close>: refused by the closed queue or
  drained by \<open>shutdown_now\<close>, the rejection not yet delivered. Otherwise the task is in one of the
  states of the source's enumeration.
\<close>

datatype stage = Unissued | Offered | Discarded | In_state task_state

inductive stage_edge :: "stage \<Rightarrow> stage \<Rightarrow> bool" where
  edge_submit: "stage_edge Unissued Offered"
| edge_accept: "stage_edge Offered (In_state Queued)"
| edge_refuse: "stage_edge Offered Discarded"
| edge_start: "stage_edge (In_state Queued) (In_state Running)"
| edge_discard: "stage_edge (In_state Queued) Discarded"
| edge_reject: "stage_edge Discarded (In_state Rejected)"
| edge_succeed: "stage_edge (In_state Running) (In_state Succeeded)"
| edge_fail: "stage_edge (In_state Running) (In_state Failed)"

inductive_simps stage_edge_from:
  "stage_edge (In_state x) y" "stage_edge Discarded y" "stage_edge Offered y" "stage_edge Unissued y"

fun csubmit :: "'t caller \<Rightarrow> 't envelope multiset" where
  "csubmit (CPush e) = {#e#}"
| "csubmit _ = {#}"

fun cdiscard :: "'t caller \<Rightarrow> 't envelope multiset" where
  "cdiscard (CReject e) = {#e#}"
| "cdiscard (CStamp ds) = mset ds"
| "cdiscard (CDiscard f rs es) = mset es"
| "cdiscard _ = {#}"

fun holds :: "stage \<Rightarrow> 't system \<Rightarrow> 't envelope multiset" where
  "holds Offered s = sum_list (map csubmit (callers s))"
| "holds (In_state Queued) s = mset (q_items (p_queue s))"
| "holds (In_state Running) s = sum_list (map wopen (workers s))"
| "holds Discarded s = sum_list (map cdiscard (callers s))"
| "holds _ s = {#}"

definition tags :: "stage \<Rightarrow> 't system \<Rightarrow> nat multiset" where
  "tags x s = image_mset (\<lambda>e. the (env_promise e)) (holds x s)"

text \<open>The stage of the task behind the \<open>p\<close>-th future.\<close>

definition stage :: "'t system \<Rightarrow> nat \<Rightarrow> stage" where
  "stage s p =
     (if length (chans s) \<le> p then Unissued
      else case ch_value (chans s ! p) of
             Some r \<Rightarrow> In_state (res_state r)
           | None \<Rightarrow>
               if p \<in># tags Offered s then Offered
               else if p \<in># tags (In_state Queued) s then In_state Queued
               else if p \<in># tags (In_state Running) s then In_state Running
               else Discarded)"

section \<open>Every waiting task is at exactly one stage\<close>

lemma csubmit_cdiscard: "csubmit c + cdiscard c = copen c"
  by (cases c) auto

lemma callers_split:
  "sum_list (map csubmit cs) + sum_list (map cdiscard cs) = sum_list (map copen cs)"
  by (induction cs) (simp_all flip: csubmit_cdiscard)

lemma tags_pending:
  assumes "own_inv s"
  shows "tags Offered s + tags (In_state Queued) s + tags (In_state Running) s + tags Discarded s
    = mset_set {p. pending (chans s) p}"
proof -
  have "opened s = holds Offered s + holds (In_state Queued) s + holds (In_state Running) s
      + holds Discarded s"
    by (simp add: opened_def ac_simps flip: callers_split)
  then have "tags Offered s + tags (In_state Queued) s + tags (In_state Running) s + tags Discarded s
      = image_mset (\<lambda>e. the (env_promise e)) (opened s)"
    by (simp add: tags_def)
  also have "\<dots> = mset_set {p. pending (chans s) p}" using assms by (simp add: own_inv_def)
  finally show ?thesis .
qed

lemma tags_count:
  assumes "own_inv s"
  shows "count (tags Offered s) p + count (tags (In_state Queued) s) p
    + count (tags (In_state Running) s) p + count (tags Discarded s) p
    = (if pending (chans s) p then 1 else 0)"
  using arg_cong [OF tags_pending [OF assms], of "\<lambda>M. count M p"] by simp

lemma tags_cases:
  assumes "p \<in># tags x s"
  shows "x = Offered \<or> x = In_state Queued \<or> x = In_state Running \<or> x = Discarded"
  using assms by (cases "(x, s)" rule: holds.cases) (auto simp: tags_def)

lemma stage_tags:
  assumes "own_inv s" and "p \<in># tags x s"
  shows "stage s p = x" and "pending (chans s) p"
proof -
  note c = tags_count [OF assms(1), of p]
  from assms(2) have "0 < count (tags x s) p" by simp
  with tags_cases [OF assms(2)] c show p: "pending (chans s) p"
    by (auto simp flip: count_greater_zero_iff split: if_splits)
  with tags_cases [OF assms(2)] c \<open>0 < count (tags x s) p\<close> show "stage s p = x"
    by (auto simp: stage_def pending_def simp flip: count_greater_zero_iff)
qed

lemma pending_tags:
  assumes "own_inv s" and "pending (chans s) p"
  shows "p \<in># tags (stage s p) s"
proof -
  have "p \<in># mset_set {p. pending (chans s) p}" using assms(2) by simp
  then obtain x where "p \<in># tags x s" unfolding tags_pending [OF assms(1), symmetric] by auto
  with stage_tags(1) [OF assms(1)] show ?thesis by metis
qed

lemma stage_settled:
  assumes "chans t = chans s" and "\<not> pending (chans s) p" and "own_inv s"
  shows "stage t p = stage s p"
  using assms by (auto simp: stage_def own_inv_def pending_def all_set_conv_all_nth split: option.splits)

section \<open>The three kinds of step\<close>

text \<open>Tasks pass from one stage to another, a task is settled, or a task is issued.\<close>

definition shifts :: "'t envelope multiset \<Rightarrow> stage \<Rightarrow> stage \<Rightarrow> 't system \<Rightarrow> 't system \<Rightarrow> bool" where
  "shifts X a b s t \<longleftrightarrow> chans t = chans s
     \<and> (\<forall>c. holds c t + (if c = a then X else {#}) = holds c s + (if c = b then X else {#}))"

definition ends :: "'t envelope \<Rightarrow> nat \<Rightarrow> task_result \<Rightarrow> stage \<Rightarrow> 't system \<Rightarrow> 't system \<Rightarrow> bool" where
  "ends e p r a s t \<longleftrightarrow> env_promise e = Some p \<and> pending (chans s) p \<and> chans t = fulfil p r (chans s)
     \<and> (\<forall>c. holds c s = holds c t + (if c = a then {#e#} else {#}))"

lemma shifts_stage:
  assumes s: "own_inv s" and t: "own_inv t" and sh: "shifts X a b s t"
  shows "stage t p = stage s p \<or> stage s p = a \<and> stage t p = b"
proof (cases "pending (chans s) p")
  case True
  let ?x = "stage s p" and ?X = "image_mset (\<lambda>e. the (env_promise e)) X"
  have tags: "tags c t + (if c = a then ?X else {#}) = tags c s + (if c = b then ?X else {#})" for c
    using sh by (auto simp: shifts_def tags_def simp flip: image_mset_union split: if_splits
        dest: arg_cong [of _ _ "image_mset (\<lambda>e. the (env_promise e))"])
  have mem: "p \<in># tags ?x s" by (rule pending_tags [OF s True])
  then have "p \<in># tags ?x t + (if ?x = a then ?X else {#})" unfolding tags by simp
  then consider "p \<in># tags ?x t" | "?x = a" "p \<in># ?X" by (auto split: if_splits)
  then show ?thesis
  proof cases
    case 1
    with stage_tags(1) [OF t] show ?thesis by blast
  next
    case 2
    have "p \<in># tags b t"
    proof (cases "b = a")
      case True
      with tags [of ?x] 2(1) mem show ?thesis by simp
    next
      case False
      with tags [of b] 2(2) show ?thesis by simp
    qed
    with 2(1) stage_tags(1) [OF t] show ?thesis by blast
  qed
next
  case False
  have "chans t = chans s" using sh by (simp add: shifts_def)
  from stage_settled [OF this False s] show ?thesis ..
qed

lemma ends_stage:
  assumes s: "own_inv s" and t: "own_inv t" and "ends e q r a s t"
  shows "stage t p = (if p = q then In_state (res_state r) else stage s p)" and "stage s q = a"
proof -
  from assms(3) have e: "env_promise e = Some q" "pending (chans s) q" "chans t = fulfil q r (chans s)"
    and holds: "holds c s = holds c t + (if c = a then {#e#} else {#})" for c
    by (simp_all add: ends_def)
  have tags: "tags c s = tags c t + (if c = a then {#q#} else {#})" for c
    using e(1) by (simp add: tags_def holds)
  show "stage s q = a" using stage_tags(1) [OF s, of q a] by (simp add: tags)
  show "stage t p = (if p = q then In_state (res_state r) else stage s p)"
  proof (cases "p = q \<or> \<not> pending (chans s) p")
    case True
    with e s show ?thesis
      by (auto simp: stage_def fulfil_def own_inv_def pending_def all_set_conv_all_nth split: option.splits)
  next
    case False
    with pending_tags [OF s, of p] have "p \<in># tags (stage s p) t" by (auto simp: tags split: if_splits)
    with False stage_tags(1) [OF t] show ?thesis by simp
  qed
qed

lemma opens_stage:
  assumes s: "own_inv s" and t: "own_inv t"
    and c: "chans t = chans s @ [fresh_channel\<lparr>ch_retrieved := True\<rparr>]"
    and tags: "\<And>c. tags c t = tags c s + (if c = Offered then {#length (chans s)#} else {#})"
  shows "stage t p = (if p = length (chans s) then Offered else stage s p)"
proof (cases "p = length (chans s)")
  case True
  with stage_tags(1) [OF t, of p Offered] show ?thesis by (simp add: tags)
next
  case False
  show ?thesis
  proof (cases "pending (chans s) p")
    case True
    with pending_tags [OF s, of p] have "p \<in># tags (stage s p) t" by (auto simp: tags)
    with False stage_tags(1) [OF t] show ?thesis by simp
  next
    case settled: False
    with False s c show ?thesis
      by (auto simp: stage_def own_inv_def pending_def nth_append all_set_conv_all_nth split: option.splits)
  qed
qed

section \<open>Every step of the pool is a step of the machine\<close>

lemma holds_worker:
  "i < length (workers s) \<Longrightarrow> holds x (set_worker i w s) + (if x = In_state Running then wopen (workers s ! i) else {#})
     = holds x s + (if x = In_state Running then wopen w else {#})"
  using sum_mset_map_update [of i "workers s" wopen w]
  by (cases "(x, s)" rule: holds.cases) auto

lemma holds_caller:
  "j < length (callers s) \<Longrightarrow> holds x (set_caller j c s)
       + (if x = Offered then csubmit (callers s ! j) else if x = Discarded then cdiscard (callers s ! j) else {#})
     = holds x s + (if x = Offered then csubmit c else if x = Discarded then cdiscard c else {#})"
  using sum_mset_map_update [of j "callers s" csubmit c] sum_mset_map_update [of j "callers s" cdiscard c]
  by (cases "(x, s)" rule: holds.cases) auto

lemma holds_queue:
  "holds x (s\<lparr>p_queue := q\<rparr>) = (if x = In_state Queued then mset (q_items q) else holds x s)"
  by (cases "(x, s)" rule: holds.cases) auto

lemma holds_frame [simp]:
  "holds x (s\<lparr>chans := cs\<rparr>) = holds x s" "holds x (s\<lparr>clock := n\<rparr>) = holds x s"
  "holds x (s\<lparr>p_samples := b\<rparr>) = holds x s" "holds x (s\<lparr>p_rejected := m\<rparr>) = holds x s"
  "holds x (s\<lparr>p_mutex := l\<rparr>) = holds x s" "holds x (s\<lparr>p_joinable := js\<rparr>) = holds x s"
  "holds x (s\<lparr>p_joined := d, p_mutex := l\<rparr>) = holds x s"
  by (cases "(x, s)" rule: holds.cases; simp)+

text \<open>A thread moves and nothing else does, or it moves together with the queue or with one channel.\<close>

definition same_threads :: "'t system \<Rightarrow> 't system \<Rightarrow> bool" where
  "same_threads s s' \<longleftrightarrow> workers s' = workers s \<and> callers s' = callers s"

lemma holds_same_threads:
  assumes "same_threads s s'"
  shows "holds x s' = (if x = In_state Queued then mset (q_items (p_queue s')) else holds x s)"
  using assms by (cases "(x, s)" rule: holds.cases) (auto simp: same_threads_def)

lemma shifts_worker:
  assumes "same_threads s s'" and "chans s' = chans s" and "i < length (workers s)"
    and "mset (q_items (p_queue s)) = mset (q_items (p_queue s')) + X"
    and "wopen w = wopen (workers s ! i) + X"
  shows "shifts X (In_state Queued) (In_state Running) s (set_worker i w s')"
proof -
  have "holds c (set_worker i w s') + (if c = In_state Queued then X else {#})
      = holds c s + (if c = In_state Running then X else {#})" for c
    using holds_worker [of i s' c w] holds_same_threads [OF assms(1), of c] assms
    by (auto simp: same_threads_def split: if_splits)
  with assms(2) show ?thesis by (simp add: shifts_def)
qed

lemma shifts_caller:
  assumes "same_threads s s'" and "chans s' = chans s" and "j < length (callers s)"
    and "mset (q_items (p_queue s')) + (if a = In_state Queued then X else {#})
      = mset (q_items (p_queue s)) + (if b = In_state Queued then X else {#})"
    and "csubmit (callers s ! j) = csubmit c + (if a = Offered then X else {#})"
    and "cdiscard c = cdiscard (callers s ! j) + (if b = Discarded then X else {#})"
    and "stage_edge a b" and "a \<in> {Offered, In_state Queued}" and "b \<in> {In_state Queued, Discarded}"
  shows "\<exists>X a b. shifts X a b s (set_caller j c s') \<and> stage_edge a b"
proof -
  have "holds x (set_caller j c s') + (if x = a then X else {#}) = holds x s + (if x = b then X else {#})" for x
    using holds_caller [of j s' x c] holds_same_threads [OF assms(1), of x] assms(1,3-6,8,9)
    by (cases "(x, s)" rule: holds.cases) (auto simp: same_threads_def split: if_splits)
  with assms(2) have "shifts X a b s (set_caller j c s')" by (simp add: shifts_def)
  with assms(7) show ?thesis by blast
qed

lemma ends_worker:
  assumes "i < length (workers s)" and "wopen (workers s ! i) = {#e#}" and "wopen w = {#}"
    and "env_promise e = Some p" and "pending (chans s) p"
  shows "ends e p r (In_state Running) s (set_worker i w (s\<lparr>chans := fulfil p r (chans s)\<rparr>))"
proof -
  have "holds c s = holds c (set_worker i w (s\<lparr>chans := fulfil p r (chans s)\<rparr>))
      + (if c = In_state Running then {#e#} else {#})" for c
    using holds_worker [of i "s\<lparr>chans := fulfil p r (chans s)\<rparr>" c w] assms by (auto split: if_splits)
  with assms show ?thesis by (simp add: ends_def)
qed

lemma ends_caller:
  assumes "j < length (callers s)" and "cdiscard (callers s ! j) = add_mset e (cdiscard c)"
    and "csubmit (callers s ! j) = csubmit c" and "env_promise e = Some p" and "pending (chans s) p"
  shows "ends e p r Discarded s (set_caller j c (s\<lparr>chans := fulfil p r (chans s)\<rparr>))"
proof -
  have "holds x s = holds x (set_caller j c (s\<lparr>chans := fulfil p r (chans s)\<rparr>))
      + (if x = Discarded then {#e#} else {#})" for x
    using holds_caller [of j "s\<lparr>chans := fulfil p r (chans s)\<rparr>" x c] assms by (auto split: if_splits)
  with assms show ?thesis by (simp add: ends_def)
qed

lemma worker_life:
  assumes own: "own_inv s" and i: "i < length (workers s)" and st: "worker_step execute i s = Some s'"
  shows "(\<exists>X. shifts X (In_state Queued) (In_state Running) s s')
    \<or> (\<exists>e p r. ends e p r (In_state Running) s s' \<and> res_state r \<in> {Succeeded, Failed})"
  using own i st
proof (cases rule: worker_step_cases)
  case (exits q)
  then have "q = p_queue s" by (auto simp: queue_defs split: if_splits list.splits)
  with exits i shifts_worker [of s "s\<lparr>p_queue := q\<rparr>" i "{#}" WExit] show ?thesis
    by (auto simp: same_threads_def)
next
  case (takes e q)
  then have "q_items (p_queue s) = e # q_items q" by (auto simp: queue_defs split: if_splits list.splits)
  with takes i shifts_worker [of s "s\<lparr>p_queue := q\<rparr>" i "{#e#}" "WStart e"] show ?thesis
    by (auto simp: same_threads_def)
next
  case (stamps e)
  with i shifts_worker [of s s i "{#}" "WRun e (clock s)"] show ?thesis by (auto simp: same_threads_def)
next
  case (runs e deq p)
  have "res_state (run_result execute deq (clock s) e) \<in> {Succeeded, Failed}"
    by (simp add: run_result_state)
  with runs i ends_worker show ?thesis by (metis wopen.simps(2) wopen.simps(4))
next
  case (records e smp)
  with i shifts_worker [of s "s\<lparr>p_samples := (p_samples s)[i := p_samples s ! i @ [smp]]\<rparr>" i "{#}" WPop]
  show ?thesis by (auto simp: same_threads_def)
qed

lemma caller_life:
  assumes own: "own_inv s" and j: "j < length (callers s)" and st: "caller_step j s = Some s'"
  shows "(\<exists>X a b. shifts X a b s s' \<and> stage_edge a b)
    \<or> (\<exists>e p r. ends e p r Discarded s s' \<and> res_state r = Rejected)"
  using own j st
proof (cases rule: caller_step_cases)
  case (accepted e q)
  then have "q_items q = q_items (p_queue s) @ [e]" by (auto simp: queue_defs split: if_splits)
  with accepted j have "\<exists>X a b. shifts X a b s s' \<and> stage_edge a b"
    by (auto simp: same_threads_def edge_accept
        intro!: shifts_caller [where X = "{#e#}" and a = Offered and b = "In_state Queued"])
  then show ?thesis ..
next
  case (refused e q)
  then have "q = p_queue s" by (auto simp: queue_defs split: if_splits)
  with refused j have "\<exists>X a b. shifts X a b s s' \<and> stage_edge a b"
    by (auto simp: same_threads_def edge_refuse
        intro!: shifts_caller [where X = "{#e#}" and a = Offered and b = Discarded])
  then show ?thesis ..
next
  case (drains ds q)
  then have "q_items q = []" "ds = q_items (p_queue s)" by (auto simp: queue_defs)
  with drains j have "\<exists>X a b. shifts X a b s s' \<and> stage_edge a b"
    by (auto simp: same_threads_def edge_discard
        intro!: shifts_caller [where X = "mset ds" and a = "In_state Queued" and b = Discarded])
  then show ?thesis ..
next
  case (rejects e p)
  with j show ?thesis by (metis ends_caller cdiscard.simps(1) cdiscard.simps(6) csubmit.simps(3,4) rejected_state)
next
  case (discards f rs e es p)
  with j show ?thesis
    by (metis ends_caller cdiscard.simps(3) csubmit.simps(8) mset.simps(2) rejected_state)
qed (use j in \<open>auto simp: same_threads_def close_def edge_refuse
       intro!: shifts_caller [where X = "{#}" and a = Offered and b = Discarded]\<close>)

lemma submit_life:
  assumes own: "own_inv s" and t: "own_inv t" and j: "j < length (callers s)" and "callers s ! j = CIdle"
    and st: "enter_submit j i task s = Some t"
  shows "stage t p = stage s p \<or> stage_edge (stage s p) (stage t p)"
proof -
  let ?e = "\<lparr>env_id = i, env_task = Some task, env_submitted = clock s, env_promise = Some (length (chans s))\<rparr>"
  let ?s = "s\<lparr>chans := chans s @ [fresh_channel\<lparr>ch_retrieved := True\<rparr>]\<rparr>"
  have eq: "t = set_caller j (CPush ?e) ?s" using st by (simp add: enter_submit_eq)
  have "holds c t = holds c s + (if c = Offered then {#?e#} else {#})" for c
    using holds_caller [of j ?s c "CPush ?e"] assms(3,4) by (auto simp: eq split: if_splits)
  then have "tags c t = tags c s + (if c = Offered then {#length (chans s)#} else {#})" for c
    by (simp add: tags_def)
  from opens_stage [OF own t _ this] have "stage t p = (if p = length (chans s) then Offered else stage s p)"
    by (simp add: eq)
  then show ?thesis using edge_submit by (auto simp: stage_def)
qed

lemma run_life:
  assumes own: "own_inv s" and t: "own_inv t" and st: "pool_run execute s t"
  shows "stage t p = stage s p \<or> stage_edge (stage s p) (stage t p)"
proof -
  have shift: ?thesis if "shifts X a b s t" "stage_edge a b" for X a b
    using shifts_stage [OF own t that(1), of p] that(2) by auto
  have "ends e q r a s t \<Longrightarrow> stage_edge a (In_state (res_state r)) \<Longrightarrow> ?thesis" for e q r a
    using ends_stage [OF own t] by (cases "p = q") metis+
  moreover have "(\<exists>X a b. shifts X a b s t \<and> stage_edge a b)
      \<or> (\<exists>e q r a. ends e q r a s t \<and> stage_edge a (In_state (res_state r)))"
    using st
  proof cases
    case (run_worker i)
    with worker_life [OF own, of i execute t] show ?thesis
      by (metis edge_start edge_succeed edge_fail insertE emptyE)
  next
    case (run_caller j)
    with caller_life [OF own, of j t] show ?thesis by (metis edge_reject)
  qed
  ultimately show ?thesis using shift by blast
qed

lemma call_life:
  assumes "own_inv s" and "own_inv t" and "t = set_caller j c s" and "j < length (callers s)"
    and "callers s ! j = CIdle" and "c = CClose \<or> c = CDrain"
  shows "stage t p = stage s p"
proof -
  have "holds x t = holds x s" for x using holds_caller [of j s x c] assms(3-6) by (auto split: if_splits)
  then have "shifts {#} Offered Offered s t" using assms(3) by (simp add: shifts_def)
  from shifts_stage [OF assms(1,2) this, of p] show ?thesis by auto
qed

interpretation life: refinement pool_init "pool_step execute" own_inv
  "\<lambda>x. x = Unissued" stage_edge "\<lambda>s. stage s p" for execute p
proof
  show "stage s p = Unissued" if "pool_init s" for s :: "'a system"
    using pool_init_fresh [OF that] by (simp add: stage_def fresh_system_def)
  show "stage t p = stage s p \<or> stage_edge (stage s p) (stage t p)"
    if own: "own_inv s" and st: "pool_step execute s t" for s t :: "'a system"
  proof -
    have t: "own_inv t" using own.inv_step [OF own st] .
    from st show ?thesis
    proof cases
      case step_run
      then show ?thesis by (rule run_life [OF own t])
    next
      case (step_submit j i task)
      with submit_life [OF own t] show ?thesis by blast
    next
      case (step_tick now)
      then have "shifts {#} Offered Offered s t" by (simp add: shifts_def)
      from shifts_stage [OF own t this, of p] show ?thesis by auto
    qed (use call_life [OF own t] in blast)+
  qed
qed

text \<open>Where a task can still get to.\<close>

lemma stage_edge_terminal: "stage_edge\<^sup>*\<^sup>* (In_state x) y \<Longrightarrow> is_terminal x \<Longrightarrow> y = In_state x"
  by (erule converse_rtranclpE) (auto simp: stage_edge_from is_terminal_def)

lemma stage_edge_running:
  "stage_edge\<^sup>*\<^sup>* (In_state Running) y \<Longrightarrow> y \<in> {In_state Running, In_state Succeeded, In_state Failed}"
  by (induction rule: rtranclp_induct) (auto simp: stage_edge_from)

lemma stage_edge_discarded: "stage_edge\<^sup>*\<^sup>* Discarded y \<Longrightarrow> y \<in> {Discarded, In_state Rejected}"
  by (induction rule: rtranclp_induct) (auto simp: stage_edge_from)

section \<open>The order of tasks\<close>

text \<open>The items a consumer took, and the items a drain returned.\<close>

fun taken :: "'a queue_event \<Rightarrow> 'a list" where
  "taken (Take v) = [v]"
| "taken _ = []"

fun drained :: "'a queue_event \<Rightarrow> 'a list" where
  "drained (Drain vs) = vs"
| "drained _ = []"

context closable_queue
begin

lemma nothing_when_finished:
  "valid q \<Longrightarrow> shut q \<Longrightarrow> contents q = [] \<Longrightarrow> replays q_push q_pop q_close q_drain q es = Some q' \<Longrightarrow>
     concat (map accepted es) = [] \<and> concat (map taken es) = [] \<and> concat (map drained es) = []
     \<and> contents q' = []"
proof (induction es arbitrary: q)
  case (Cons e es)
  then obtain r where r: "replay q_push q_pop q_close q_drain q e = Some r"
    and rest: "replays q_push q_pop q_close q_drain r es = Some q'"
    by (auto split: option.splits)
  have v: "valid r" "shut r" using replay_valid [OF Cons.prems(1) r] Cons.prems(2) by simp_all
  have a: "accepted e = []" using nothing_after_close [OF Cons.prems(1,2), of "[e]" r] r by simp
  with replay_fifo [OF Cons.prems(1) r] Cons.prems(3) have "removed e = []" "contents r = []" by simp_all
  with a Cons.IH [OF v _ rest] show ?case by (cases e) auto
qed simp

lemma replays_order:
  "valid q \<Longrightarrow> replays q_push q_pop q_close q_drain q es = Some q' \<Longrightarrow>
     contents q @ concat (map accepted es)
       = concat (map taken es) @ concat (map drained es) @ contents q'"
proof (induction es arbitrary: q)
  case (Cons e es)
  then obtain r where r: "replay q_push q_pop q_close q_drain q e = Some r"
    and rest: "replays q_push q_pop q_close q_drain r es = Some q'"
    by (auto split: option.splits)
  have v: "valid r" using replay_valid [OF Cons.prems(1) r] by simp
  have one: "contents q @ accepted e = removed e @ contents r"
    using replay_fifo [OF Cons.prems(1) r] .
  note ih = Cons.IH [OF v rest]
  show ?case
  proof (cases "\<exists>vs. e = Drain vs")
    case True
    then obtain vs where e: "e = Drain vs" ..
    then have "shut r" "contents r = []"
      using r drain_law [OF Cons.prems(1)] by (auto split: prod.splits if_splits)
    with nothing_when_finished [OF v _ _ rest] one e show ?thesis
      by (simp del: concat_eq_Nil_conv)
  next
    case False
    then have "removed e = taken e" "drained e = []" by (cases e; simp)+
    then show ?thesis using ih one by simp (metis append.assoc)
  qed
qed simp

end

text \<open>The call on the queue that an action of the pool makes, if it makes one.\<close>

fun observe :: "'t action \<Rightarrow> 't system \<Rightarrow> 't envelope queue_event list" where
  "observe (Work i) s =
     (case workers s ! i of
        WPop \<Rightarrow>
          (case pop (p_queue s) of
             Some (Some e, q) \<Rightarrow> [Take e] | Some (None, q) \<Rightarrow> [Finish] | None \<Rightarrow> [])
      | _ \<Rightarrow> [])"
| "observe (Proceed j) s =
     (case callers s ! j of
        CPush e \<Rightarrow>
          (case push e (p_queue s) of
             Some (True, q) \<Rightarrow> [Accept e] | Some (False, q) \<Rightarrow> [Refuse e] | None \<Rightarrow> [])
      | CClose \<Rightarrow> [Close]
      | CDrain \<Rightarrow> [Drain (fst (close_and_drain (p_queue s)))]
      | _ \<Rightarrow> [])"
| "observe _ s = []"

fun observes :: "('t \<Rightarrow> exec_outcome) \<Rightarrow> 't action list \<Rightarrow> 't system \<Rightarrow> 't envelope queue_event list" where
  "observes execute [] s = []"
| "observes execute (a # as) s =
     (case act execute a s of None \<Rightarrow> [] | Some s' \<Rightarrow> observe a s @ observes execute as s')"

lemma replays_append:
  "replays pu po cl dr q (es @ fs) =
     (case replays pu po cl dr q es of None \<Rightarrow> None | Some r \<Rightarrow> replays pu po cl dr r fs)"
  by (induction es arbitrary: q) (auto split: option.splits)

lemma act_replays:
  assumes "act execute a s = Some t"
  shows "replays push pop close close_and_drain (p_queue s) (observe a s) = Some (p_queue t)"
proof (cases a)
  case (Work i)
  with assms show ?thesis
    by (auto simp: worker_step_def crash_def split: if_splits worker.splits option.splits prod.splits sum.splits)
next
  case (Proceed j)
  with assms have st: "caller_step j s = Some t" by (simp split: if_splits)
  show ?thesis
  proof (cases "callers s ! j")
    case (CDiscard f rs es)
    with st Proceed show ?thesis
      by (cases es) (auto simp: caller_step_def shutdown_now_step_def crash_def split: sum.splits)
  qed (use st Proceed in \<open>auto simp: caller_step_def submit_step_def shutdown_step_def
         shutdown_now_step_def join_step_def crash_def
         split: option.splits prod.splits bool.splits sum.splits if_splits\<close>)
qed (use assms in \<open>auto simp: enter_submit_eq split: if_splits\<close>)

lemma acts_replays:
  "acts execute as s = Some t \<Longrightarrow>
     replays push pop close close_and_drain (p_queue s) (observes execute as s) = Some (p_queue t)"
proof (induction as arbitrary: s)
  case (Cons a as)
  then obtain s' where "act execute a s = Some s'" "acts execute as s' = Some t"
    by (auto split: option.splits)
  with Cons.IH act_replays [of execute a s s'] show ?case by (simp add: replays_append)
qed simp

section \<open>Who writes the sample buffers\<close>

lemma worker_step_samples:
  assumes "own_inv s" and "i < length (workers s)" and "worker_step execute i s = Some t"
  shows "p_joined t = p_joined s \<and>
    (p_samples t = p_samples s
     \<or> (\<exists>e smp. workers s ! i = WRecord e smp \<and> p_samples t = (p_samples s)[i := p_samples s ! i @ [smp]]))"
  using assms by (cases rule: worker_step_cases) auto

lemma caller_step_samples:
  assumes "own_inv s" and "j < length (callers s)" and "caller_step j s = Some t"
  shows "p_samples t = p_samples s \<and> (p_joined s \<longrightarrow> p_joined t)"
  using assms by (cases rule: caller_step_cases) auto

lemma act_samples:
  assumes "own_inv s" and "act execute a s = Some t"
  shows "(p_joined s \<longrightarrow> p_joined t) \<and>
    (p_samples t = p_samples s
     \<or> (\<exists>i e smp. a = Work i \<and> i < length (workers s) \<and> workers s ! i = WRecord e smp
          \<and> p_samples t = (p_samples s)[i := p_samples s ! i @ [smp]]))"
proof (cases a)
  case (Work i)
  with assms worker_step_samples [OF assms(1), of i execute t] show ?thesis by (auto split: if_splits)
next
  case (Proceed j)
  with assms caller_step_samples [OF assms(1), of j t] show ?thesis by (auto split: if_splits)
qed (use assms in \<open>auto simp: enter_submit_eq split: if_splits\<close>)

section \<open>Properties\<close>

text \<open>
  C7: The life of a task: seen from any future, whatever the interleaving, a run of the pool moves
  its task along the documented state machine (submitting, then queued or refused; queued, then
  running or discarded; running, then succeeded or failed; refused or discarded, then rejected). So
  a task that a worker has taken ends succeeded or failed and is never rejected, not even by
  \<open>shutdown_now\<close>; one that was discarded is never run; and a terminal state is final.
\<close>

theorem task_lifecycle:
  assumes "reach pool_init (pool_step execute) s" and "(pool_step execute)\<^sup>*\<^sup>* s t"
  shows "stage_edge\<^sup>*\<^sup>* Unissued (stage s p) \<and> stage_edge\<^sup>*\<^sup>* (stage s p) (stage t p)
     \<and> (stage s p = In_state Running \<longrightarrow>
          stage t p \<in> {In_state Running, In_state Succeeded, In_state Failed})
     \<and> (stage s p = Discarded \<longrightarrow> stage t p \<in> {Discarded, In_state Rejected})
     \<and> (\<forall>x. stage s p = In_state x \<longrightarrow> is_terminal x \<longrightarrow> stage t p = In_state x)"
proof -
  have st: "stage_edge\<^sup>*\<^sup>* (stage s p) (stage t p)"
    using life.view_steps [OF assms(2) own.inv_reach [OF assms(1)]] .
  have "stage_edge\<^sup>*\<^sup>* Unissued (stage s p)"
    using life.view_reach [OF assms(1), of p] by (induction rule: reach.induct) auto
  with st stage_edge_terminal stage_edge_running stage_edge_discarded show ?thesis by metis
qed

text \<open>In the example run the only task has succeeded, and a shutdown does not change that.\<close>

theorem task_lifecycle_witness:
  "stage_edge\<^sup>*\<^sup>* Unissued (In_state Succeeded) \<and> stage (demo_end (CLeave [])) 0 = In_state Succeeded"
proof -
  have "stage demo_after 0 = In_state Succeeded"
    by (simp add: stage_def demo_after_def pool.defs succeeded_def)
  with task_lifecycle [OF demo_after_reach acts_steps [OF demo_end_acts], of 0] show ?thesis
    by (auto simp: is_terminal_def)
qed

text \<open>
  C8: Tasks start in the order in which they were accepted: in every run of a new pool, the tasks
  the queue accepted are exactly those the workers took, in the order they took them, then those a
  drain discarded, then those still waiting; none is lost, duplicated or overtaken.
\<close>

theorem tasks_start_in_order:
  assumes "make_pool spawn wc cap = Inr pl"
    and "acts execute as (start_system pl n now) = Some t"
    and "es = observes execute as (start_system pl n now)"
  shows "concat (map accepted es)
    = concat (map taken es) @ concat (map drained es) @ q_items (p_queue t)"
proof -
  have "pool_init (start_system pl n now)" 
    using assms(1) unfolding pool_init_def by blast
  then have "queue_ok (p_queue (start_system pl n now))" "q_items (p_queue (start_system pl n now)) = []"
    using fresh_queue pool_init_fresh by blast+
  with bq.replays_order [OF _ acts_replays [OF assms(2)]] assms(3) show ?thesis by simp
qed

text \<open>Two tasks accepted, the first one started, the second one discarded.\<close>

definition order_trace :: "bool action list" where
  "order_trace = [Call_submit 0 1 True, Proceed 0, Work 0, Call_submit 0 2 True, Proceed 0,
     Call_shutdown_now 1, Proceed 1]"

definition order_events :: "bool envelope queue_event list" where
  "order_events = observes demo_execute order_trace (start_system demo_pool 2 0)"

theorem tasks_start_in_order_witness:
  "concat (map accepted order_events) = concat (map taken order_events) @ concat (map drained order_events)
     \<and> map env_id (concat (map taken order_events)) = [1]
     \<and> map env_id (concat (map drained order_events)) = [2]"
proof -
  note defs = order_trace_def start_system_def pool.defs demo_pool_def idle_def enter_submit_def
    make_envelope_def get_future_def fresh_channel_def caller_step_def submit_step_def
    shutdown_now_step_def worker_step_def queue_defs destroy_def moved_from_def set_worker_def
    set_caller_def numeral_2_eq_2
  obtain t where t: "acts demo_execute order_trace (start_system demo_pool 2 0) = Some t"
    and q: "q_items (p_queue t) = []" by (simp add: defs)
  have "map env_id (concat (map taken order_events)) = [1]"
    "map env_id (concat (map drained order_events)) = [2]" by (simp_all add: order_events_def defs)
  with tasks_start_in_order [OF make_demo_pool t order_events_def] q show ?thesis by simp
qed

text \<open>
  C9: The sample buffers need no lock: in every step of a run the buffer of worker \<open>k\<close> is left
  alone unless the step is worker \<open>k\<close> itself appending the sample of the task it has just run; once
  the workers are joined no step writes any buffer, so what \<open>collect_samples\<close> returns never
  changes again; and at no time are two callers inside the join loop.
\<close>

theorem samples_single_writer:
  assumes "reach pool_init (pool_step execute) s" and "act execute a s = Some t"
  shows "length (p_samples t) = length (p_samples s)
     \<and> (\<forall>k < length (p_samples s). p_samples t ! k = p_samples s ! k
          \<or> a = Work k \<and> (\<exists>e smp. workers s ! k = WRecord e smp
               \<and> p_samples t ! k = p_samples s ! k @ [smp]))
     \<and> (workers_joined s \<longrightarrow> workers_joined t \<and> collect_samples t = collect_samples s)
     \<and> (\<forall>j < length (callers s). \<forall>k < length (callers s).
          joining (callers s ! j) \<longrightarrow> joining (callers s ! k) \<longrightarrow> j = k)"
proof -
  note inv = reach_full [OF assms(1)]
  note sm = act_samples [OF inv(1) assms(2)]
  have "p_samples t = p_samples s" if j: "p_joined s"
    using sm joined_queue(1) [OF inv(4) j] by (metis nth_mem worker.distinct(19))
  moreover have "\<forall>j < length (callers s). \<forall>k < length (callers s).
      joining (callers s ! j) \<longrightarrow> joining (callers s ! k) \<longrightarrow> j = k"
    using inv(4) unfolding shut_inv_def by (metis option.inject)
  moreover have "length (p_samples t) = length (p_samples s)" using sm by auto
  moreover have "p_samples t ! k = p_samples s ! k
      \<or> a = Work k \<and> (\<exists>e smp. workers s ! k = WRecord e smp \<and> p_samples t ! k = p_samples s ! k @ [smp])"
    if "k < length (p_samples s)" for k
    using sm that by (auto simp: nth_update split: if_splits)
  ultimately show ?thesis using sm by (simp add: workers_joined_def collect_samples_def)
qed

theorem samples_single_writer_witness:
  "\<exists>t. act demo_execute (Work 0) demo_after = Some t \<and> length (p_samples t) = 1
     \<and> p_samples t ! 0 = p_samples demo_after ! 0 @ [demo_sample]"
proof -
  obtain t where t: "act demo_execute (Work 0) demo_after = Some t"
    and smp: "p_samples t ! 0 = p_samples demo_after ! 0 @ [demo_sample]"
    by (simp add: demo_after_def pool.defs demo_pool_def worker_step_def demo_sample_def)
  have "length (p_samples demo_after) = 1" by (simp add: demo_after_def pool.defs demo_pool_def)
  with samples_single_writer [OF demo_after_reach t] t smp show ?thesis by simp
qed

end
