(* ===== verification/Run_Summary.thy ===== *)
theory Run_Summary
  imports Task_Core "HOL-Library.Signed_Division"
begin

text \<open>
  The metrics of \<open>metrics/run_summary.hpp\<close> and \<open>run_summary.cpp\<close>: nearest-rank percentiles,
  the distribution of one duration, and the summary of a run. Counters are 64-bit words and the
  percentile arithmetic is done in words as in the code, so that where it could wrap is part of the
  statements. Durations are integers; \<open>total_in_range\<close> says when no partial sum leaves the range
  of the 64-bit representation.
\<close>

section \<open>Percentiles\<close>

definition nearest_rank_index :: "32 word \<Rightarrow> size_t \<Rightarrow> size_t" where
  "nearest_rank_index percent n =
     (if n = 0 then 0
      else let rank = (ucast percent * n + 99) div 100;
               clamped = min (max rank 1) n
           in clamped - 1)"

section \<open>The distribution of one duration\<close>

record duration_stats =
  ds_count :: size_t
  ds_min :: duration
  ds_p50 :: duration
  ds_p95 :: duration
  ds_max :: duration
  ds_total :: duration

definition empty_stats :: duration_stats where
  "empty_stats = \<lparr>ds_count = 0, ds_min = 0, ds_p50 = 0, ds_p95 = 0, ds_max = 0, ds_total = 0\<rparr>"

text \<open>The accumulation loop.\<close>

fun add_up :: "duration list \<Rightarrow> duration \<Rightarrow> duration" where
  "add_up [] acc = acc"
| "add_up (value # values) acc = add_up values (acc + value)"

definition stats_from :: "duration list \<Rightarrow> duration_stats" where
  "stats_from values =
     (let stats = empty_stats\<lparr>ds_count := of_nat (length values)\<rparr>
      in if values = [] then stats
         else let sorted = sort values; n = of_nat (length sorted)
              in stats\<lparr>ds_min := hd sorted, ds_max := last sorted,
                       ds_p50 := sorted ! unat (nearest_rank_index 50 n),
                       ds_p95 := sorted ! unat (nearest_rank_index 95 n),
                       ds_total := add_up sorted 0\<rparr>)"

text \<open>The cast to the signed representation and the truncating division of C++.\<close>

definition mean :: "duration_stats \<Rightarrow> duration" where
  "mean stats = (if ds_count stats = 0 then 0 else ds_total stats sdiv sint (ds_count stats))"

section \<open>The summary of a run\<close>

record run_summary =
  rs_total :: size_t
  rs_succeeded :: size_t
  rs_failed :: size_t
  rs_rejected :: size_t
  rs_queue_wait :: duration_stats
  rs_execution_time :: duration_stats
  rs_total_latency :: duration_stats

fun count_sample :: "task_state \<Rightarrow> run_summary \<Rightarrow> run_summary" where
  "count_sample Succeeded s = s\<lparr>rs_succeeded := rs_succeeded s + 1\<rparr>"
| "count_sample Failed s = s\<lparr>rs_failed := rs_failed s + 1\<rparr>"
| "count_sample Rejected s = s\<lparr>rs_rejected := rs_rejected s + 1\<rparr>"
| "count_sample Queued s = s"
| "count_sample Running s = s"

fun summarize_loop ::
    "sample list \<Rightarrow> run_summary \<times> duration list \<times> duration list \<times> duration list \<Rightarrow>
     run_summary \<times> duration list \<times> duration list \<times> duration list" where
  "summarize_loop [] acc = acc"
| "summarize_loop (smp # smps) (s, waits, executions, latencies) =
     summarize_loop smps
       (count_sample (smp_state smp) s, waits @ [queue_wait (smp_timings smp)],
        executions @ [execution_time (smp_timings smp)],
        latencies @ [total_latency (smp_timings smp)])"

definition summarize :: "sample list \<Rightarrow> size_t \<Rightarrow> run_summary" where
  "summarize samples rejects =
     (let start = \<lparr>rs_total = of_nat (length samples) + rejects, rs_succeeded = 0, rs_failed = 0,
                   rs_rejected = rejects, rs_queue_wait = empty_stats,
                   rs_execution_time = empty_stats, rs_total_latency = empty_stats\<rparr>
      in case summarize_loop samples (start, [], [], []) of (s, waits, executions, latencies) \<Rightarrow>
           s\<lparr>rs_queue_wait := stats_from waits, rs_execution_time := stats_from executions,
             rs_total_latency := stats_from latencies\<rparr>)"

section \<open>Percentile arithmetic\<close>

lemma unat_ucast_32: "unat (ucast (p :: 32 word) :: u64) = unat p"
  using unsigned_less [of p, where ?'a = nat]
  by (simp add: unsigned_ucast_eq take_bit_nat_eq_self)

text \<open>The least rank that covers the percentage, in unbounded arithmetic.\<close>

definition rank_of :: "nat \<Rightarrow> nat \<Rightarrow> nat" where
  "rank_of percent n = min (max ((percent * n + 99) div 100) 1) n - 1"

lemma unat_nearest_rank:
  assumes "unat percent * unat n + 99 < 2 ^ 64"
  shows "unat (nearest_rank_index percent n) = rank_of (unat percent) (unat n)"
proof (cases "n = 0")
  case True
  then show ?thesis by (simp add: nearest_rank_index_def rank_of_def)
next
  case False
  let ?r = "(ucast percent * n + 99) div 100 :: u64"
  have "unat (ucast percent * n :: u64) = unat percent * unat n"
    using assms by (simp add: unat_ucast_32 unat_word_ariths)
  then have "unat (ucast percent * n + 99 :: u64) = unat percent * unat n + 99"
    using assms by (simp add: unat_word_ariths)
  then have r: "unat ?r = (unat percent * unat n + 99) div 100" by (simp add: unat_div)
  have "unat (min (max ?r 1) n) = min (max (unat ?r) 1) (unat n)"
    by (simp add: min_def max_def word_le_nat_alt)
  moreover have "1 \<le> min (max ?r 1) n" using False by (simp add: word_le_nat_alt unat_gt_0 Suc_leI min_def max_def)
  ultimately show ?thesis
    using False r by (simp add: nearest_rank_index_def rank_of_def Let_def unat_sub)
qed

text \<open>
  Whatever the arguments, even where the product wraps, the index is in range: this is what makes
  the subscripts in \<open>stats_from\<close> safe.
\<close>

lemma nearest_rank_in_range: "n \<noteq> 0 \<Longrightarrow> nearest_rank_index percent n < n"
proof -
  assume "n \<noteq> 0"
  let ?c = "min (max ((ucast percent * n + 99) div 100) 1) n"
  have "1 \<le> ?c" using \<open>n \<noteq> 0\<close>
    by (simp add: word_le_nat_alt unat_gt_0 Suc_leI min_def max_def)
  moreover have "?c \<le> n" by (rule min.cobounded2)
  ultimately have "unat (?c - 1) = unat ?c - 1" "1 \<le> unat ?c" "unat ?c \<le> unat n"
    by (simp_all add: unat_sub word_le_nat_alt)
  then have "unat (?c - 1) < unat n" by linarith
  with \<open>n \<noteq> 0\<close> show ?thesis by (simp add: nearest_rank_index_def Let_def word_less_nat_alt)
qed

lemma rank_of_le: "0 < n \<Longrightarrow> rank_of p n < n"
  by (auto simp: rank_of_def)

lemma rank_of_mono: "p \<le> q \<Longrightarrow> rank_of p n \<le> rank_of q n"
proof -
  assume "p \<le> q"
  then have "(p * n + 99) div 100 \<le> (q * n + 99) div 100" by (intro div_le_mono) simp
  then show ?thesis unfolding rank_of_def by (intro diff_le_mono min.mono max.mono) simp_all
qed

text \<open>The rank is the least one whose share of the sample reaches the percentage.\<close>

lemma rank_of_covers:
  assumes "0 < n" and "p \<le> 100"
  shows "p * n \<le> 100 * Suc (rank_of p n)"
proof -
  have "p * n \<le> 100 * n" using assms(2) by simp
  moreover have "p * n \<le> 100 * ((p * n + 99) div 100)" by linarith
  ultimately show ?thesis using assms(1) by (auto simp: rank_of_def min_def max_def)
qed

lemma rank_of_least:
  assumes "k < rank_of p n"
  shows "100 * Suc k < p * n"
proof -
  have "Suc k < (p * n + 99) div 100" using assms by (auto simp: rank_of_def min_def max_def split: if_splits)
  then have "Suc (Suc k) * 100 \<le> p * n + 99" by (simp add: less_eq_div_iff_mult_less_eq Suc_le_eq [symmetric])
  then show ?thesis by simp
qed

lemma sorted_prefix_le:
  assumes "sorted xs" and "i < length xs"
  shows "Suc i \<le> card {j. j < length xs \<and> xs ! j \<le> xs ! i}"
proof -
  have "{..i} \<subseteq> {j. j < length xs \<and> xs ! j \<le> xs ! i}"
    using assms by (auto intro: sorted_nth_mono)
  then have "card {..i} \<le> card {j. j < length xs \<and> xs ! j \<le> xs ! i}" by (intro card_mono) auto
  then show ?thesis by simp
qed

lemma sorted_prefix_less:
  assumes "sorted xs" and "i < length xs"
  shows "card {j. j < length xs \<and> xs ! j < xs ! i} \<le> i"
proof -
  have "{j. j < length xs \<and> xs ! j < xs ! i} \<subseteq> {..<i}"
    using assms sorted_nth_mono [OF assms(1), of i] by (auto simp: not_less [symmetric])
  then have "card {j. j < length xs \<and> xs ! j < xs ! i} \<le> card {..<i}" by (intro card_mono) auto
  then show ?thesis by simp
qed

section \<open>The loops\<close>

lemma add_up_sum: "add_up vs acc = acc + sum_list vs"
  by (induction vs arbitrary: acc) (simp_all add: algebra_simps)

lemma sum_list_sort: "sum_list (sort xs) = sum_list (xs :: int list)"
  by (metis mset_sort sum_mset_sum_list)

definition count_of :: "task_state \<Rightarrow> sample list \<Rightarrow> nat" where
  "count_of st smps = length (filter (\<lambda>smp. smp_state smp = st) smps)"

lemma count_of_Cons: "count_of st (smp # smps) = (if smp_state smp = st then 1 else 0) + count_of st smps"
  by (simp add: count_of_def)

lemma count_of_Nil [simp]: "count_of st [] = 0"
  by (simp add: count_of_def)

lemma summarize_loop_eq:
  "summarize_loop smps (s, ws, es, ls) =
     (s\<lparr>rs_succeeded := rs_succeeded s + of_nat (count_of Succeeded smps),
        rs_failed := rs_failed s + of_nat (count_of Failed smps),
        rs_rejected := rs_rejected s + of_nat (count_of Rejected smps)\<rparr>,
      ws @ map (queue_wait \<circ> smp_timings) smps, es @ map (execution_time \<circ> smp_timings) smps,
      ls @ map (total_latency \<circ> smp_timings) smps)"
proof (induction smps arbitrary: s ws es ls)
  case Nil
  then show ?case by simp
next
  case (Cons smp smps)
  then show ?case by (cases "smp_state smp") (simp_all add: count_of_Cons algebra_simps)
qed

lemma summarize_eq:
  "summarize smps rejects =
     \<lparr>rs_total = of_nat (length smps) + rejects, rs_succeeded = of_nat (count_of Succeeded smps),
      rs_failed = of_nat (count_of Failed smps), rs_rejected = rejects + of_nat (count_of Rejected smps),
      rs_queue_wait = stats_from (map (queue_wait \<circ> smp_timings) smps),
      rs_execution_time = stats_from (map (execution_time \<circ> smp_timings) smps),
      rs_total_latency = stats_from (map (total_latency \<circ> smp_timings) smps)\<rparr>"
  by (simp add: summarize_def summarize_loop_eq Let_def)

lemma count_of_total:
  "length smps = count_of Succeeded smps + count_of Failed smps + count_of Rejected smps
     + length (filter (\<lambda>smp. \<not> is_terminal (smp_state smp)) smps)"
proof (induction smps)
  case (Cons smp smps)
  then show ?case by (cases "smp_state smp") (simp_all add: count_of_Cons is_terminal_def)
qed simp

lemma count_of_mset: "mset smps = mset smps' \<Longrightarrow> count_of st smps = count_of st smps'"
  unfolding count_of_def by (metis mset_filter size_mset)

lemma stats_from_mset: "mset xs = mset ys \<Longrightarrow> stats_from xs = stats_from ys"
proof -
  assume "mset xs = mset ys"
  then have "sort xs = sort ys" "length xs = length ys" "(xs = []) = (ys = [])"
    by (metis properties_for_sort mset_sort sorted_sort, metis size_mset, metis mset_zero_iff)
  then show ?thesis by (simp only: stats_from_def Let_def)
qed

lemma stats_from_nonempty:
  assumes "xs \<noteq> []" and "length xs < 2 ^ 64"
  shows "stats_from xs = \<lparr>ds_count = of_nat (length xs), ds_min = hd (sort xs),
      ds_p50 = sort xs ! unat (nearest_rank_index 50 (of_nat (length xs))),
      ds_p95 = sort xs ! unat (nearest_rank_index 95 (of_nat (length xs))),
      ds_max = last (sort xs), ds_total = sum_list xs\<rparr>"
  using assms by (simp add: stats_from_def Let_def empty_stats_def add_up_sum sum_list_sort)

lemma stats_from_nonneg:
  assumes "\<And>x. x \<in> set xs \<Longrightarrow> 0 \<le> x" and "length xs < 2 ^ 64"
  shows "0 \<le> ds_p50 (stats_from xs) \<and> 0 \<le> ds_p95 (stats_from xs)"
proof (cases "xs = []")
  case True
  then show ?thesis by (simp add: stats_from_def empty_stats_def)
next
  case False
  have n: "unat (of_nat (length xs) :: u64) = length xs" using assms(2) by simp
  then have "(of_nat (length xs) :: u64) \<noteq> 0" using False by (metis length_0_conv unat_0)
  then have "unat (nearest_rank_index p (of_nat (length xs))) < length (sort xs)" for p
    using nearest_rank_in_range [of "of_nat (length xs)" p] n by (simp add: word_less_nat_alt)
  then have "sort xs ! unat (nearest_rank_index p (of_nat (length xs))) \<in> set xs" for p
    using nth_mem by (metis set_sort)
  with assms(1) show ?thesis by (simp add: stats_from_nonempty [OF False assms(2)])
qed

lemma last_sorted_ge: "sorted xs \<Longrightarrow> x \<in> set xs \<Longrightarrow> x \<le> last xs"
  by (induction xs) auto

lemma hd_sorted_le: "sorted xs \<Longrightarrow> x \<in> set xs \<Longrightarrow> hd xs \<le> x"
  by (cases xs) auto

lemma sum_list_bounds:
  fixes xs :: "int list"
  assumes "\<And>x. x \<in> set xs \<Longrightarrow> a \<le> x \<and> x \<le> b"
  shows "int (length xs) * a \<le> sum_list xs" and "sum_list xs \<le> int (length xs) * b"
  using assms by (induction xs) (auto simp: algebra_simps add_mono)

lemma sdiv_between:
  fixes a b t :: int
  assumes "0 < n" and "n * a \<le> t" and "t \<le> n * b"
  shows "a \<le> t sdiv n \<and> t sdiv n \<le> b"
proof (cases "0 \<le> t")
  case True
  then have "t sdiv n = t div n" using assms(1) by (simp add: signed_divide_int_def sgn_if)
  with assms zdiv_mono1 [of "n * a" t n] zdiv_mono1 [of t "n * b" n] show ?thesis by simp
next
  case False
  then have "t sdiv n = - ((- t) div n)" using assms(1) by (simp add: signed_divide_int_def sgn_if)
  moreover have "(- b) * n div n \<le> (- t) div n" "(- t) div n \<le> (- a) * n div n"
    using assms by (auto intro!: zdiv_mono1 simp: mult.commute)
  then have "- b \<le> (- t) div n" "(- t) div n \<le> - a"
    using assms(1) nonzero_mult_div_cancel_right [of n "- b"] nonzero_mult_div_cancel_right [of n "- a"]
    by (simp_all only: less_irrefl)
  ultimately show ?thesis by simp
qed

section \<open>Properties\<close>

text \<open>
  C30: The reported percentile is the nearest-rank percentile of the sample: for a percentage
  between 1 and 100 and a sample so small that the product does not wrap, the value at the
  computed index has at least that share of the values at or below it, and strictly less than
  that share strictly below it.
\<close>

theorem percentile_nearest_rank:
  assumes "sorted xs" and "xs \<noteq> []" and "0 < percent" and "percent \<le> 100"
    and "unat percent * length xs + 99 < 2 ^ 64"
  shows "(let v = xs ! unat (nearest_rank_index percent (of_nat (length xs)))
     in unat percent * length xs \<le> 100 * card {j. j < length xs \<and> xs ! j \<le> v}
        \<and> 100 * card {j. j < length xs \<and> xs ! j < v} < unat percent * length xs)"
proof -
  let ?p = "unat percent" and ?n = "length xs"
  let ?i = "rank_of ?p ?n"
  have p: "0 < ?p" "?p \<le> 100" using assms(3,4) by (simp_all add: word_less_nat_alt word_le_nat_alt)
  have n: "0 < ?n" using assms(2) by simp
  have "?n \<le> ?p * ?n" using p(1) by simp
  with assms(5) have "?n < 2 ^ 64" by linarith
  then have idx: "unat (nearest_rank_index percent (of_nat ?n)) = ?i"
    using unat_nearest_rank [of percent "of_nat ?n"] assms(5) by simp
  have i: "?i < ?n" using n by (rule rank_of_le)
  have "100 * ?i < ?p * ?n"
  proof (cases ?i)
    case 0
    with p n show ?thesis by simp
  next
    case (Suc k)
    with rank_of_least [of k ?p ?n] show ?thesis by simp
  qed
  with sorted_prefix_less [OF assms(1) i] rank_of_covers [OF n p(2)] sorted_prefix_le [OF assms(1) i]
  show ?thesis unfolding Let_def idx by (meson le_trans mult_le_mono2 le_less_trans)
qed

theorem percentile_nearest_rank_witness:
  "let xs = [1, 2, 3, 4, 100 :: int]; v = xs ! unat (nearest_rank_index 50 (of_nat (length xs)))
   in v = 3 \<and> unat (50 :: 32 word) * length xs \<le> 100 * card {j. j < length xs \<and> xs ! j \<le> v}"
proof -
  let ?xs = "[1, 2, 3, 4, 100 :: int]"
  have "?xs ! unat (nearest_rank_index 50 (of_nat (length ?xs))) = 3"
    by (simp add: nearest_rank_index_def)
  with percentile_nearest_rank [of ?xs 50] show ?thesis unfolding Let_def by simp
qed

text \<open>
  The subscripts are safe for every argument, also where the product wraps: for a non-empty
  sample the index is below the size; on an empty sample it is 0.
\<close>

theorem nearest_rank_index_safe:
  "nearest_rank_index percent 0 = 0 \<and> (n = 0 \<or> nearest_rank_index percent n < n)"
  using nearest_rank_in_range by (simp add: nearest_rank_index_def)

text \<open>
  The arithmetic is not exact for every size: for \<open>n = 2 ^ 63\<close> the product wraps to zero, and
  the index of the 50th percentile comes out as 0, the minimum, where \<open>ceil (p * n / 100)\<close>
  gives \<open>2 ^ 62 - 1\<close>.
\<close>

theorem nearest_rank_index_wraps:
  "nearest_rank_index 50 (2 ^ 63) = 0 \<and> rank_of 50 (2 ^ 63) = 2 ^ 62 - 1"
  by (simp add: nearest_rank_index_def rank_of_def Let_def)

text \<open>
  C31: The distribution of a non-empty sample is consistent: the count is the number of values,
  minimum, 50th percentile, 95th percentile and maximum are values of the sample in this order, the
  minimum and the maximum bound every value, the total is their sum, and the mean lies between
  minimum and maximum (also for negative values, where the division truncates upwards). An empty
  sample gives all zeroes and a mean of zero.
\<close>

theorem stats_consistent:
  assumes "95 * length xs + 99 < 2 ^ 63"
  shows "if xs = [] then stats_from xs = empty_stats \<and> mean (stats_from xs) = 0
     else unat (ds_count (stats_from xs)) = length xs
       \<and> {ds_min (stats_from xs), ds_p50 (stats_from xs), ds_p95 (stats_from xs), ds_max (stats_from xs)} \<subseteq> set xs
       \<and> ds_min (stats_from xs) \<le> ds_p50 (stats_from xs) \<and> ds_p50 (stats_from xs) \<le> ds_p95 (stats_from xs)
       \<and> ds_p95 (stats_from xs) \<le> ds_max (stats_from xs)
       \<and> (\<forall>x \<in> set xs. ds_min (stats_from xs) \<le> x \<and> x \<le> ds_max (stats_from xs))
       \<and> ds_total (stats_from xs) = sum_list xs
       \<and> ds_min (stats_from xs) \<le> mean (stats_from xs) \<and> mean (stats_from xs) \<le> ds_max (stats_from xs)"
proof (cases "xs = []")
  case True
  then show ?thesis by (simp add: stats_from_def empty_stats_def mean_def)
next
  case False
  let ?n = "length xs" and ?s = "sort xs"
  have n: "0 < ?n" "?n < 2 ^ 63" "?n < 2 ^ 64" using False assms by auto
  have idx: "unat (nearest_rank_index 50 (of_nat ?n)) = rank_of 50 ?n"
      "unat (nearest_rank_index 95 (of_nat ?n)) = rank_of 95 ?n"
    using unat_nearest_rank [of 50 "of_nat ?n"] unat_nearest_rank [of 95 "of_nat ?n"] assms n(3) by simp_all
  note st = stats_from_nonempty [OF False n(3), unfolded idx]
  have ranks: "rank_of 50 ?n \<le> rank_of 95 ?n" "rank_of 50 ?n < ?n" "rank_of 95 ?n < ?n"
    using rank_of_mono rank_of_le n(1) by simp_all
  have nonempty: "?s \<noteq> []" using n(1) by (metis length_sort length_greater_0_conv)
  have mem: "?s ! rank_of 50 ?n \<in> set xs" "?s ! rank_of 95 ?n \<in> set xs" "hd ?s \<in> set xs" "last ?s \<in> set xs"
    using nth_mem [of "rank_of 50 ?n" ?s] nth_mem [of "rank_of 95 ?n" ?s] hd_in_set [of ?s]
      last_in_set [of ?s] nonempty ranks by simp_all
  have bounds: "hd ?s \<le> x \<and> x \<le> last ?s" if "x \<in> set xs" for x
    using that hd_sorted_le [of ?s x] last_sorted_ge [of ?s x] by simp
  have "?s ! rank_of 50 ?n \<le> ?s ! rank_of 95 ?n"
    using ranks by (intro sorted_nth_mono) simp_all
  moreover have "sint (of_nat ?n :: u64) = int ?n"
    using n(2) by (simp add: signed_of_nat signed_take_bit_int_eq_self)
  moreover have "(of_nat ?n :: u64) \<noteq> 0"
    using n by (metis unat_of_nat_u64 unat_0 less_irrefl)
  moreover have "hd ?s \<le> sum_list xs sdiv int ?n \<and> sum_list xs sdiv int ?n \<le> last ?s"
    using sum_list_bounds [OF bounds] n(1) by (intro sdiv_between) simp_all
  ultimately show ?thesis
    using False n(3) mem bounds by (simp add: st mean_def)
qed

theorem stats_consistent_witness:
  "ds_p95 (stats_from [7, -4, 12]) = 12 \<and> mean (stats_from [7, -4, 12]) \<le> 12
     \<and> ds_min (stats_from [7, -4, 12]) \<le> mean (stats_from [7, -4, 12])"
proof -
  have "ds_p95 (stats_from [7, -4, 12]) = 12" "ds_max (stats_from [7, -4, 12]) = 12"
    by (simp_all add: stats_from_def empty_stats_def nearest_rank_index_def)
  then show ?thesis using stats_consistent [of "[7, -4, 12]"] by simp
qed

text \<open>
  C33: Summing up cannot overflow on the data the pool produces: if every duration is between zero
  and \<open>b\<close> and \<open>b\<close> times the number of values fits into 63 bits, every partial sum of the
  accumulation loop is within the signed 64-bit range.
\<close>

theorem total_in_range:
  assumes "\<forall>x \<in> set xs. 0 \<le> x \<and> x \<le> b" and "int (length xs) * b < 2 ^ 63" and "0 \<le> b"
  shows "in_int64 (add_up (take k (sort xs)) 0)"
proof -
  let ?ys = "take k (sort xs)"
  have "set ?ys \<subseteq> set xs" using set_take_subset [of k "sort xs"] by simp
  then have b: "0 \<le> x \<and> x \<le> b" if "x \<in> set ?ys" for x using assms(1) that by blast
  have "int (length ?ys) * b \<le> int (length xs) * b"
    using assms(3) by (intro mult_right_mono) simp_all
  moreover have "0 \<le> sum_list ?ys" "sum_list ?ys \<le> int (length ?ys) * b"
    using sum_list_bounds [of ?ys 0 b] b by simp_all
  ultimately show ?thesis using assms(2) by (simp add: in_int64_def add_up_sum)
qed

theorem total_in_range_witness: "in_int64 (add_up (take 2 (sort [5, 3, 9])) 0)"
  by (rule total_in_range [of _ 9]) simp_all

text \<open>
  The counters partition the run: succeeded, failed and rejected count the samples in those
  states (plus the refusals passed in), and together with the samples in a non-terminal state,
  which are never recorded by the pool, they make up the total.
\<close>

theorem summary_partition:
  "rs_succeeded (summarize smps rejects) = of_nat (count_of Succeeded smps)
     \<and> rs_failed (summarize smps rejects) = of_nat (count_of Failed smps)
     \<and> rs_rejected (summarize smps rejects) = rejects + of_nat (count_of Rejected smps)
     \<and> rs_total (summarize smps rejects) = rs_succeeded (summarize smps rejects)
         + rs_failed (summarize smps rejects) + rs_rejected (summarize smps rejects)
         + of_nat (length (filter (\<lambda>smp. \<not> is_terminal (smp_state smp)) smps))"
  using arg_cong [OF count_of_total [of smps], of "of_nat :: nat \<Rightarrow> u64"]
  by (simp add: summarize_eq algebra_simps)

text \<open>
  The summary does not depend on which worker ran which task or in which order the buffers are
  merged: any rearrangement of the samples gives the same summary.
\<close>

theorem summary_order_independent:
  assumes "mset smps = mset smps'"
  shows "summarize smps rejects = summarize smps' rejects"
proof -
  have "mset (map f smps) = mset (map f smps')" for f :: "sample \<Rightarrow> int"
    using assms by simp
  then have "stats_from (map f smps) = stats_from (map f smps')" for f
    by (rule stats_from_mset)
  moreover have "length smps = length smps'" using assms by (metis size_mset)
  ultimately show ?thesis using count_of_mset [OF assms] by (simp add: summarize_eq)
qed

definition demo_smp :: "task_state \<Rightarrow> int \<Rightarrow> sample" where
  "demo_smp st d = \<lparr>smp_id = 1, smp_state = st, smp_timings = \<lparr>submitted = 0, dequeued = 1, finished = d\<rparr>\<rparr>"

theorem summary_order_independent_witness:
  "summarize [demo_smp Failed 9, demo_smp Succeeded 4] 2 = summarize [demo_smp Succeeded 4, demo_smp Failed 9] 2"
  by (rule summary_order_independent) simp

end
