(* ===== verification/Task_Engine.thy ===== *)
theory Task_Engine
  imports Pool_Correct Run_Summary
begin

text \<open>
  \<open>TaskEngine\<close> (\<open>execution/task_engine.hpp\<close>, \<open>task_engine.cpp\<close>): the pool plus the atomic
  \<open>next_id_\<close>. \<open>submit\<close> takes an identity with one \<open>fetch_add\<close> and only then builds the
  envelope, so several callers can hold identities that are not in any envelope yet; the list
  \<open>eng_tickets\<close> keeps them, one place per caller. Everything after that is the pool's \<open>submit\<close>.
\<close>

section \<open>State and operations\<close>

record 't engine =
  eng_next_id :: task_id
  eng_tickets :: "(task_id \<times> 't) option list"
  eng_pool :: "'t system"

definition start_engine :: "'t pool \<Rightarrow> nat \<Rightarrow> time_point \<Rightarrow> 't engine" where
  "start_engine p n now =
     \<lparr>eng_next_id = 1, eng_tickets = replicate n None, eng_pool = start_system p n now\<rparr>"

definition make_engine ::
    "(nat \<Rightarrow> bool) \<Rightarrow> size_t \<Rightarrow> size_t \<Rightarrow> nat \<Rightarrow> time_point \<Rightarrow> fault + 't engine" where
  "make_engine spawn wc cap n now =
     (case make_pool spawn wc cap of Inl f \<Rightarrow> Inl f | Inr p \<Rightarrow> Inr (start_engine p n now))"

text \<open>A caller outside the engine, and the two steps of \<open>submit\<close> before the pool takes over.\<close>

definition eng_idle :: "nat \<Rightarrow> 't engine \<Rightarrow> bool" where
  "eng_idle j g \<longleftrightarrow> idle j (eng_pool g) \<and> j < length (eng_tickets g) \<and> eng_tickets g ! j = None"

definition take_id :: "nat \<Rightarrow> 't \<Rightarrow> 't engine \<Rightarrow> 't engine" where
  "take_id j task g =
     g\<lparr>eng_tickets := (eng_tickets g)[j := Some (eng_next_id g, task)],
       eng_next_id := eng_next_id g + 1\<rparr>"

definition build_envelope :: "nat \<Rightarrow> 't engine \<Rightarrow> 't engine option" where
  "build_envelope j g =
     (case eng_tickets g ! j of
        None \<Rightarrow> None
      | Some (i, task) \<Rightarrow>
          map_option (\<lambda>s. g\<lparr>eng_tickets := (eng_tickets g)[j := None], eng_pool := s\<rparr>)
            (enter_submit j i task (eng_pool g)))"

definition submitted_count :: "'t engine \<Rightarrow> task_id" where
  "submitted_count g = eng_next_id g - 1"

definition summary :: "'t engine \<Rightarrow> fault + run_summary" where
  "summary g =
     (case collect_samples (eng_pool g) of
        Inl f \<Rightarrow> Inl f
      | Inr samples \<Rightarrow> Inr (summarize samples (rejected_count (eng_pool g))))"

definition engine_worker_count :: "'t engine \<Rightarrow> size_t" where
  "engine_worker_count g = worker_count (eng_pool g)"

definition engine_is_shut_down :: "'t engine \<Rightarrow> bool" where
  "engine_is_shut_down g = is_shut_down (eng_pool g)"

definition engine_init :: "'t engine \<Rightarrow> bool" where
  "engine_init g \<longleftrightarrow> (\<exists>spawn wc cap n now. make_engine spawn wc cap n now = Inr g)"

inductive engine_step :: "('t \<Rightarrow> exec_outcome) \<Rightarrow> 't engine \<Rightarrow> 't engine \<Rightarrow> bool" for execute where
  engine_take: "eng_idle j g \<Longrightarrow> engine_step execute g (take_id j task g)"
| engine_build: "j < length (eng_tickets g) \<Longrightarrow> idle j (eng_pool g) \<Longrightarrow> build_envelope j g = Some g' \<Longrightarrow>
     engine_step execute g g'"
| engine_shutdown: "eng_idle j g \<Longrightarrow>
     engine_step execute g (g\<lparr>eng_pool := set_caller j CClose (eng_pool g)\<rparr>)"
| engine_shutdown_now: "eng_idle j g \<Longrightarrow>
     engine_step execute g (g\<lparr>eng_pool := set_caller j CDrain (eng_pool g)\<rparr>)"
| engine_run: "pool_run execute (eng_pool g) s \<Longrightarrow> engine_step execute g (g\<lparr>eng_pool := s\<rparr>)"
| engine_tick: "clock (eng_pool g) \<le> now \<Longrightarrow>
     engine_step execute g (g\<lparr>eng_pool := (eng_pool g)\<lparr>clock := now\<rparr>\<rparr>)"

section \<open>The engine drives the pool\<close>

lemma build_envelopeE:
  assumes "build_envelope j g = Some g'"
  obtains i task s where "eng_tickets g ! j = Some (i, task)" "enter_submit j i task (eng_pool g) = Some s"
    "g' = g\<lparr>eng_tickets := (eng_tickets g)[j := None], eng_pool := s\<rparr>"
  using assms by (auto simp: build_envelope_def split: option.splits)

lemma engine_initE:
  assumes "engine_init g"
  obtains p n now where "pool_init (start_system p n now)" "g = start_engine p n now"
proof -
  from assms obtain spawn wc cap n now where "make_engine spawn wc cap n now = Inr g"
    by (auto simp: engine_init_def)
  then obtain p where "make_pool spawn wc cap = Inr p" "g = start_engine p n now"
    by (cases "make_pool spawn wc cap :: fault + 'a pool") (auto simp: make_engine_def)
  with that show thesis unfolding pool_init_def by blast
qed

lemma engine_step_pool:
  assumes "engine_step execute g g'"
  shows "eng_pool g' = eng_pool g \<or> pool_step execute (eng_pool g) (eng_pool g')"
  using assms
proof cases
  case (engine_build j)
  from engine_build(3) show ?thesis
    by (rule build_envelopeE) (use engine_build(2) in \<open>auto simp: idle_def intro: step_submit\<close>)
qed (auto simp: take_id_def eng_idle_def idle_def intro: pool_step.intros)

text \<open>The engine is a client of the pool: what it does to the pool are steps of the pool.\<close>

interpretation pool_view: refinement engine_init "engine_step execute" "\<lambda>g. True"
  pool_init "pool_step execute" eng_pool for execute
  by unfold_locales (auto simp: start_engine_def elim: engine_initE dest: engine_step_pool)

lemmas engine_pool_reach = pool_view.view_reach

text \<open>
  The queries: the number of workers is never zero, however the threads have moved, and workers that have been
  joined belong to an engine that is shut down.
\<close>

lemma engine_queries:
  assumes "reach engine_init (engine_step execute) g" and "length (workers (eng_pool g)) < 2 ^ 64"
  shows "unat (engine_worker_count g) = length (workers (eng_pool g))" and "engine_worker_count g \<noteq> 0"
    and "workers_joined (eng_pool g) \<Longrightarrow> engine_is_shut_down g"
proof -
  note inv = full.inv_reach [OF engine_pool_reach [OF assms(1)]]
  have len: "length (p_joinable (eng_pool g)) = length (workers (eng_pool g))" "0 < length (workers (eng_pool g))"
    using inv by (simp_all add: full_inv_def pool_inv_def shut_inv_def)
  show n: "unat (engine_worker_count g) = length (workers (eng_pool g))"
    using assms(2) by (simp add: engine_worker_count_def worker_count_def len(1))
  with len(2) show "engine_worker_count g \<noteq> 0" by auto
  show "engine_is_shut_down g" if "workers_joined (eng_pool g)"
    using that joined_queue(2) [of "eng_pool g"] inv
    by (simp add: engine_is_shut_down_def is_shut_down_def is_closed_def workers_joined_def full_inv_def pool_inv_def)
qed

section \<open>Identities\<close>

text \<open>Everything that carries an identity: results, envelopes on their way, tickets.\<close>

definition ticket_ids :: "(task_id \<times> 't) option list \<Rightarrow> task_id multiset" where
  "ticket_ids ts = sum_list (map (\<lambda>t. case t of None \<Rightarrow> {#} | Some (i, task) \<Rightarrow> {#i#}) ts)"

definition pool_ids :: "'t system \<Rightarrow> task_id multiset" where
  "pool_ids s = image_mset res_id (results (chans s)) + image_mset env_id (opened s)"

definition issued :: "'t engine \<Rightarrow> nat" where
  "issued g = length (chans (eng_pool g)) + size (ticket_ids (eng_tickets g))"

definition id_inv :: "'t engine \<Rightarrow> bool" where
  "id_inv g \<longleftrightarrow> eng_next_id g = of_nat (Suc (issued g))
     \<and> pool_ids (eng_pool g) + ticket_ids (eng_tickets g) = image_mset of_nat (mset [1..<Suc (issued g)])"

lemma ticket_ids_update:
  assumes "j < length ts" and "ts ! j = None"
  shows "ticket_ids (ts[j := Some (i, task)]) = add_mset i (ticket_ids ts)"
  using sum_mset_map_update [OF assms(1), of "\<lambda>t. case t of None \<Rightarrow> {#} | Some (i, task) \<Rightarrow> {#i#}" "Some (i, task)"]
    assms(2) by (simp add: ticket_ids_def)

lemma ticket_ids_remove:
  assumes "j < length ts" and "ts ! j = Some (i, task)"
  shows "ticket_ids ts = add_mset i (ticket_ids (ts[j := None]))"
  using sum_mset_map_update [OF assms(1), of "\<lambda>t. case t of None \<Rightarrow> {#} | Some (i, task) \<Rightarrow> {#i#}" None]
    assms(2) by (simp add: ticket_ids_def)

lemma ticket_ids_none [simp]: "ticket_ids (replicate n None) = {#}"
  by (induction n) (simp_all add: ticket_ids_def)

lemma pool_ids_moves: "moves s s' \<Longrightarrow> pool_ids s' = pool_ids s \<and> length (chans s') = length (chans s)"
  by (simp add: moves_def pool_ids_def)

lemma pool_ids_settles:
  "settles e p r s s' \<Longrightarrow> pool_ids s' = pool_ids s \<and> length (chans s') = length (chans s)"
  by (simp add: settles_def pool_ids_def results_fulfil)

lemma pool_ids_run:
  assumes "own_inv s" and "pool_run execute s s'"
  shows "pool_ids s' = pool_ids s \<and> length (chans s') = length (chans s)"
  using assms(2)
proof cases
  case (run_worker i)
  then show ?thesis using worker_step_kind [OF assms(1)] pool_ids_moves pool_ids_settles by metis
next
  case (run_caller j)
  then show ?thesis using caller_step_kind [OF assms(1)] pool_ids_moves pool_ids_settles by metis
qed

lemma pool_ids_submit:
  assumes "idle j s" and "enter_submit j i task s = Some s'"
  shows "pool_ids s' = add_mset i (pool_ids s)" and "length (chans s') = Suc (length (chans s))"
proof -
  let ?e = "\<lparr>env_id = i, env_task = Some task, env_submitted = clock s, env_promise = Some (length (chans s))\<rparr>"
  let ?s = "s\<lparr>chans := chans s @ [fresh_channel\<lparr>ch_retrieved := True\<rparr>]\<rparr>"
  have s': "s' = set_caller j (CPush ?e) ?s" using assms(2) by (simp add: enter_submit_eq)
  have "opened s' = add_mset ?e (opened s)"
    using opened_set_caller [of j ?s "CPush ?e"] assms(1) by (simp add: s' idle_def)
  then show "pool_ids s' = add_mset i (pool_ids s)" by (simp add: pool_ids_def s')
  show "length (chans s') = Suc (length (chans s))" by (simp add: s')
qed

lemma issued_ids_step:
  assumes "id_inv g" and "eng_next_id g' = eng_next_id g + 1" and "issued g' = Suc (issued g)"
    and "pool_ids (eng_pool g') + ticket_ids (eng_tickets g')
         = add_mset (eng_next_id g) (pool_ids (eng_pool g) + ticket_ids (eng_tickets g))"
  shows "id_inv g'"
proof -
  have nid: "eng_next_id g = of_nat (Suc (issued g))"
    and ids: "pool_ids (eng_pool g) + ticket_ids (eng_tickets g)
              = image_mset of_nat (mset [1..<Suc (issued g)])"
    using assms(1) by (simp_all add: id_inv_def)
  have "mset [1..<Suc (issued g')] = add_mset (Suc (issued g)) (mset [1..<Suc (issued g)])"
    by (simp add: assms(3))
  then have "pool_ids (eng_pool g') + ticket_ids (eng_tickets g')
      = image_mset of_nat (mset [1..<Suc (issued g')])"
    by (simp only: assms(4) ids nid image_mset_add_mset)
  moreover have "eng_next_id g' = of_nat (Suc (issued g'))"
    using assms(2,3) nid by (simp add: algebra_simps)
  ultimately show ?thesis unfolding id_inv_def by blast
qed

lemma issued_ids_same:
  assumes "id_inv g" and "eng_next_id g' = eng_next_id g" and "issued g' = issued g"
    and "pool_ids (eng_pool g') + ticket_ids (eng_tickets g') = pool_ids (eng_pool g) + ticket_ids (eng_tickets g)"
  shows "id_inv g'"
  using assms by (simp add: id_inv_def)

lemma id_inv_step:
  assumes inv: "id_inv g" and own: "own_inv (eng_pool g)" and st: "engine_step execute g g'"
  shows "id_inv g'"
  using st
proof cases
  case (engine_take j task)
  then have "ticket_ids (eng_tickets g') = add_mset (eng_next_id g) (ticket_ids (eng_tickets g))"
    by (simp add: take_id_def eng_idle_def ticket_ids_update)
  with engine_take show ?thesis
    by (intro issued_ids_step [OF inv]) (simp_all add: take_id_def issued_def)
next
  case (engine_build j)
  from engine_build(3) obtain i task s where t: "eng_tickets g ! j = Some (i, task)"
    and s: "enter_submit j i task (eng_pool g) = Some s"
    and g': "g' = g\<lparr>eng_tickets := (eng_tickets g)[j := None], eng_pool := s\<rparr>"
    by (rule build_envelopeE)
  note ids = pool_ids_submit [OF engine_build(2) s] ticket_ids_remove [OF engine_build(1) t]
  show ?thesis using ids by (intro issued_ids_same [OF inv]) (simp_all add: g' issued_def)
next
  case (engine_shutdown j)
  then have "moves (eng_pool g) (eng_pool g')"
    by (auto simp: eng_idle_def idle_def same_places_def intro: moves_caller_frame)
  with engine_shutdown pool_ids_moves show ?thesis
    by (intro issued_ids_same [OF inv]) (auto simp: issued_def)
next
  case (engine_shutdown_now j)
  then have "moves (eng_pool g) (eng_pool g')"
    by (auto simp: eng_idle_def idle_def same_places_def intro: moves_caller_frame)
  with engine_shutdown_now pool_ids_moves show ?thesis
    by (intro issued_ids_same [OF inv]) (auto simp: issued_def)
next
  case (engine_run s)
  with pool_ids_run [OF own] show ?thesis by (intro issued_ids_same [OF inv]) (simp_all add: issued_def)
next
  case (engine_tick now)
  then show ?thesis by (intro issued_ids_same [OF inv]) (simp_all add: issued_def pool_ids_def)
qed

lemma id_inv_reach: "reach engine_init (engine_step execute) g \<Longrightarrow> id_inv g"
proof (induction rule: reach.induct)
  case (reach_init g)
  then obtain p n now where init: "pool_init (start_system p n now)" and g: "g = start_engine p n now"
    by (rule engine_initE)
  have "opened (start_system p n now) = {#}"
    using own_inv_init [OF pool_init_fresh [OF init]] by (auto simp: own_inv_def pending_def start_system_def pool.defs)
  then show ?case
    by (simp add: id_inv_def issued_def pool_ids_def g start_engine_def start_system_def
        pool.defs results_def List.map_filter_def)
next
  case (reach_step g g')
  then show ?case using id_inv_step engine_pool_reach own.inv_reach by metis
qed

section \<open>At rest\<close>

definition engine_quiet :: "'t engine \<Rightarrow> bool" where
  "engine_quiet g \<longleftrightarrow> quiescent (eng_pool g) \<and> (\<forall>t \<in> set (eng_tickets g). t = None)"

lemma quiet_tickets: "engine_quiet g \<Longrightarrow> ticket_ids (eng_tickets g) = {#}"
  unfolding ticket_ids_def by (rule sum_mset_zero) (auto simp: engine_quiet_def)

lemma of_nat_inj_u64: "n < 2 ^ 64 \<Longrightarrow> inj_on (of_nat :: nat \<Rightarrow> u64) {1..n}"
  by (rule inj_onI) (metis unat_of_nat_u64 atLeastAtMost_iff le_less_trans)

lemma count_issued:
  assumes "n < 2 ^ 64"
  shows "count (image_mset (of_nat :: nat \<Rightarrow> u64) (mset [1..<Suc n])) i \<le> 1"
proof -
  have "set [1..<Suc n] = {1..n}" by (auto simp del: upt_Suc)
  with of_nat_inj_u64 [OF assms] have "distinct (map (of_nat :: nat \<Rightarrow> u64) [1..<Suc n])"
    unfolding distinct_map by (simp del: upt_Suc)
  then have "count (mset (map (of_nat :: nat \<Rightarrow> u64) [1..<Suc n])) i \<le> 1"
    by (simp add: distinct_count_atmost_1 del: upt_Suc)
  then show ?thesis by (simp del: upt_Suc)
qed

lemma results_append: "results (cs @ ds) = results cs + results ds"
  by (simp add: results_def List.map_filter_def)

lemma results_ok: "reach pool_init (pool_step execute) s \<Longrightarrow> r \<in># results (chans s) \<Longrightarrow> result_ok r"
  using ledger.inv_reach [OF reach_ledger]
  by (fastforce simp: results_def List.map_filter_def ledger_ok_def)

lemma results_two:
  assumes "p < q" and "q < length cs" and "ch_value (cs ! p) = Some r" and "ch_value (cs ! q) = Some r'"
  shows "{#r, r'#} \<subseteq># results cs"
proof -
  have "r \<in># results (take q cs)" using assms by (intro results_value [of p]) simp_all
  moreover have "r' \<in># results (drop q cs)" using assms by (intro results_value [of 0]) simp_all
  moreover have "results cs = results (take q cs) + results (drop q cs)"
    using results_append [of "take q cs" "drop q cs"] by simp
  ultimately show ?thesis
    using subset_mset.add_mono [of "{#r#}" "results (take q cs)" "{#r'#}" "results (drop q cs)"]
    by (simp add: add_mset_commute)
qed

lemma count_of_size: "count_of st smps = size {#smp \<in># mset smps. smp_state smp = st#}"
  by (metis count_of_def mset_filter size_mset)

lemma sample_states:
  assumes "mset smps = image_mset sample_of (executed cs)"
  shows "count_of st smps = (if st = Rejected then 0 else size {#r \<in># results cs. res_state r = st#})"
proof -
  have "{#smp \<in># mset smps. smp_state smp = st#} = image_mset sample_of {#r \<in># executed cs. res_state r = st#}"
    unfolding assms filter_mset_image_mset by (simp add: sample_of_def)
  then have "count_of st smps = size {#r \<in># executed cs. res_state r = st#}" by (simp add: count_of_size)
  also have "{#r \<in># executed cs. res_state r = st#}
      = {#r \<in># results cs. res_state r \<noteq> Rejected \<and> res_state r = st#}"
    unfolding executed_def filter_filter_mset by (rule filter_mset_cong) auto
  also have "size \<dots> = (if st = Rejected then 0 else size {#r \<in># results cs. res_state r = st#})"
  proof (cases "st = Rejected")
    case True
    then have "(\<lambda>r. res_state r \<noteq> Rejected \<and> res_state r = st) = (\<lambda>r. False)" by auto
    with True show ?thesis by simp
  next
    case False
    then have eq: "(\<lambda>r. res_state r \<noteq> Rejected \<and> res_state r = st) = (\<lambda>r. res_state r = st)" by auto
    show ?thesis unfolding eq using False by simp
  qed
  finally show ?thesis .
qed

lemma summary_counts:
  assumes "reach engine_init (engine_step execute) g" and "engine_quiet g" and joined: "workers_joined (eng_pool g)"
  shows "\<exists>s. summary g = Inr s \<and> rs_total s = submitted_count g
       \<and> rs_total s = rs_succeeded s + rs_failed s + rs_rejected s
       \<and> rs_succeeded s = of_nat (size {#r \<in># results (chans (eng_pool g)). res_state r = Succeeded#})
       \<and> rs_failed s = of_nat (size {#r \<in># results (chans (eng_pool g)). res_state r = Failed#})
       \<and> rs_rejected s = of_nat (size {#r \<in># results (chans (eng_pool g)). res_state r = Rejected#})"
proof -
  let ?s = "eng_pool g" and ?smps = "concat (p_samples (eng_pool g))"
  have full: "full_inv ?s" using full.inv_reach [OF engine_pool_reach [OF assms(1)]] .
  have quiet: "quiescent ?s" using assms(2) by (simp add: engine_quiet_def)
  note books = quiescent_books [OF full quiet]
  note states = sample_states [OF books(1)]
  have "length ?smps = size (executed (chans ?s))" using arg_cong [OF books(1), of size] by simp
  with books(3) have "of_nat (length ?smps) + of_nat (size (refusals (chans ?s))) = (of_nat (length (chans ?s)) :: u64)"
    by (metis of_nat_add)
  moreover have "submitted_count g = of_nat (length (chans ?s))"
    using id_inv_reach [OF assms(1)] quiet_tickets [OF assms(2)]
    by (simp add: id_inv_def issued_def submitted_count_def)
  moreover have "is_terminal (smp_state smp)" if "smp \<in> set ?smps" for smp
  proof -
    from that have "smp \<in># image_mset sample_of (executed (chans ?s))" unfolding books(1) [symmetric] by simp
    then obtain r where "smp = sample_of r" "r \<in># results (chans ?s)" by (auto simp: executed_def)
    with results_ok [OF engine_pool_reach [OF assms(1)]] show ?thesis
      by (simp add: sample_of_def result_ok_def)
  qed
  then have "filter (\<lambda>smp. \<not> is_terminal (smp_state smp)) ?smps = []" by (simp add: filter_empty_conv)
  with count_of_total [of ?smps] have "length ?smps = count_of Succeeded ?smps + count_of Failed ?smps"
    by (simp add: states)
  then have "of_nat (length ?smps) = of_nat (count_of Succeeded ?smps) + (of_nat (count_of Failed ?smps) :: u64)"
    by (metis of_nat_add)
  ultimately show ?thesis
    using joined books(2)
    by (simp add: summary_def collect_samples_def merge_buffers_concat rejected_count_def summarize_eq
        states refusals_def)
qed

section \<open>Schedules of the engine\<close>

text \<open>The pool's actions at engine level; a submission takes the next identity.\<close>

fun eng_act :: "('t \<Rightarrow> exec_outcome) \<Rightarrow> 't action \<Rightarrow> 't engine \<Rightarrow> 't engine option" where
  "eng_act execute (Call_submit j i task) g =
     (if eng_idle j g \<and> i = eng_next_id g then build_envelope j (take_id j task g) else None)"
| "eng_act execute (Call_shutdown j) g =
     (if eng_idle j g then Some (g\<lparr>eng_pool := set_caller j CClose (eng_pool g)\<rparr>) else None)"
| "eng_act execute (Call_shutdown_now j) g =
     (if eng_idle j g then Some (g\<lparr>eng_pool := set_caller j CDrain (eng_pool g)\<rparr>) else None)"
| "eng_act execute (Work i) g = map_option (\<lambda>s. g\<lparr>eng_pool := s\<rparr>) (act execute (Work i) (eng_pool g))"
| "eng_act execute (Proceed j) g = map_option (\<lambda>s. g\<lparr>eng_pool := s\<rparr>) (act execute (Proceed j) (eng_pool g))"
| "eng_act execute (Tick now) g = map_option (\<lambda>s. g\<lparr>eng_pool := s\<rparr>) (act execute (Tick now) (eng_pool g))"

fun eng_acts :: "('t \<Rightarrow> exec_outcome) \<Rightarrow> 't action list \<Rightarrow> 't engine \<Rightarrow> 't engine option" where
  "eng_acts execute [] g = Some g"
| "eng_acts execute (a # as) g =
     (case eng_act execute a g of None \<Rightarrow> None | Some g' \<Rightarrow> eng_acts execute as g')"

lemma eng_act_steps:
  assumes "eng_act execute a g = Some g'"
  shows "(engine_step execute)\<^sup>*\<^sup>* g g'"
proof (cases a)
  case (Call_submit j i task)
  with assms have idle: "eng_idle j g" and build: "build_envelope j (take_id j task g) = Some g'"
    by (auto split: if_splits)
  have "engine_step execute g (take_id j task g)" using idle by (rule engine_take)
  moreover have "engine_step execute (take_id j task g) g'"
    using build by (rule engine_build [rotated 2]) (use idle in \<open>auto simp: take_id_def eng_idle_def\<close>)
  ultimately show ?thesis by auto
qed (use assms in \<open>auto split: if_splits intro!: r_into_rtranclp intro: engine_step.intros pool_run.intros\<close>)

lemma eng_acts_steps: "eng_acts execute as g = Some g' \<Longrightarrow> (engine_step execute)\<^sup>*\<^sup>* g g'"
proof (induction as arbitrary: g)
  case (Cons a as)
  then obtain h where "eng_act execute a g = Some h" and "eng_acts execute as h = Some g'"
    by (auto split: option.splits)
  with Cons.IH eng_act_steps show ?case by (metis rtranclp_trans)
qed simp

definition demo_engine :: "bool engine" where
  "demo_engine = \<lparr>eng_next_id = 3, eng_tickets = [None, None], eng_pool = demo_end CIdle\<rparr>"

lemma demo_engine_acts:
  "eng_acts demo_execute (demo_trace @ demo_end_trace @ [Proceed 1]) (start_engine demo_pool 2 0)
     = Some demo_engine"
  by (simp add: demo_trace_def demo_end_trace_def demo_engine_def start_engine_def start_system_def
      eng_idle_def take_id_def build_envelope_def demo_end_def demo_sample_def run_def Let_def
      demo_execute_def moved_from_def numeral_2_eq_2 demo_run_simps succeeded_def)

lemma demo_engine_reach: "reach engine_init (engine_step demo_execute) demo_engine"
proof (rule reach_steps [OF eng_acts_steps [OF demo_engine_acts] reach_init])
  have "make_engine (\<lambda>_. True) 1 1 2 0 = Inr (start_engine demo_pool 2 0)"
    by (simp add: make_engine_def make_demo_pool)
  then show "engine_init (start_engine demo_pool 2 0)" unfolding engine_init_def by blast
qed

lemma demo_engine_quiet: "engine_quiet demo_engine"
  using demo_end_quiescent by (simp add: engine_quiet_def demo_engine_def)

text \<open>No percentile of a summary is negative.\<close>

lemma summary_durations:
  assumes "reach engine_init (engine_step execute) g" and "engine_quiet g" and "issued g < 2 ^ 64"
    and "summary g = Inr s" and "st \<in> {rs_queue_wait s, rs_execution_time s, rs_total_latency s}"
  shows "0 \<le> ds_p50 st \<and> 0 \<le> ds_p95 st"
proof -
  let ?s = "eng_pool g" and ?smps = "concat (p_samples (eng_pool g))"
  note full = full.inv_reach [OF engine_pool_reach [OF assms(1)]]
  have "quiescent ?s" using assms(2) by (simp add: engine_quiet_def)
  note books = quiescent_books [OF full this]
  have sm: "s = summarize ?smps (rejected_count ?s)"
    using assms(4) by (simp add: summary_def collect_samples_def merge_buffers_concat split: if_splits)
  have "length ?smps = size (executed (chans ?s))" using arg_cong [OF books(1), of size] by simp
  then have len: "length ?smps < 2 ^ 64" using books(3) assms(3) by (simp add: issued_def)
  have ok: "0 \<le> queue_wait (smp_timings smp) \<and> 0 \<le> execution_time (smp_timings smp) \<and> 0 \<le> total_latency (smp_timings smp)"
    if "smp \<in> set ?smps" for smp
  proof -
    from that have "smp \<in># image_mset sample_of (executed (chans ?s))" unfolding books(1) [symmetric] by simp
    then obtain r where "smp = sample_of r" "r \<in># results (chans ?s)" by (auto simp: executed_def)
    then show ?thesis
      using reach_full(3) [OF engine_pool_reach [OF assms(1)]]
      by (auto simp: sample_of_def time_inv_def timings_ok_def core_defs)
  qed
  have "0 \<le> ds_p50 (stats_from (map (f \<circ> smp_timings) ?smps)) \<and> 0 \<le> ds_p95 (stats_from (map (f \<circ> smp_timings) ?smps))"
    if "\<And>smp. smp \<in> set ?smps \<Longrightarrow> 0 \<le> f (smp_timings smp)" for f
    by (rule stats_from_nonneg) (use that len in auto)
  then show ?thesis using assms(5) ok by (auto simp only: sm summarize_eq run_summary.select_convs insert_iff empty_iff)
qed

section \<open>Properties\<close>

text \<open>
  C28: Identities are unique: as long as fewer than \<open>2 ^ 64\<close> of them were handed out, two
  different futures never hold results with the same identity, however the submissions interleave;
  and \<open>submitted_count\<close> is the number of futures plus the submissions that have an identity and
  no envelope yet.
\<close>

theorem engine_ids_unique:
  assumes "reach engine_init (engine_step execute) g" and "issued g < 2 ^ 64"
  shows "unat (submitted_count g) = length (chans (eng_pool g)) + size (ticket_ids (eng_tickets g))
     \<and> (\<forall>p q r r'. p < q \<longrightarrow> q < length (chans (eng_pool g)) \<longrightarrow> ch_value (chans (eng_pool g) ! p) = Some r \<longrightarrow>
          ch_value (chans (eng_pool g) ! q) = Some r' \<longrightarrow> res_id r \<noteq> res_id r')"
proof -
  have inv: "eng_next_id g = of_nat (Suc (issued g))"
      "pool_ids (eng_pool g) + ticket_ids (eng_tickets g) = image_mset of_nat (mset [1..<Suc (issued g)])"
    using id_inv_reach [OF assms(1)] by (simp_all add: id_inv_def del: of_nat_Suc upt_Suc)
  have "res_id r \<noteq> res_id r'"
    if "p < q" "q < length (chans (eng_pool g))" "ch_value (chans (eng_pool g) ! p) = Some r"
      "ch_value (chans (eng_pool g) ! q) = Some r'" for p q r r'
  proof
    assume eq: "res_id r = res_id r'"
    have "image_mset res_id {#r, r'#} \<subseteq># image_mset res_id (results (chans (eng_pool g)))"
      using results_two [OF that] by (rule image_mset_subseteq_mono)
    also have "\<dots> \<subseteq># pool_ids (eng_pool g) + ticket_ids (eng_tickets g)" by (simp add: pool_ids_def)
    finally have "count {#res_id r, res_id r'#} (res_id r)
        \<le> count (image_mset of_nat (mset [1..<Suc (issued g)])) (res_id r)"
      unfolding inv(2) by (metis image_mset_add_mset image_mset_empty mset_subset_eq_count)
    with eq count_issued [OF assms(2), of "res_id r"] show False by simp
  qed
  moreover have "submitted_count g = of_nat (issued g)" using inv(1) by (simp add: submitted_count_def)
  then have "unat (submitted_count g) = issued g" using assms(2) by simp
  ultimately show ?thesis unfolding issued_def by blast
qed

theorem engine_ids_unique_witness:
  "unat (submitted_count demo_engine) = 2 \<and> res_id (rejected 2 5 7) \<noteq> res_id (succeeded 1 \<lparr>submitted = 0, dequeued = 3, finished = 5\<rparr>)"
proof -
  have "issued demo_engine = 2"
    by (simp add: issued_def demo_engine_def demo_end_def pool.defs ticket_ids_def)
  with engine_ids_unique [OF demo_engine_reach] show ?thesis
    by (simp add: demo_engine_def demo_end_def pool.defs ticket_ids_def rejected_def succeeded_def)
qed



end
