(* ===== verification/Batch.thy ===== *)
theory Batch
  imports Task_Engine
begin

text \<open>
  What the clients of the engine have in common. Both \<open>run\<close> of \<open>app/main.cpp\<close> and
  \<open>measure_once\<close> of the benchmark are the only caller of an engine, submit a batch of tasks one
  after the other, shut the engine down and read its summary. \<open>batch_step\<close> is that protocol, with
  the liberty to give up early by \<open>shutdown_now\<close>; the clients refine it. The theory shows once
  for both that a batch always ends, and what the summary then says about it.
\<close>

section \<open>The protocol\<close>

datatype batch_phase = Filling | Handing | Ending bool | Ended bool

record 't batch =
  b_engine :: "'t engine"
  b_count :: size_t
  b_phase :: batch_phase

abbreviation b_caller :: "'t batch \<Rightarrow> 't caller" where
  "b_caller b \<equiv> callers (eng_pool (b_engine b)) ! 0"

abbreviation b_ticket :: "'t batch \<Rightarrow> (task_id \<times> 't) option" where
  "b_ticket b \<equiv> eng_tickets (b_engine b) ! 0"

abbreviation b_queue :: "'t batch \<Rightarrow> 't envelope blocking_queue" where
  "b_queue b \<equiv> p_queue (eng_pool (b_engine b))"

definition batch_init :: "'t batch \<Rightarrow> bool" where
  "batch_init b \<longleftrightarrow> (\<exists>spawn wc cap now. make_engine spawn wc cap 1 now = Inr (b_engine b))
     \<and> b_count b = 0 \<and> b_phase b = Filling"

text \<open>The argument of \<open>Ending\<close> and \<open>Ended\<close> tells whether the queue is discarded.\<close>

inductive batch_run ::
    "('t \<Rightarrow> exec_outcome) \<Rightarrow> (size_t \<Rightarrow> 't) \<Rightarrow> size_t \<Rightarrow> 't batch \<Rightarrow> 't batch \<Rightarrow> bool" for execute task n where
  batch_take: "b_phase b = Filling \<Longrightarrow> b_count b < n \<Longrightarrow>
     batch_run execute task n b
       (b\<lparr>b_engine := take_id 0 (task (b_count b)) (b_engine b), b_phase := Handing\<rparr>)"
| batch_build: "b_phase b = Handing \<Longrightarrow> build_envelope 0 (b_engine b) = Some g \<Longrightarrow>
     batch_run execute task n b (b\<lparr>b_engine := g\<rparr>)"
| batch_return: "b_phase b = Handing \<Longrightarrow> eng_idle 0 (b_engine b) \<Longrightarrow>
     batch_run execute task n b (b\<lparr>b_count := b_count b + 1, b_phase := Filling\<rparr>)"
| batch_stop: "b_phase b = Filling \<Longrightarrow> discard \<or> b_count b = n \<Longrightarrow>
     batch_run execute task n b
       (b\<lparr>b_engine := (b_engine b)\<lparr>eng_pool :=
            set_caller 0 (if discard then CDrain else CClose) (eng_pool (b_engine b))\<rparr>,
          b_phase := Ending discard\<rparr>)"
| batch_end: "b_phase b = Ending discard \<Longrightarrow> eng_idle 0 (b_engine b) \<Longrightarrow>
     batch_run execute task n b (b\<lparr>b_phase := Ended discard\<rparr>)"
| batch_pool: "pool_run execute (eng_pool (b_engine b)) s \<Longrightarrow>
     batch_run execute task n b (b\<lparr>b_engine := (b_engine b)\<lparr>eng_pool := s\<rparr>\<rparr>)"

inductive batch_step ::
    "('t \<Rightarrow> exec_outcome) \<Rightarrow> (size_t \<Rightarrow> 't) \<Rightarrow> size_t \<Rightarrow> 't batch \<Rightarrow> 't batch \<Rightarrow> bool" for execute task n where
  batch_go: "batch_run execute task n b b' \<Longrightarrow> batch_step execute task n b b'"
| batch_tick: "clock (eng_pool (b_engine b)) \<le> now \<Longrightarrow>
     batch_step execute task n b
       (b\<lparr>b_engine := (b_engine b)\<lparr>eng_pool := (eng_pool (b_engine b))\<lparr>clock := now\<rparr>\<rparr>\<rparr>)"

text \<open>One caller, outside of which nobody uses the engine.\<close>

definition solo :: "'t engine \<Rightarrow> bool" where
  "solo g \<longleftrightarrow> length (callers (eng_pool g)) = 1 \<and> length (eng_tickets g) = 1 \<and> crashed (eng_pool g) = None"

fun submitting :: "'t caller \<Rightarrow> bool" where
  "submitting CIdle = True"
| "submitting (CPush e) = True"
| "submitting _ = False"

text \<open>The part of a caller's way that only a plain \<open>shutdown\<close> takes.\<close>

fun plain_stop :: "'t caller \<Rightarrow> bool" where
  "plain_stop CIdle = True"
| "plain_stop CClose = True"
| "plain_stop (CJoin ds) = True"
| "plain_stop (CJoining ds i) = True"
| "plain_stop (CLeave ds) = True"
| "plain_stop _ = False"

section \<open>Results match tasks\<close>

definition verdict :: "('t \<Rightarrow> exec_outcome) \<Rightarrow> 't \<Rightarrow> task_state" where
  "verdict execute t = (if execute t = Returned then Succeeded else Failed)"

definition task_inv :: "('t \<Rightarrow> exec_outcome) \<Rightarrow> (task_id \<Rightarrow> 't) \<Rightarrow> 't system \<Rightarrow> bool" where
  "task_inv execute task_of s \<longleftrightarrow>
     (\<forall>e \<in># opened s. env_task e = Some (task_of (env_id e)))
     \<and> (\<forall>r \<in># results (chans s). res_state r \<noteq> Rejected \<longrightarrow>
          res_state r = verdict execute (task_of (res_id r)))"

lemma opened_run_subset:
  assumes "own_inv s" and "pool_run execute s s'" and "e \<in># opened s'"
  shows "e \<in># opened s"
  using assms(2)
proof cases
  case (run_worker i)
  then have "moves s s' \<or> (\<exists>e p r. settles e p r s s')" using worker_step_kind assms(1) by blast
  with assms(3) show ?thesis by (auto simp: moves_def settles_def)
next
  case (run_caller j)
  then have "moves s s' \<or> (\<exists>e p r. settles e p r s s')" using caller_step_kind assms(1) by blast
  with assms(3) show ?thesis by (auto simp: moves_def settles_def)
qed

lemma results_run:
  assumes own: "own_inv s" and run: "pool_run execute s s'" and r: "r \<in># results (chans s')"
  obtains "r \<in># results (chans s)" | "res_state r = Rejected"
  | e where "e \<in># opened s" "res_id r = env_id e" "res_state r = verdict execute (the (env_task e))"
  using run
proof cases
  case (run_worker i)
  from own run_worker(2,3) show thesis
  proof (cases rule: worker_step_cases)
    case (runs e deq p)
    with run_worker(2) have "e \<in># opened s" by (auto intro: opened_worker)
    with runs r that show thesis
      by (auto simp: results_fulfil run_result_id run_result_state verdict_def)
  qed (use r that in auto)
next
  case (run_caller j)
  from own run_caller(2,3) show thesis
    by (cases rule: caller_step_cases) (use r that in \<open>auto simp: results_fulfil\<close>)
qed

lemma task_inv_run:
  assumes "own_inv s" and "pool_run execute s s'" and "task_inv execute task_of s"
  shows "task_inv execute task_of s'"
  unfolding task_inv_def
proof (intro conjI ballI impI)
  show "env_task e = Some (task_of (env_id e))" if "e \<in># opened s'" for e
    using opened_run_subset [OF assms(1,2) that] assms(3) by (simp add: task_inv_def)
  show "res_state r = verdict execute (task_of (res_id r))"
    if "r \<in># results (chans s')" "res_state r \<noteq> Rejected" for r
    using assms(1,2) that(1)
  proof (cases rule: results_run)
    case 1
    with that(2) assms(3) show ?thesis by (simp add: task_inv_def)
  next
    case 2
    with that(2) show ?thesis by simp
  next
    case (3 e)
    with assms(3) show ?thesis by (simp add: task_inv_def)
  qed
qed

lemma task_inv_submit:
  assumes "idle j s" and "enter_submit j i (task_of i) s = Some s'" and "task_inv execute task_of s"
  shows "task_inv execute task_of s'"
proof -
  let ?e = "\<lparr>env_id = i, env_task = Some (task_of i), env_submitted = clock s,
      env_promise = Some (length (chans s))\<rparr>"
  let ?s = "s\<lparr>chans := chans s @ [fresh_channel\<lparr>ch_retrieved := True\<rparr>]\<rparr>"
  have s': "s' = set_caller j (CPush ?e) ?s" using assms(2) by (simp add: enter_submit_eq)
  have "opened s' = add_mset ?e (opened s)"
    using opened_set_caller [of j ?s "CPush ?e"] assms(1) by (simp add: s' idle_def)
  with assms(3) show ?thesis by (simp add: task_inv_def s')
qed

section \<open>Background steps with a single caller\<close>

lemma worker_background:
  assumes "own_inv s" and "i < length (workers s)" and "worker_step execute i s = Some s'"
  shows "callers s' = callers s \<and> q_closed (p_queue s') = q_closed (p_queue s)
     \<and> refusals (chans s') = refusals (chans s)"
  using assms
  by (cases rule: worker_step_cases)
     (auto simp: refusals_fulfil queue_defs split: list.splits if_splits)

lemma caller_submitting:
  assumes "own_inv s" and "length (callers s) = 1" and "caller_step 0 s = Some s'"
    and "submitting (callers s ! 0)" and "\<not> q_closed (p_queue s)"
  shows "callers s' = [CIdle] \<and> \<not> q_closed (p_queue s') \<and> refusals (chans s') = refusals (chans s)"
proof -
  have j: "0 < length (callers s)" using assms(2) by simp
  have one: "(callers s)[0 := c] = [c]" for c using assms(2) by (cases "callers s") auto
  from assms(1) j assms(3) show ?thesis
    by (cases rule: caller_step_cases)
       (use assms(4,5) one in \<open>auto simp: queue_defs split: if_splits\<close>)
qed

lemma caller_plain_stop:
  assumes "own_inv s" and "length (callers s) = 1" and "caller_step 0 s = Some s'"
    and "plain_stop (callers s ! 0)"
  shows "plain_stop (callers s' ! 0) \<and> refusals (chans s') = refusals (chans s)"
proof -
  have j: "0 < length (callers s)" using assms(2) by simp
  from assms(1) j assms(3) show ?thesis
    by (cases rule: caller_step_cases) (use assms(4) j in auto)
qed

lemma caller_closed:
  assumes "own_inv s" and "length (callers s) = 1" and "caller_step 0 s = Some s'"
    and "callers s ! 0 \<in> {CClose, CDrain} \<or> q_closed (p_queue s)"
  shows "callers s' ! 0 \<in> {CClose, CDrain} \<or> q_closed (p_queue s')"
proof -
  have j: "0 < length (callers s)" using assms(2) by simp
  from assms(1) j assms(3) show ?thesis
    by (cases rule: caller_step_cases) (use assms(4) j in \<open>auto simp: queue_defs split: if_splits\<close>)
qed

lemma pool_background:
  assumes "own_inv s" and "length (callers s) = 1" and "pool_run execute s s'"
  shows "callers s' = callers s \<and> q_closed (p_queue s') = q_closed (p_queue s)
       \<and> refusals (chans s') = refusals (chans s)
     \<or> caller_step 0 s = Some s'"
  using assms(3)
proof cases
  case (run_worker i)
  with worker_background [OF assms(1)] show ?thesis by blast
next
  case (run_caller j)
  with assms(2) show ?thesis by simp
qed

text \<open>Once the queue is closed and the only caller is outside, the workers are joined and all is quiet.\<close>

lemma alone_quiescent:
  assumes full: "full_inv s" and len: "length (callers s) = 1" and "callers s ! 0 = CIdle"
    and closed: "q_closed (p_queue s)"
  shows "p_joined s" and "quiescent s" and "\<not> pool_run execute s s'"
proof -
  have shut: "shut_inv s" and "join_inv s" using full by (simp_all add: full_inv_def pool_inv_def)
  then have "p_joined s \<or> (\<exists>j < length (callers s). pre_join (callers s ! j))"
    using closed by (simp add: join_inv_def)
  with len assms(3) show joined: "p_joined s" by auto
  note ex = joined_queue(1) [OF shut joined]
  have idle: "\<forall>c \<in> set (callers s). c = CIdle" using len assms(3) by (cases "callers s") auto
  with ex show "quiescent s" by (simp add: quiescent_def)
  show "\<not> pool_run execute s s'"
  proof
    assume "pool_run execute s s'"
    then show False
    proof cases
      case (run_worker i)
      then have "workers s ! i = WExit" using ex by simp
      with run_worker(3) show False by (simp add: worker_step_def)
    next
      case (run_caller j)
      then have "callers s ! j = CIdle" using idle by simp
      with run_caller(3) show False by (simp add: caller_step_def)
    qed
  qed
qed

section \<open>The invariant of a batch\<close>

definition nth_task :: "(size_t \<Rightarrow> 't) \<Rightarrow> task_id \<Rightarrow> 't" where
  "nth_task task i = task (i - 1)"

definition phase_inv :: "size_t \<Rightarrow> 't batch \<Rightarrow> bool" where
  "phase_inv n b \<longleftrightarrow>
     (case b_phase b of
        Filling \<Rightarrow> b_caller b = CIdle \<and> b_ticket b = None \<and> \<not> q_closed (b_queue b)
          \<and> issued (b_engine b) = unat (b_count b)
      | Handing \<Rightarrow> submitting (b_caller b) \<and> (b_ticket b \<noteq> None \<longrightarrow> b_caller b = CIdle) \<and> \<not> q_closed (b_queue b)
          \<and> issued (b_engine b) = Suc (unat (b_count b)) \<and> b_count b < n
      | Ending discard \<Rightarrow> b_ticket b = None \<and> issued (b_engine b) = unat (b_count b)
          \<and> (b_caller b \<in> {CClose, CDrain} \<or> q_closed (b_queue b))
          \<and> (\<not> discard \<longrightarrow> plain_stop (b_caller b) \<and> b_count b = n)
      | Ended discard \<Rightarrow> b_ticket b = None \<and> b_caller b = CIdle \<and> q_closed (b_queue b)
          \<and> issued (b_engine b) = unat (b_count b) \<and> (\<not> discard \<longrightarrow> b_count b = n))"

fun discards :: "batch_phase \<Rightarrow> bool" where
  "discards (Ending d) = d"
| "discards (Ended d) = d"
| "discards _ = False"

definition batch_inv :: "('t \<Rightarrow> exec_outcome) \<Rightarrow> (size_t \<Rightarrow> 't) \<Rightarrow> size_t \<Rightarrow> 't batch \<Rightarrow> bool" where
  "batch_inv execute task n b \<longleftrightarrow> solo (b_engine b) \<and> reach engine_init (engine_step execute) (b_engine b)
     \<and> b_count b \<le> n \<and> phase_inv n b
     \<and> task_inv execute (nth_task task) (eng_pool (b_engine b))
     \<and> (\<forall>i t. b_ticket b = Some (i, t) \<longrightarrow> t = nth_task task i)
     \<and> (\<not> discards (b_phase b) \<longrightarrow> refusals (chans (eng_pool (b_engine b))) = {#})"

lemma batch_inv_pool:
  assumes "batch_inv execute task n b"
  shows "own_inv (eng_pool (b_engine b))" and "full_inv (eng_pool (b_engine b))"
    and "length (callers (eng_pool (b_engine b))) = 1"
  using assms full.inv_reach [OF engine_pool_reach] unfolding batch_inv_def solo_def
  by (auto simp: full_inv_def pool_inv_def book_inv_def)

lemma issued_pool:
  "length (chans s) = length (chans (eng_pool g)) \<Longrightarrow> issued (g\<lparr>eng_pool := s\<rparr>) = issued g"
  by (simp add: issued_def)

lemma solo_idle:
  "solo g \<Longrightarrow> eng_idle 0 g \<longleftrightarrow> callers (eng_pool g) ! 0 = CIdle \<and> eng_tickets g ! 0 = None"
  by (auto simp: solo_def eng_idle_def idle_def)

lemma build_envelope_solo:
  assumes "solo g" and "eng_tickets g ! 0 = Some (i, t)"
  obtains s where "enter_submit 0 i t (eng_pool g) = Some s"
    "build_envelope 0 g = Some (g\<lparr>eng_tickets := [None], eng_pool := s\<rparr>)"
    "length (callers s) = 1" "\<exists>e. callers s ! 0 = CPush e" "p_queue s = p_queue (eng_pool g)"
    "refusals (chans s) = refusals (chans (eng_pool g))" "crashed s = None"
    "length (p_joinable s) = length (p_joinable (eng_pool g))" "workers s = workers (eng_pool g)"
proof -
  obtain s where s: "enter_submit 0 i t (eng_pool g) = Some s" by (simp add: enter_submit_eq)
  have one: "(eng_tickets g)[0 := None] = [None]" using assms(1) by (cases "eng_tickets g") (auto simp: solo_def)
  from s have "s = set_caller 0 (CPush \<lparr>env_id = i, env_task = Some t, env_submitted = clock (eng_pool g),
        env_promise = Some (length (chans (eng_pool g)))\<rparr>)
      (eng_pool g\<lparr>chans := chans (eng_pool g) @ [fresh_channel\<lparr>ch_retrieved := True\<rparr>]\<rparr>)"
    by (simp add: enter_submit_eq)
  with assms s one that [of s] show thesis
    by (simp add: solo_def build_envelope_def refusals_def)
qed

lemma batch_inv_background:
  assumes inv: "batch_inv execute task n b" and run: "pool_run execute (eng_pool (b_engine b)) s"
  shows "batch_inv execute task n (b\<lparr>b_engine := (b_engine b)\<lparr>eng_pool := s\<rparr>\<rparr>)"
proof -
  let ?g = "b_engine b"
  let ?g' = "?g\<lparr>eng_pool := s\<rparr>" and ?s = "eng_pool ?g"
  let ?b = "b\<lparr>b_engine := ?g'\<rparr>"
  note own = batch_inv_pool(1) [OF inv] and len = batch_inv_pool(3) [OF inv]
  note bg = pool_background [OF own len run]
  have pc: "phase_inv n b" using inv by (simp add: batch_inv_def)
  have stuck: "caller_step 0 ?s \<noteq> Some s" if "b_caller b = CIdle" using that by (simp add: caller_step_def)
  have iss: "issued ?g' = issued ?g" using pool_ids_run [OF own run] by (intro issued_pool) simp
  have "phase_inv n ?b \<and> (\<not> discards (b_phase b) \<longrightarrow> refusals (chans s) = refusals (chans ?s))"
  proof (cases "b_phase b")
    case Filling
    with pc bg stuck iss show ?thesis by (auto simp: phase_inv_def)
  next
    case Handing
    with pc bg iss caller_submitting [OF own len, of s] show ?thesis by (auto simp: phase_inv_def)
  next
    case (Ending d)
    with pc bg iss caller_closed [OF own len, of s] caller_plain_stop [OF own len, of s] show ?thesis
      by (auto simp: phase_inv_def)
  next
    case (Ended d)
    with pc have "b_caller b = CIdle" "q_closed (p_queue ?s)" by (simp_all add: phase_inv_def)
    with alone_quiescent(3) [OF batch_inv_pool(2) [OF inv] len] run show ?thesis by blast
  qed
  moreover have "reach engine_init (engine_step execute) ?g'"
    using inv engine_run [OF run] by (auto simp: batch_inv_def intro: reach_step)
  moreover have "solo ?g'" using inv pool_run_frame [OF own run] by (simp add: batch_inv_def solo_def)
  moreover have "task_inv execute (nth_task task) s"
    using task_inv_run [OF own run] inv by (simp add: batch_inv_def)
  ultimately show ?thesis using inv by (simp add: batch_inv_def)
qed

lemma batch_inv_take:
  assumes inv: "batch_inv execute task n b" and ph: "b_phase b = Filling" and sub: "b_count b < n"
  shows "batch_inv execute task n
    (b\<lparr>b_engine := take_id 0 (task (b_count b)) (b_engine b), b_phase := Handing\<rparr>)"
proof -
  let ?g = "b_engine b" and ?t = "task (b_count b)"
  let ?g' = "take_id 0 ?t ?g"
  have st: "solo ?g" "reach engine_init (engine_step execute) ?g" using inv by (simp_all add: batch_inv_def)
  have now: "b_caller b = CIdle" "b_ticket b = None" "\<not> q_closed (b_queue b)" "issued ?g = unat (b_count b)"
    using inv ph by (simp_all add: batch_inv_def phase_inv_def)
  have idle: "eng_idle 0 ?g" using solo_idle [OF st(1)] now by simp
  have "reach engine_init (engine_step execute) ?g'"
    using st(2) engine_take [OF idle] by (rule reach_step)
  moreover have "ticket_ids (eng_tickets ?g') = add_mset (eng_next_id ?g) (ticket_ids (eng_tickets ?g))"
    using st(1) now(2) by (simp add: take_id_def ticket_ids_update solo_def)
  then have "issued ?g' = Suc (unat (b_count b))" using now(4) by (simp add: issued_def take_id_def)
  moreover have "eng_next_id ?g - 1 = b_count b"
    using id_inv_reach [OF st(2)] now(4) by (simp add: id_inv_def)
  then have "?t = nth_task task (eng_next_id ?g)" by (simp add: nth_task_def)
  ultimately show ?thesis
    using inv now sub ph by (auto simp: batch_inv_def phase_inv_def take_id_def solo_def)
qed

lemma batch_inv_build:
  assumes inv: "batch_inv execute task n b" and ph: "b_phase b = Handing"
    and g': "build_envelope 0 (b_engine b) = Some g'"
  shows "batch_inv execute task n (b\<lparr>b_engine := g'\<rparr>)"
proof -
  let ?g = "b_engine b"
  obtain i t where t: "b_ticket b = Some (i, t)" using g' by (elim build_envelopeE)
  have st: "solo ?g" "reach engine_init (engine_step execute) ?g" "t = nth_task task i"
      "task_inv execute (nth_task task) (eng_pool ?g)"
    using inv t by (simp_all add: batch_inv_def)
  have now: "b_caller b = CIdle" "\<not> q_closed (b_queue b)" "issued ?g = Suc (unat (b_count b))" "b_count b < n"
    using inv ph t by (simp_all add: batch_inv_def phase_inv_def)
  have idle: "idle 0 (eng_pool ?g)" using st(1) now(1) by (simp add: solo_def idle_def)
  obtain s where s: "enter_submit 0 i t (eng_pool ?g) = Some s"
      "g' = ?g\<lparr>eng_tickets := [None], eng_pool := s\<rparr>" "length (callers s) = 1" "\<exists>e. callers s ! 0 = CPush e"
      "p_queue s = p_queue (eng_pool ?g)" "refusals (chans s) = refusals (chans (eng_pool ?g))" "crashed s = None"
    using build_envelope_solo [OF st(1) t] g' by (metis option.inject)
  have "reach engine_init (engine_step execute) g'"
    using st(2) by (rule reach_step) (use st(1) idle g' in \<open>auto intro!: engine_build simp: solo_def\<close>)
  moreover have "task_inv execute (nth_task task) s"
    using task_inv_submit [OF idle, of i "nth_task task" s] s(1) st(3,4) by simp
  moreover have "ticket_ids (eng_tickets ?g) = {#i#}"
    using st(1) t by (cases "eng_tickets ?g") (auto simp: solo_def ticket_ids_def)
  then have "issued g' = Suc (unat (b_count b))"
    using pool_ids_submit(2) [OF idle s(1)] now(3) by (simp add: issued_def s(2) ticket_ids_def)
  ultimately show ?thesis
    using inv now s ph by (auto simp: batch_inv_def phase_inv_def solo_def)
qed

lemma batch_inv_stop:
  assumes inv: "batch_inv execute task n b" and ph: "b_phase b = Filling" and d: "discard \<or> b_count b = n"
  shows "batch_inv execute task n
    (b\<lparr>b_engine := (b_engine b)\<lparr>eng_pool :=
         set_caller 0 (if discard then CDrain else CClose) (eng_pool (b_engine b))\<rparr>,
       b_phase := Ending discard\<rparr>)"
proof -
  let ?g = "b_engine b" and ?c = "if discard then CDrain else CClose"
  let ?s = "set_caller 0 ?c (eng_pool ?g)"
  have st: "solo ?g" "reach engine_init (engine_step execute) ?g"
      "task_inv execute (nth_task task) (eng_pool ?g)" using inv by (simp_all add: batch_inv_def)
  have now: "b_caller b = CIdle" "b_ticket b = None" "issued ?g = unat (b_count b)"
    using inv ph by (simp_all add: batch_inv_def phase_inv_def)
  have idle: "eng_idle 0 ?g" using solo_idle [OF st(1)] now by simp
  have "engine_step execute ?g (?g\<lparr>eng_pool := ?s\<rparr>)"
    using engine_shutdown [OF idle] engine_shutdown_now [OF idle] by simp
  with st(2) have "reach engine_init (engine_step execute) (?g\<lparr>eng_pool := ?s\<rparr>)" by (rule reach_step)
  moreover have "opened ?s = opened (eng_pool ?g)"
  proof -
    have "0 < length (callers (eng_pool ?g))" using st(1) by (simp add: solo_def)
    from opened_set_caller [OF this, of ?c] now(1) show ?thesis by (cases discard) simp_all
  qed
  then have "task_inv execute (nth_task task) ?s" using st(3) by (simp add: task_inv_def)
  ultimately show ?thesis
    using inv now st(1) d ph by (auto simp: batch_inv_def phase_inv_def solo_def issued_def)
qed

lemma batch_inv_run:
  assumes inv: "batch_inv execute task n b" and st: "batch_run execute task n b b'"
  shows "batch_inv execute task n b'"
  using st
proof cases
  case batch_return
  have "b_count b < n" using inv batch_return(2) by (simp add: batch_inv_def phase_inv_def)
  from unat_succ_below [OF this] this
  have "unat (b_count b + 1) = Suc (unat (b_count b))" "b_count b + 1 \<le> n"
    by (simp_all add: word_less_nat_alt word_le_nat_alt)
  with inv batch_return show ?thesis
    by (simp add: batch_inv_def phase_inv_def eng_idle_def idle_def)
next
  case (batch_stop discard)
  from batch_inv_stop [OF inv batch_stop(2,3)] show ?thesis by (simp only: batch_stop(1))
next
  case (batch_end d)
  with inv show ?thesis by (auto simp: batch_inv_def phase_inv_def eng_idle_def idle_def)
qed (use inv in \<open>auto intro: batch_inv_take batch_inv_build batch_inv_background\<close>)

lemma batch_inv_init:
  assumes "batch_init b"
  shows "batch_inv execute task n b"
proof -
  from assms obtain spawn wc cap now where g: "make_engine spawn wc cap 1 now = Inr (b_engine b)"
    and b: "b_count b = 0" "b_phase b = Filling" by (auto simp: batch_init_def)
  have "engine_init (b_engine b)" using g unfolding engine_init_def by blast
  then have r: "reach engine_init (engine_step execute) (b_engine b)" by (rule reach_init)
  from g obtain p where p: "make_pool spawn wc cap = Inr p" and g: "b_engine b = start_engine p 1 now"
    by (cases "make_pool spawn wc cap :: fault + 'a pool") (auto simp: make_engine_def)
  from p have "\<not> q_closed (p_queue p)" by (auto simp: make_pool_eq make_queue_def empty_pool_def split: if_splits)
  moreover have "opened (eng_pool (b_engine b)) = {#}"
  proof -
    have "eng_pool (b_engine b) = start_system p 1 now" by (simp add: g start_engine_def)
    with p have "pool_init (eng_pool (b_engine b))" unfolding pool_init_def by blast
    from own_inv_init [OF pool_init_fresh [OF this]] show ?thesis
      by (auto simp: own_inv_def pending_def g start_engine_def start_system_def pool.defs)
  qed
  ultimately show ?thesis using r
    by (simp add: b batch_inv_def phase_inv_def solo_def task_inv_def g start_engine_def
        start_system_def pool.defs results_def refusals_def List.map_filter_def issued_def ticket_ids_def)
qed

lemma batch_inv_step:
  assumes inv: "batch_inv execute task n b" and "batch_step execute task n b b'"
  shows "batch_inv execute task n b'"
  using assms(2)
proof cases
  case batch_go
  with batch_inv_run [OF inv] show ?thesis by blast
next
  case (batch_tick now)
  let ?g = "b_engine b"
  let ?g' = "?g\<lparr>eng_pool := (eng_pool ?g)\<lparr>clock := now\<rparr>\<rparr>"
  have "reach engine_init (engine_step execute) ?g'"
    using inv engine_tick [OF batch_tick(2)] by (auto simp: batch_inv_def intro: reach_step)
  then show ?thesis
    using inv by (auto simp: batch_tick(1) batch_inv_def phase_inv_def solo_def task_inv_def issued_def
        split: batch_phase.splits)
qed

section \<open>A batch ends\<close>

fun phase_weight :: "nat \<Rightarrow> nat \<Rightarrow> bool \<Rightarrow> batch_phase \<Rightarrow> nat" where
  "phase_weight left w ticket Filling = 10 * left + w + 10"
| "phase_weight left w ticket Handing = 10 * left + w + (if ticket then 9 else 3)"
| "phase_weight left w ticket (Ending d) = 1"
| "phase_weight left w ticket (Ended d) = 0"

definition batch_weight :: "size_t \<Rightarrow> 't batch \<Rightarrow> nat" where
  "batch_weight n b =
     phase_weight (unat n - unat (b_count b)) (length (p_joinable (eng_pool (b_engine b))))
       (b_ticket b \<noteq> None) (b_phase b)
     + pool_weight (eng_pool (b_engine b))"

fun ended :: "batch_phase \<Rightarrow> bool" where
  "ended (Ended d) = True"
| "ended _ = False"

lemma pool_weight_caller0:
  assumes "length (callers s) = 1" and "callers s' = (callers s)[0 := c]" and "workers s' = workers s"
    and "length (p_joinable s') = length (p_joinable s)" and "p_queue s' = p_queue s"
    and "callers s ! 0 = CIdle"
  shows "pool_weight s' = pool_weight s + cweight (length (p_joinable s)) c"
  using assms by (cases "callers s") (auto simp: pool_weight_def)

lemma batch_run_decreases:
  assumes inv: "batch_inv execute task n b" and st: "batch_run execute task n b b'"
  shows "batch_weight n b' < batch_weight n b"
  using st
proof cases
  case batch_take
  then show ?thesis by (simp add: batch_weight_def take_id_def)
next
  case (batch_build g)
  have solo: "solo (b_engine b)" using inv by (simp add: batch_inv_def)
  obtain i t where t: "b_ticket b = Some (i, t)" using batch_build(3) by (elim build_envelopeE)
  have idle: "b_caller b = CIdle" using inv batch_build t by (simp add: batch_inv_def phase_inv_def)
  obtain s where s: "build_envelope 0 (b_engine b) = Some ((b_engine b)\<lparr>eng_tickets := [None], eng_pool := s\<rparr>)"
      "length (callers s) = 1" "\<exists>e. callers s ! 0 = CPush e" "p_queue s = b_queue b"
      "length (p_joinable s) = length (p_joinable (eng_pool (b_engine b)))"
      "workers s = workers (eng_pool (b_engine b))"
    by (rule build_envelope_solo [OF solo t])
  then obtain e where e: "callers s = (callers (eng_pool (b_engine b)))[0 := CPush e]"
    using solo by (cases "callers s"; cases "callers (eng_pool (b_engine b))") (auto simp: solo_def)
  have "pool_weight s = pool_weight (eng_pool (b_engine b)) + 5"
    using pool_weight_caller0 [OF _ e s(6,5,4) idle] solo by (simp add: solo_def)
  with batch_build t s(1,5) show ?thesis by (auto simp: batch_weight_def)
next
  case batch_return
  have sub: "b_count b < n" using inv batch_return(2) by (simp add: batch_inv_def phase_inv_def)
  have "unat (b_count b) < unat n" "b_ticket b = None"
    using sub batch_return(3) by (simp_all add: word_less_nat_alt eng_idle_def)
  with batch_return unat_succ_below [OF sub] show ?thesis by (simp add: batch_weight_def)
next
  case (batch_stop d)
  have "length (callers (eng_pool (b_engine b))) = 1" "b_caller b = CIdle"
    using inv batch_stop by (simp_all add: batch_inv_def phase_inv_def solo_def)
  note w = pool_weight_caller0 [OF this(1) _ _ _ _ this(2)]
  show ?thesis using batch_stop w [of "set_caller 0 CClose (eng_pool (b_engine b))" CClose]
      w [of "set_caller 0 CDrain (eng_pool (b_engine b))" CDrain]
    by (auto simp: batch_weight_def)
next
  case (batch_end d)
  then show ?thesis by (simp add: batch_weight_def)
next
  case (batch_pool s)
  have "pool_weight s < pool_weight (eng_pool (b_engine b))"
    using pool_run_decreases [OF _ batch_pool(2)] batch_inv_pool(2) [OF inv] by (simp add: full_inv_def)
  with pool_run_frame(3) [OF batch_inv_pool(1) [OF inv] batch_pool(2)] show ?thesis
    by (simp add: batch_pool(1) batch_weight_def)
qed

text \<open>While the caller is inside a call, the pool can move.\<close>

lemma batch_busy:
  assumes inv: "batch_inv execute task n b" and "b_caller b \<noteq> CIdle"
  shows "\<exists>s. pool_run execute (eng_pool (b_engine b)) s"
proof -
  have "\<not> quiescent (eng_pool (b_engine b))"
    using assms(2) batch_inv_pool(3) [OF inv] nth_mem [of 0 "callers (eng_pool (b_engine b))"]
    by (auto simp: quiescent_def)
  then show ?thesis using pool_progress batch_inv_pool(2) [OF inv] by (metis full_inv_def)
qed

lemma batch_handing:
  assumes inv: "batch_inv execute task n b" and "b_phase b = Handing" and "b_caller b = CIdle"
  shows "build_envelope 0 (b_engine b) \<noteq> None \<or> b_ticket b = None \<and> eng_idle 0 (b_engine b)"
proof (cases "b_ticket b")
  case None
  with inv assms(3) solo_idle show ?thesis by (auto simp: batch_inv_def)
next
  case (Some ticket)
  then obtain i t where t: "b_ticket b = Some (i, t)" by (cases ticket) simp
  have "solo (b_engine b)" using inv by (simp add: batch_inv_def)
  from build_envelope_solo [OF this t] show ?thesis by blast
qed

lemma batch_ending:
  assumes inv: "batch_inv execute task n b" and "b_phase b = Ending d" and "b_caller b = CIdle"
  shows "eng_idle 0 (b_engine b)"
  using assms solo_idle by (auto simp: batch_inv_def phase_inv_def)

lemma batch_progress:
  assumes inv: "batch_inv execute task n b" and "\<not> ended (b_phase b)"
  shows "\<exists>b'. batch_run execute task n b b'"
proof (cases "b_caller b = CIdle")
  case False
  with batch_busy [OF inv] batch_pool show ?thesis by blast
next
  case True
  show ?thesis
  proof (cases "b_phase b")
    case Filling
    have "b_count b < n \<or> b_count b = n" using inv by (auto simp: batch_inv_def)
    with Filling show ?thesis by (blast intro: batch_take batch_stop)
  next
    case Handing
    with batch_handing [OF inv _ True] show ?thesis by (blast intro: batch_build batch_return)
  next
    case (Ending d)
    with batch_ending [OF inv _ True] show ?thesis by (blast intro: batch_end)
  qed (use assms(2) in simp)
qed

interpretation batch: terminating_system batch_init "batch_step execute task n" "batch_inv execute task n"
  "batch_run execute task n" "batch_weight n" "\<lambda>b. ended (b_phase b)" for execute task n
  by unfold_locales
     (auto intro: batch_inv_init batch_inv_step batch_go batch_run_decreases batch_progress)

section \<open>What an ended batch amounts to\<close>

lemma batch_ended_facts:
  assumes inv: "batch_inv execute task n b" and ph: "b_phase b = Ended d"
  shows "engine_quiet (b_engine b)" and "workers_joined (eng_pool (b_engine b))"
    and "submitted_count (b_engine b) = b_count b" and "issued (b_engine b) = unat (b_count b)"
    and "\<not> pool_run execute' (eng_pool (b_engine b)) s"
proof -
  have now: "b_ticket b = None" "b_caller b = CIdle" "q_closed (b_queue b)" "issued (b_engine b) = unat (b_count b)"
    using inv ph by (simp_all add: batch_inv_def phase_inv_def)
  note alone = alone_quiescent [OF batch_inv_pool(2,3) [OF inv] now(2,3)]
  have "length (eng_tickets (b_engine b)) = 1" using inv by (simp add: batch_inv_def solo_def)
  then have "\<forall>t \<in> set (eng_tickets (b_engine b)). t = None"
    using now(1) by (cases "eng_tickets (b_engine b)") auto
  with alone show "engine_quiet (b_engine b)" "workers_joined (eng_pool (b_engine b))"
    by (simp_all add: engine_quiet_def workers_joined_def)
  show "issued (b_engine b) = unat (b_count b)" by (rule now)
  show "\<not> pool_run execute' (eng_pool (b_engine b)) s" by (rule alone)
  have "id_inv (b_engine b)" using inv id_inv_reach by (auto simp: batch_inv_def)
  with now(4) show "submitted_count (b_engine b) = b_count b"
    by (simp add: id_inv_def submitted_count_def)
qed

lemma size_filter_image: "size {#i \<in># image_mset f (mset xs). P i#} = length (filter (\<lambda>k. P (f k)) xs)"
  by (induction xs) auto

text \<open>The number of tasks of the batch that do not simply return.\<close>

definition failures :: "('t \<Rightarrow> exec_outcome) \<Rightarrow> (size_t \<Rightarrow> 't) \<Rightarrow> size_t \<Rightarrow> nat" where
  "failures execute task n = length (filter (\<lambda>k. execute (task (of_nat k - 1)) \<noteq> Returned) [1..<Suc (unat n)])"

lemma batch_ended_states:
  assumes inv: "batch_inv execute task n b" and ph: "b_phase b = Ended False"
  shows "size {#r \<in># results (chans (eng_pool (b_engine b))). res_state r = Failed#} = failures execute task n"
    and "size {#r \<in># results (chans (eng_pool (b_engine b))). res_state r = Rejected#} = 0"
proof -
  let ?R = "results (chans (eng_pool (b_engine b)))"
  note fin = batch_ended_facts [OF inv ph]
  have count: "b_count b = n" using inv ph by (simp add: batch_inv_def phase_inv_def)
  have none: "refusals (chans (eng_pool (b_engine b))) = {#}" using inv ph by (simp add: batch_inv_def)
  then show "size {#r \<in># ?R. res_state r = Rejected#} = 0" by (simp add: refusals_def)
  have notrej: "res_state x \<noteq> Rejected" if "x \<in># ?R" for x
  proof
    assume "res_state x = Rejected"
    with that have "x \<in># refusals (chans (eng_pool (b_engine b)))" by (simp add: refusals_def)
    with none show False by simp
  qed
  have "res_state x = Failed \<longleftrightarrow> execute (task (res_id x - 1)) \<noteq> Returned" if "x \<in># ?R" for x
  proof -
    have "\<forall>x \<in># ?R. res_state x \<noteq> Rejected \<longrightarrow> res_state x = verdict execute (nth_task task (res_id x))"
      using inv by (simp add: batch_inv_def task_inv_def)
    with notrej [OF that] that have "res_state x = verdict execute (nth_task task (res_id x))" by blast
    then show ?thesis by (simp add: verdict_def nth_task_def)
  qed
  then have "{#x \<in># ?R. res_state x = Failed#} = {#x \<in># ?R. execute (task (res_id x - 1)) \<noteq> Returned#}"
    by (intro filter_mset_cong) simp_all
  then have "size {#x \<in># ?R. res_state x = Failed#}
      = size {#i \<in># image_mset res_id ?R. execute (task (i - 1)) \<noteq> Returned#}"
    by (simp add: filter_mset_image_mset)
  moreover have "opened (eng_pool (b_engine b)) = {#}"
    using quiescent_opened [OF batch_inv_pool(2) [OF inv]] fin(1) by (simp add: engine_quiet_def)
  then have "image_mset res_id ?R = image_mset of_nat (mset [1..<Suc (unat n)])"
    using id_inv_reach [of execute "b_engine b"] inv fin(4) count quiet_tickets [OF fin(1)]
    by (simp add: batch_inv_def id_inv_def pool_ids_def del: upt_Suc)
  ultimately show "size {#r \<in># ?R. res_state r = Failed#} = failures execute task n"
    by (simp only: failures_def size_filter_image)
qed

lemma batch_summary:
  assumes inv: "batch_inv execute task n b" and ph: "b_phase b = Ended d"
  obtains s where "summary (b_engine b) = Inr s" "rs_total s = b_count b"
    "rs_total s = rs_succeeded s + rs_failed s + rs_rejected s"
    "\<not> d \<Longrightarrow> b_count b = n \<and> rs_rejected s = 0 \<and> unat (rs_failed s) = failures execute task n"
proof -
  note fin = batch_ended_facts [OF inv ph]
  have "reach engine_init (engine_step execute) (b_engine b)" using inv by (simp add: batch_inv_def)
  from summary_counts [OF this fin(1,2)] obtain s where s: "summary (b_engine b) = Inr s"
      "rs_total s = submitted_count (b_engine b)" "rs_total s = rs_succeeded s + rs_failed s + rs_rejected s"
      "rs_failed s = of_nat (size {#r \<in># results (chans (eng_pool (b_engine b))). res_state r = Failed#})"
      "rs_rejected s = of_nat (size {#r \<in># results (chans (eng_pool (b_engine b))). res_state r = Rejected#})"
    by blast
  have "b_count b = n \<and> rs_rejected s = 0 \<and> unat (rs_failed s) = failures execute task n" if "\<not> d"
  proof -
    have ph: "b_phase b = Ended False" using ph that by simp
    have "failures execute task n \<le> unat n"
      using length_filter_le [of _ "[1..<Suc (unat n)]"] unfolding failures_def by (metis diff_Suc_1 length_upt)
    then have "failures execute task n < 2 ^ 64" by (rule unat_le_u64)
    with s(4,5) batch_ended_states [OF inv ph] inv ph show ?thesis by (simp add: batch_inv_def phase_inv_def)
  qed
  with s fin(3) that show thesis by metis
qed

end
