(* ===== verification/Tasks.thy ===== *)
theory Tasks
  imports Task_Core
begin

unbundle bit_operations_syntax

text \<open>
  The workloads of \<open>tasks/\<close>: \<open>ComputeTask\<close>, a splitmix64 loop on 64-bit words with a
  checksum in a member, and \<open>SleepTask\<close>, which waits. Both are what a worker's virtual call
  \<open>Task::execute\<close> can reach; neither throws.
\<close>

section \<open>ComputeTask\<close>

record compute_task =
  ct_iterations :: u64
  ct_seed :: u64
  ct_checksum :: u64

definition make_compute_task :: "u64 \<Rightarrow> u64 \<Rightarrow> compute_task" where
  "make_compute_task n s = \<lparr>ct_iterations = n, ct_seed = s, ct_checksum = 0\<rparr>"

text \<open>The two multiply-xorshift steps and the final xorshift of one round.\<close>

definition mix :: "u64 \<Rightarrow> u64" where
  "mix state =
     (let z = state;
          z = (z XOR drop_bit 30 z) * 0xBF58476D1CE4E5B9;
          z = (z XOR drop_bit 27 z) * 0x94D049BB133111EB
      in z XOR drop_bit 31 z)"

text \<open>The loop with its 64-bit counter; it ends because the counter stays below the bound.\<close>

function compute_loop :: "u64 \<Rightarrow> u64 \<Rightarrow> u64 \<Rightarrow> u64 \<Rightarrow> u64" where
  "compute_loop iterations i state checksum =
     (if i < iterations then
        let state' = state + 0x9E3779B97F4A7C15
        in compute_loop iterations (i + 1) state' (checksum XOR mix state')
      else checksum)"
  by pat_completeness auto

termination compute_loop
proof (relation "measure (\<lambda>(iterations, i, state, checksum). unat iterations - unat i)")
  fix iterations i state checksum state' :: u64
  assume i: "i < iterations"
  have "unat i < unat iterations" using i by (simp add: word_less_nat_alt)
  then show "((iterations, i + 1, state', checksum XOR mix state'), (iterations, i, state, checksum))
      \<in> measure (\<lambda>(iterations, i, state, checksum). unat iterations - unat i)"
    using unat_succ_below [OF i] by simp
qed simp

declare compute_loop.simps [simp del]

definition compute_execute :: "compute_task \<Rightarrow> compute_task" where
  "compute_execute t =
     t\<lparr>ct_checksum := compute_loop (ct_iterations t) 0 (ct_seed t) (ct_checksum t)\<rparr>"

text \<open>A call of \<open>ComputeTask::execute\<close> as a worker makes it: the loop ends, and nothing in it throws.\<close>

definition compute_call :: "compute_task \<Rightarrow> exec_outcome \<times> compute_task" where
  "compute_call t = (Returned, compute_execute t)"

lemma compute_call_outcome [simp]: "fst (compute_call t) = Returned"
  by (simp add: compute_call_def)

section \<open>SleepTask\<close>

record sleep_task =
  st_duration :: int

definition make_sleep_task :: "int \<Rightarrow> sleep_task" where
  "make_sleep_task d = \<lparr>st_duration = d\<rparr>"

text \<open>
  The parameter \<open>sleep_for\<close> tells how long the thread is really away when asked to sleep for so
  many nanoseconds.
\<close>

definition sleep_execute :: "(int \<Rightarrow> int) \<Rightarrow> sleep_task \<Rightarrow> time_point \<Rightarrow> time_point" where
  "sleep_execute sleep_for t now = now + sleep_for (1000 * st_duration t)"

section \<open>The stream of rounds\<close>

definition stream_xor :: "u64 \<Rightarrow> nat \<Rightarrow> u64" where
  "stream_xor s n = fold (\<lambda>k acc. acc XOR mix (s + of_nat (Suc k) * 0x9E3779B97F4A7C15)) [0..<n] 0"

lemma fold_xor_start:
  "fold (\<lambda>k acc. acc XOR f k) ks a = a XOR fold (\<lambda>k acc. acc XOR (f k :: u64)) ks 0"
proof (induction ks arbitrary: a)
  case Nil
  then show ?case by simp
next
  case (Cons k ks)
  show ?case using Cons [of "a XOR f k"] Cons [of "f k"] by (simp add: xor.assoc)
qed

lemma stream_xor_step:
  "stream_xor s (Suc n) = mix (s + 0x9E3779B97F4A7C15) XOR stream_xor (s + 0x9E3779B97F4A7C15) n"
proof -
  let ?g = "0x9E3779B97F4A7C15 :: u64"
  let ?f = "\<lambda>s k. mix (s + of_nat (Suc k) * ?g)"
  have "[0..<Suc n] = 0 # map Suc [0..<n]" by (simp add: map_Suc_upt upt_conv_Cons)
  then have "stream_xor s (Suc n) = fold (\<lambda>k acc. acc XOR ?f s (Suc k)) [0..<n] (mix (s + ?g))"
    by (simp add: stream_xor_def fold_map comp_def del: upt_Suc)
  also have "(\<lambda>k acc. acc XOR ?f s (Suc k)) = (\<lambda>k acc. acc XOR ?f (s + ?g) k)"
    by (simp add: algebra_simps)
  finally show ?thesis unfolding stream_xor_def by (subst (asm) fold_xor_start)
qed

lemma compute_loop_stream:
  "compute_loop n i s c = c XOR stream_xor s (unat n - unat i)"
proof (induction n i s c rule: compute_loop.induct)
  case (1 n i s c)
  let ?g = "0x9E3779B97F4A7C15 :: u64"
  show ?case
  proof (cases "i < n")
    case True
    then have "unat n - unat i = Suc (unat n - unat (i + 1))"
      using unat_succ_below [OF True] by (simp add: word_less_nat_alt)
    with 1 [OF True refl] True show ?thesis
      by (simp add: compute_loop.simps [of n i] Let_def stream_xor_step xor.assoc)
  next
    case False
    then show ?thesis by (simp add: compute_loop.simps [of n i] stream_xor_def word_less_nat_alt)
  qed
qed

section \<open>The mixing steps are invertible\<close>

lemma drop_bit_fixpoint:
  fixes w :: u64
  assumes "drop_bit k w = w" and "0 < k"
  shows "w = 0"
proof -
  have fixed: "drop_bit (k * n) w = w" for n
  proof (induction n)
    case (Suc n)
    have "drop_bit (k * Suc n) w = drop_bit (k * n) (drop_bit k w)"
      by (simp add: drop_bit_drop_bit add.commute)
    with Suc assms(1) show ?case by simp
  qed simp
  have "drop_bit (k * 64) w = 0"
    using assms(2) by (intro bit_eqI) (auto simp: bit_drop_bit_eq dest: bit_imp_le_length)
  with fixed [of 64] show ?thesis by simp
qed

lemma inj_xorshift: "0 < k \<Longrightarrow> inj (\<lambda>z :: u64. z XOR drop_bit k z)"
proof (rule injI)
  fix x y :: u64
  assume k: "0 < k" and eq: "x XOR drop_bit k x = y XOR drop_bit k y"
  have "drop_bit k (x XOR y) = (x XOR (x XOR drop_bit k x)) XOR drop_bit k y"
    by (simp add: drop_bit_xor xor.assoc [symmetric])
  also have "\<dots> = (x XOR (y XOR drop_bit k y)) XOR drop_bit k y" by (simp only: eq)
  also have "\<dots> = x XOR y" by (simp add: xor.assoc)
  finally have zero: "x XOR y = 0" using k by (rule drop_bit_fixpoint)
  have "x = (x XOR y) XOR y" by (simp add: xor.assoc)
  with zero show "x = y" by simp
qed

lemma inj_mult_unit: "c * d = 1 \<Longrightarrow> inj (\<lambda>z :: u64. z * c)"
proof (rule injI)
  fix x y :: u64
  assume "c * d = 1" and eq: "x * c = y * c"
  from eq have "(x * c) * d = (y * c) * d" by simp
  with \<open>c * d = 1\<close> show "x = y" by (simp add: mult.assoc)
qed

section \<open>Properties\<close>

text \<open>
  C39: \<open>ComputeTask::execute\<close> computes, with the wrap-around of 64-bit arithmetic, the xor of the
  mixed states \<open>seed + k * gamma\<close> for \<open>k\<close> from 1 to the iteration count, into the checksum it
  started from; so the result of a new task depends on iteration count and seed only, a task of no
  iterations leaves it alone, and executing the same object a second time cancels it again.
\<close>

theorem compute_task_checksum:
  "ct_checksum (compute_execute t) = ct_checksum t XOR
       fold (\<lambda>k acc. acc XOR mix (ct_seed t + of_nat (Suc k) * 0x9E3779B97F4A7C15))
         [0..<unat (ct_iterations t)] 0
     \<and> ct_checksum (compute_execute (make_compute_task 0 s)) = 0
     \<and> compute_execute (compute_execute t) = t"
  by (simp add: compute_execute_def compute_loop_stream make_compute_task_def stream_xor_def xor.assoc)

text \<open>
  One round is a permutation of the 64-bit words: no two states are mixed to the same value, so
  no work of an iteration is lost in the mixing.
\<close>

theorem mix_bijective: "bij mix"
proof -
  have mixing: "mix = (\<lambda>z. z XOR drop_bit 31 z) \<circ> (\<lambda>z. z * 0x94D049BB133111EB)
      \<circ> (\<lambda>z. z XOR drop_bit 27 z) \<circ> (\<lambda>z. z * 0xBF58476D1CE4E5B9) \<circ> (\<lambda>z. z XOR drop_bit 30 z)"
    by (simp add: fun_eq_iff mix_def Let_def)
  have "inj mix" unfolding mixing
    by (intro inj_compose inj_xorshift inj_mult_unit [of _ "0x319642b2d24d8ec3"] inj_mult_unit [of _ "0x96de1b173f119089"]) simp_all
  then show ?thesis by (simp add: bij_def finite_UNIV_inj_surj)
qed

end
