(* ===== verification/Options.thy ===== *)
theory Options
  imports Prelude
begin

text \<open>
  The command line of \<open>cli/options.hpp\<close> and \<open>options.cpp\<close>: parsing of unsigned numbers,
  the argument loop with every diagnostic, the defaults, the exit codes and the usage text. The
  value of \<open>std::thread::hardware_concurrency\<close> is a parameter. Out-parameters become option
  results, because the code only uses them when the parse succeeded.
\<close>

section \<open>Exit codes and options\<close>

definition k_exit_success :: int where "k_exit_success = 0"
definition k_exit_task_failure :: int where "k_exit_task_failure = 1"
definition k_exit_usage :: int where "k_exit_usage = 2"

definition exit_code_for :: "size_t \<Rightarrow> size_t \<Rightarrow> int" where
  "exit_code_for fails rejects =
     (if fails = 0 \<and> rejects = 0 then k_exit_success else k_exit_task_failure)"

record options =
  opt_workers :: size_t
  opt_tasks :: size_t
  opt_work :: u64
  opt_queue_capacity :: size_t
  opt_fail_every :: u64

datatype parse_result = Run options | Show_help | Show_version | Fail string

definition k_default_tasks :: size_t where "k_default_tasks = 1000"
definition k_default_work :: u64 where "k_default_work = 1000"
definition k_default_queue_capacity :: size_t where "k_default_queue_capacity = 1024"

definition default_worker_count :: "32 word \<Rightarrow> size_t" where
  "default_worker_count detected = (if detected = 0 then 1 else ucast detected)"

section \<open>Numbers\<close>

definition is_digit :: "char \<Rightarrow> bool" where
  "is_digit c \<longleftrightarrow> 48 \<le> (of_char c :: nat) \<and> (of_char c :: nat) \<le> 57"

definition digits_value :: "string \<Rightarrow> nat" where
  "digits_value ds = foldl (\<lambda>v c. 10 * v + (of_char c - 48)) 0 ds"

datatype errc = Invalid_number | Result_out_of_range

text \<open>
  \<open>std::from_chars\<close> for an unsigned 64-bit value in base 10: the longest run of digits, an error
  if there is none or if its value does not fit, and where it stopped.
\<close>

definition from_chars :: "string \<Rightarrow> (errc + u64) \<times> string" where
  "from_chars text =
     (let ds = takeWhile is_digit text; rest = dropWhile is_digit text
      in if ds = [] then (Inl Invalid_number, text)
         else if digits_value ds < 2 ^ 64 then (Inr (of_nat (digits_value ds)), rest)
         else (Inl Result_out_of_range, rest))"

definition parse_u64 :: "string \<Rightarrow> u64 option" where
  "parse_u64 text =
     (if text = [] then None
      else case from_chars text of
             (Inl ec, ptr) \<Rightarrow> None
           | (Inr v, ptr) \<Rightarrow> if ptr \<noteq> [] then None else Some v)"

definition parse_size :: "string \<Rightarrow> size_t option" where
  "parse_size text =
     (case parse_u64 text of
        None \<Rightarrow> None
      | Some v \<Rightarrow> if (- 1 :: size_t) < v then None else Some v)"

section \<open>Arguments\<close>

definition quoted :: "string \<Rightarrow> string" where
  "quoted text = CHR 0x27 # text @ [CHR 0x27]"

text \<open>The branch of one option with its value: the new options, or the diagnostic.\<close>

definition set_option :: "string \<Rightarrow> string \<Rightarrow> options \<Rightarrow> string + options" where
  "set_option arg v opts =
     (if arg = ''--workers'' then
        (case parse_size v of
           None \<Rightarrow> Inl (''--workers expects a non-negative integer, got '' @ quoted v)
         | Some n \<Rightarrow> Inr (opts\<lparr>opt_workers := n\<rparr>))
      else if arg = ''--tasks'' then
        (case parse_size v of
           None \<Rightarrow> Inl (''--tasks expects a non-negative integer, got '' @ quoted v)
         | Some n \<Rightarrow> Inr (opts\<lparr>opt_tasks := n\<rparr>))
      else if arg = ''--work'' then
        (case parse_u64 v of
           None \<Rightarrow> Inl (''--work expects a non-negative integer, got '' @ quoted v)
         | Some n \<Rightarrow> Inr (opts\<lparr>opt_work := n\<rparr>))
      else if arg = ''--queue-capacity'' then
        (case parse_size v of
           None \<Rightarrow> Inl (''--queue-capacity expects a non-negative integer, got '' @ quoted v)
         | Some n \<Rightarrow> Inr (opts\<lparr>opt_queue_capacity := n\<rparr>))
      else if arg = ''--fail-every'' then
        (case parse_u64 v of
           None \<Rightarrow> Inl (''--fail-every expects a non-negative integer, got '' @ quoted v)
         | Some n \<Rightarrow> Inr (opts\<lparr>opt_fail_every := n\<rparr>))
      else Inl (''unrecognised option '' @ quoted arg))"

text \<open>The loop over the arguments: an early result, or the options it leaves.\<close>

fun parse_loop :: "string list \<Rightarrow> options \<Rightarrow> parse_result + options" where
  "parse_loop [] opts = Inr opts"
| "parse_loop (arg # args) opts =
     (if arg = ''-h'' \<or> arg = ''--help'' then Inl Show_help
      else if arg = ''--version'' then Inl Show_version
      else if length arg < 3 \<or> take 2 arg \<noteq> ''--'' then
        Inl (Fail (''unrecognised argument '' @ quoted arg))
      else case args of
             [] \<Rightarrow> Inl (Fail (''option '' @ quoted arg @ '' requires a value''))
           | v # rest \<Rightarrow>
               (case set_option arg v opts of
                  Inl message \<Rightarrow> Inl (Fail message)
                | Inr opts' \<Rightarrow> parse_loop rest opts'))"

definition default_options :: "32 word \<Rightarrow> options" where
  "default_options detected =
     \<lparr>opt_workers = default_worker_count detected, opt_tasks = k_default_tasks,
      opt_work = k_default_work, opt_queue_capacity = k_default_queue_capacity, opt_fail_every = 0\<rparr>"

definition parse_args :: "32 word \<Rightarrow> string list \<Rightarrow> parse_result" where
  "parse_args detected args =
     (case parse_loop args (default_options detected) of
        Inl result \<Rightarrow> result
      | Inr opts \<Rightarrow>
          if opt_workers opts = 0 then Fail ''--workers must be at least 1''
          else if opt_queue_capacity opts = 0 then Fail ''--queue-capacity must be at least 1''
          else Run opts)"

section \<open>The usage text\<close>

definition usage :: string where
  "usage = concat (map (\<lambda>line. line @ [CHR 0x0A])
    [''task-engine - concurrent task processing engine'',
     [],
     ''Usage:'',
     ''  task-engine [options]'',
     [],
     ''Options:'',
     ''  --workers N          worker threads (default: hardware concurrency)'',
     ''  --tasks N            tasks to submit (default: 1000)'',
     ''  --work N             compute iterations per task (default: 1000)'',
     ''                       0 submits empty tasks, measuring engine overhead'',
     ''  --queue-capacity N   bounded queue capacity (default: 1024)'',
     ''  --fail-every N       make every Nth task throw (default: 0, never)'',
     ''                       fault injection, for exercising the failure path'',
     ''  -h, --help           print this help and exit'',
     ''      --version        print the version and exit'',
     [],
     ''Exit codes:'',
     ''  0  every task succeeded'',
     ''  1  the run completed, but at least one task failed or was rejected'',
     ''  2  invalid usage or configuration'',
     [],
     ''Examples:'',
     ''  task-engine --workers 8 --tasks 10000 --work 500'',
     ''  task-engine --workers 1 --tasks 100 --work 0'',
     ''  task-engine --tasks 100 --fail-every 10''])"

section \<open>Facts on numbers\<close>

lemma digits_value_snoc: "digits_value (ds @ [c]) = 10 * digits_value ds + (of_char c - 48)"
  by (simp add: digits_value_def)

text \<open>The decimal numeral of a natural number, as a caller would type it.\<close>

fun decimal :: "nat \<Rightarrow> string" where
  "decimal n = (if n < 10 then [char_of (48 + n)] else decimal (n div 10) @ [char_of (48 + n mod 10)])"

declare decimal.simps [simp del]

lemma of_char_digit: "d < 10 \<Longrightarrow> (of_char (char_of (48 + d :: nat)) :: nat) = 48 + d"
  by (simp add: of_char_of)

lemma is_digit_char: "d < 10 \<Longrightarrow> is_digit (char_of (48 + d :: nat))"
  by (simp add: is_digit_def of_char_of)

lemma decimal_digits: "list_all is_digit (decimal n)" and decimal_nonempty: "decimal n \<noteq> []"
  and decimal_value: "digits_value (decimal n) = n"
proof (induction n rule: decimal.induct)
  case (1 n)
  {
    case 1
    with "1.IH" show ?case by (subst decimal.simps) (simp add: is_digit_char)
  next
    case 2
    show ?case by (subst decimal.simps) simp
  next
    case 3
    with "1.IH" show ?case
      by (subst decimal.simps) (simp add: digits_value_snoc of_char_of digits_value_def [of "[_]"])
  }
qed

lemma parse_u64_iff:
  "parse_u64 text = Some v \<longleftrightarrow>
     text \<noteq> [] \<and> list_all is_digit text \<and> digits_value text < 2 ^ 64 \<and> v = of_nat (digits_value text)"
proof (cases "list_all is_digit text")
  case True
  then have all: "takeWhile is_digit text = text" "dropWhile is_digit text = []"
    by (simp_all add: list_all_iff)
  show ?thesis unfolding parse_u64_def from_chars_def Let_def all using True by auto
next
  case False
  then have "dropWhile is_digit text \<noteq> []" by (simp add: list_all_iff dropWhile_eq_Nil_conv)
  with False show ?thesis by (auto simp: parse_u64_def from_chars_def Let_def split: if_splits)
qed

lemma parse_size_eq [simp]: "parse_size text = parse_u64 text"
  by (auto simp: parse_size_def split: option.splits)

lemma parse_u64_decimal: "parse_u64 (decimal (unat v)) = Some v"
  using unsigned_less [of v, where ?'a = nat]
  by (simp add: parse_u64_iff decimal_digits decimal_nonempty decimal_value)

section \<open>Facts on the loop\<close>

definition option_names :: "string list" where
  "option_names = [''--workers'', ''--tasks'', ''--work'', ''--queue-capacity'', ''--fail-every'']"

lemma set_option_unknown:
  "arg \<notin> set option_names \<Longrightarrow> set_option arg v opts = Inl (''unrecognised option '' @ quoted arg)"
  by (simp add: set_option_def option_names_def)

lemma set_option_error_nonempty: "set_option arg v opts = Inl message \<Longrightarrow> message \<noteq> []"
  by (auto simp: set_option_def split: if_splits option.splits)

lemma parse_loop_error_nonempty: "parse_loop args opts = Inl (Fail message) \<Longrightarrow> message \<noteq> []"
  by (induction args opts rule: parse_loop.induct)
     (auto split: if_splits list.splits sum.splits dest: set_option_error_nonempty)

lemma parse_loop_not_run: "parse_loop args opts \<noteq> Inl (Run opts')"
  by (induction args opts rule: parse_loop.induct) (auto split: list.splits sum.splits)

lemma parse_args_valid:
  "parse_args detected args = Run opts \<Longrightarrow> opt_workers opts \<noteq> 0 \<and> opt_queue_capacity opts \<noteq> 0"
  by (auto simp: parse_args_def parse_loop_not_run split: sum.splits if_splits)

lemma parse_args_message: "parse_args detected args = Fail message \<Longrightarrow> message \<noteq> []"
  by (auto simp: parse_args_def dest: parse_loop_error_nonempty split: sum.splits if_splits)

text \<open>The argument list that sets the five options to the given numbers.\<close>

definition render :: "options \<Rightarrow> string list" where
  "render opts =
     [''--workers'', decimal (unat (opt_workers opts)), ''--tasks'', decimal (unat (opt_tasks opts)),
      ''--work'', decimal (unat (opt_work opts)),
      ''--queue-capacity'', decimal (unat (opt_queue_capacity opts)),
      ''--fail-every'', decimal (unat (opt_fail_every opts))]"

section \<open>Properties\<close>

text \<open>
  C35: A text is accepted as a number exactly when it is a non-empty run of decimal digits whose
  value fits into 64 bits, and then the result is that value: no sign, no space, no trailing
  characters, no wrap-around.
\<close>

theorem parse_u64_exact:
  "(parse_u64 str = Some v \<longleftrightarrow>
      str \<noteq> [] \<and> list_all is_digit str \<and> digits_value str < 2 ^ 64 \<and> unat v = digits_value str)
   \<and> parse_size str = parse_u64 str"
proof -
  have "v = of_nat (digits_value str) \<longleftrightarrow> unat v = digits_value str" if "digits_value str < 2 ^ 64"
    using that by (auto simp: word_eq_iff_unsigned [where ?'a = nat])
  then show ?thesis using parse_u64_iff [of str v] by auto
qed

text \<open>
  C36: What is printed is parsed back: the decimal numerals of any valid configuration, given
  with their option names, are parsed to exactly that configuration, whatever the machine's default.
\<close>

theorem parse_render_roundtrip:
  assumes "opt_workers opts \<noteq> 0" and "opt_queue_capacity opts \<noteq> 0"
  shows "parse_args detected (render opts) = Run opts"
  using assms
  by (simp add: parse_args_def render_def set_option_def parse_u64_decimal default_options_def)

theorem parse_render_roundtrip_witness:
  "parse_args 8 (render \<lparr>opt_workers = 3, opt_tasks = 0, opt_work = 18446744073709551615,
       opt_queue_capacity = 1, opt_fail_every = 7\<rparr>)
     = Run \<lparr>opt_workers = 3, opt_tasks = 0, opt_work = 18446744073709551615,
       opt_queue_capacity = 1, opt_fail_every = 7\<rparr>"
  by (rule parse_render_roundtrip) simp_all

text \<open>
  A configuration that parses is usable: the number of workers and the queue capacity are not
  zero, so the engine's constructor does not refuse it; a failure always carries a message.
\<close>

theorem parsed_options_valid:
  "case parse_args detected args of
     Run opts \<Rightarrow> opt_workers opts \<noteq> 0 \<and> opt_queue_capacity opts \<noteq> 0
   | Fail message \<Rightarrow> message \<noteq> []
   | _ \<Rightarrow> True"
  using parse_args_valid [of detected args] parse_args_message [of detected args]
  by (cases "parse_args detected args") simp_all

text \<open>
  The argument loop answers every line: a help or version flag in option position ends it
  with that action, whatever follows; anything that is not a long option, an option without a value
  and an unknown option are each refused with a message that quotes it; and a known option
  with a valid number continues with that number stored.
\<close>

theorem parse_loop_branches:
  "parse_loop (''-h'' # args) opts = Inl Show_help
   \<and> parse_loop (''--help'' # args) opts = Inl Show_help
   \<and> parse_loop (''--version'' # args) opts = Inl Show_version
   \<and> (length arg < 3 \<and> arg \<noteq> ''-h'' \<or> arg \<noteq> ''-h'' \<and> take 2 arg \<noteq> ''--'' \<longrightarrow>
        parse_loop (arg # args) opts = Inl (Fail (''unrecognised argument '' @ quoted arg)))
   \<and> (2 < length arg \<and> take 2 arg = ''--'' \<and> arg \<notin> {''--help'', ''--version''} \<longrightarrow>
        parse_loop [arg] opts = Inl (Fail (''option '' @ quoted arg @ '' requires a value''))
        \<and> (arg \<notin> set option_names \<longrightarrow>
             parse_loop (arg # v # args) opts = Inl (Fail (''unrecognised option '' @ quoted arg))))
   \<and> (parse_u64 v = Some n \<longrightarrow>
        parse_loop (''--workers'' # v # args) opts = parse_loop args (opts\<lparr>opt_workers := n\<rparr>)
        \<and> parse_loop (''--tasks'' # v # args) opts = parse_loop args (opts\<lparr>opt_tasks := n\<rparr>)
        \<and> parse_loop (''--work'' # v # args) opts = parse_loop args (opts\<lparr>opt_work := n\<rparr>)
        \<and> parse_loop (''--queue-capacity'' # v # args) opts = parse_loop args (opts\<lparr>opt_queue_capacity := n\<rparr>)
        \<and> parse_loop (''--fail-every'' # v # args) opts = parse_loop args (opts\<lparr>opt_fail_every := n\<rparr>))"
  by (auto simp: set_option_unknown) (simp_all add: set_option_def)

theorem parse_loop_branches_witness:
  "parse_loop [''--wurkers'', ''3''] (default_options 4)
     = Inl (Fail (''unrecognised option '' @ quoted ''--wurkers''))"
  using parse_loop_branches [of "[]" "default_options 4" "''--wurkers''" "''3''"]
  by (simp add: option_names_def)

end
