(* ===== verification/Doubles.thy ===== *)
theory Doubles
  imports Options
begin

text \<open>
  The floating-point arithmetic and printing that the report uses: IEEE 754 binary64 with
  round-to-nearest-even, and \<open>std::fixed\<close> output with a given precision. Only non-negative values
  of normal size occur, so a value is a fraction of natural numbers, and the operations are exact
  integer computations. The lemmas bound the rounding errors.
\<close>

section \<open>Operations\<close>

type_synonym double = "nat \<times> nat"

text \<open>\<open>a / b\<close> rounded to the nearest natural number, ties to even.\<close>

definition rne :: "nat \<Rightarrow> nat \<Rightarrow> nat" where
  "rne a b = (let q = a div b; r = a mod b
     in if 2 * r < b \<or> 2 * r = b \<and> even q then q else q + 1)"

fun bits :: "nat \<Rightarrow> nat" where
  "bits n = (if n = 0 then 0 else Suc (bits (n div 2)))"

declare bits.simps [simp del]

text \<open>
  The double nearest to \<open>a / b\<close>: a 53-bit significand, scaled by the power of two that puts the
  value between \<open>2 ^ 52\<close> and \<open>2 ^ 53\<close>.
\<close>

definition scaled_up :: "nat \<Rightarrow> nat \<Rightarrow> int \<Rightarrow> nat \<times> nat" where
  "scaled_up a b s = (if 0 \<le> s then (a * 2 ^ nat s, b) else (a, b * 2 ^ nat (- s)))"

definition to_double :: "nat \<Rightarrow> nat \<Rightarrow> double" where
  "to_double a b =
     (if a = 0 then (0, 1)
      else let s0 = 52 - (int (bits a) - int (bits b));
               s = (case scaled_up a b s0 of (x, y) \<Rightarrow> if 2 ^ 52 * y \<le> x then s0 else s0 + 1);
               m = (case scaled_up a b s of (x, y) \<Rightarrow> rne x y)
           in if 0 \<le> s then (m, 2 ^ nat s) else (m * 2 ^ nat (- s), 1))"

definition double_of_nat :: "nat \<Rightarrow> double" where
  "double_of_nat n = to_double n 1"

definition double_div :: "double \<Rightarrow> double \<Rightarrow> double" where
  "double_div x y = to_double (fst x * snd y) (snd x * fst y)"

definition double_ge :: "double \<Rightarrow> nat \<Rightarrow> bool" where
  "double_ge x n \<longleftrightarrow> n * snd x \<le> fst x"

text \<open>Fixed notation: the value times a power of ten, rounded, with a point put into it.\<close>

definition fixed :: "nat \<Rightarrow> double \<Rightarrow> string" where
  "fixed precision x =
     (let h = rne (fst x * 10 ^ precision) (snd x); frac = decimal (h mod 10 ^ precision)
      in if precision = 0 then decimal h
         else decimal (h div 10 ^ precision) @ ''.'' @ replicate (precision - length frac) (CHR ''0'') @ frac)"

section \<open>Rounding errors\<close>

lemma rne_exact [simp]: "0 < b \<Longrightarrow> rne (a * b) b = a"
  by (simp add: rne_def)

lemma rne_bound:
  assumes "0 < b"
  shows "2 * \<bar>int (rne a b) * int b - int a\<bar> \<le> int b"
proof -
  let ?q = "a div b" and ?r = "a mod b"
  have a: "int a = int ?q * int b + int ?r" by (metis div_mult_mod_eq of_nat_add of_nat_mult)
  have r: "?r < b" using assms by simp
  show ?thesis
  proof (cases "2 * ?r < b \<or> 2 * ?r = b \<and> even ?q")
    case True
    then have "rne a b = ?q" by (simp add: rne_def)
    with True show ?thesis by (auto simp: a)
  next
    case False
    then have q: "rne a b = ?q + 1" by (auto simp: rne_def Let_def)
    have "int (rne a b) * int b - int a = int b - int ?r" by (simp add: a q distrib_right)
    with False r show ?thesis by auto
  qed
qed

lemma bits_bounds: "0 < n \<Longrightarrow> 2 ^ (bits n - 1) \<le> n \<and> n < 2 ^ bits n \<and> 0 < bits n"
proof (induction n rule: bits.induct)
  case (1 n)
  show ?case
  proof (cases "n div 2 = 0")
    case True
    with 1 have "n = 1" by simp
    then show ?thesis by (simp add: bits.simps)
  next
    case False
    with 1 have ih: "2 ^ (bits (n div 2) - 1) \<le> n div 2" "n div 2 < 2 ^ bits (n div 2)" "0 < bits (n div 2)" by simp_all
    have b: "bits n = Suc (bits (n div 2))" using 1 by (subst bits.simps) simp
    have "2 ^ bits (n div 2) = (2 :: nat) * 2 ^ (bits (n div 2) - 1)" using ih(3) by (metis Suc_diff_1 power_Suc)
    with ih show ?thesis by (simp add: b) linarith
  qed
qed

text \<open>For a value below \<open>2 ^ 52\<close> the scaling is upwards, and the significand has its full length.\<close>

lemma to_double_spec:
  assumes "0 < a" and "0 < b" and "a < 2 ^ 52 * b"
  obtains s where "to_double a b = (rne (a * 2 ^ s) b, 2 ^ s)" and "2 ^ 52 * b \<le> a * 2 ^ s"
proof -
  note A = bits_bounds [OF assms(1)] and B = bits_bounds [OF assms(2)]
  have "bits a \<le> bits b + 52"
  proof (rule ccontr)
    assume "\<not> bits a \<le> bits b + 52"
    then have "2 ^ (bits b + 52) \<le> (2 :: nat) ^ (bits a - 1)" by (intro power_increasing) simp_all
    also have "\<dots> \<le> a" using A by simp
    also have "\<dots> < 2 ^ 52 * b" by (rule assms(3))
    also have "\<dots> < 2 ^ 52 * 2 ^ bits b" using B by simp
    also have "\<dots> = 2 ^ (bits b + 52)" by (simp only: power_add mult.commute)
    finally show False by simp
  qed
  moreover define s0 where "s0 = bits b + 52 - bits a"
  ultimately have s0: "bits a + s0 = bits b + 52" by simp
  then have i: "52 - (int (bits a) - int (bits b)) = int s0" by linarith
  show thesis
  proof (cases "2 ^ 52 * b \<le> a * 2 ^ s0")
    case True
    with assms(1) show thesis
      by (intro that [of s0]) (simp_all add: to_double_def scaled_up_def i)
  next
    case False
    have e: "52 + bits b = (bits a - 1) + Suc s0" using A s0 by linarith
    have "2 ^ 52 * b < 2 ^ 52 * 2 ^ bits b" using B by simp
    also have "\<dots> = (2 :: nat) ^ (52 + bits b)" by (simp only: power_add)
    also have "\<dots> = 2 ^ (bits a - 1) * 2 ^ Suc s0" by (simp only: e power_add)
    also have "\<dots> \<le> a * 2 ^ Suc s0" using A by (intro mult_le_mono1) simp
    finally have "2 ^ 52 * b \<le> a * 2 ^ Suc s0" by simp
    moreover have "int s0 + 1 = int (Suc s0)" by simp
    ultimately show thesis
      using assms(1) False
      by (intro that [of "Suc s0"]) (simp_all add: to_double_def scaled_up_def i nat_add_distrib del: power_Suc)
  qed
qed

text \<open>Integers below \<open>2 ^ 52\<close> are represented exactly.\<close>

lemma double_of_nat_exact:
  assumes "0 < n" and "n < 2 ^ 52"
  obtains s where "double_of_nat n = (n * 2 ^ s, 2 ^ s)"
proof -
  have "n < 2 ^ 52 * 1" using assms(2) by simp
  from to_double_spec [OF assms(1) zero_less_one this] obtain s
    where "to_double n 1 = (rne (n * 2 ^ s) 1, 2 ^ s)" .
  moreover have "rne (n * 2 ^ s) 1 = n * 2 ^ s" using rne_exact [of 1 "n * 2 ^ s"] by simp
  ultimately show thesis by (intro that [of s]) (simp add: double_of_nat_def)
qed

text \<open>
  Dividing an integer by \<open>u\<close> and printing two decimals rounds to the nearest hundredth, as if
  computed exactly, while the quotient is below \<open>2 ^ 23\<close> and \<open>u\<close> is a multiple of 200 below
  \<open>2 ^ 30\<close>: the two roundings together are too small to reach the next hundredth.
\<close>

lemma rounded_twice:
  fixes m n u h p :: int
  assumes "2 * \<bar>m * u - n * p\<bar> \<le> u" and "2 * \<bar>h * p - m * 100\<bar> \<le> p" and "0 < u" and "u < 2 * p"
    and "200 dvd u"
  shows "2 * \<bar>h * u - 100 * n\<bar> \<le> u"
proof -
  let ?Y = "2 * \<bar>h * u - 100 * n\<bar>"
  have p: "0 < p" using assms(3,4) by linarith
  have "(h * u - 100 * n) * p = u * (h * p - m * 100) + 100 * (m * u - n * p)" by (simp add: algebra_simps)
  then have "\<bar>(h * u - 100 * n) * p\<bar> \<le> \<bar>u * (h * p - m * 100)\<bar> + \<bar>100 * (m * u - n * p)\<bar>"
    by (simp only: abs_triangle_ineq)
  then have "\<bar>h * u - 100 * n\<bar> * p \<le> u * \<bar>h * p - m * 100\<bar> + 100 * \<bar>m * u - n * p\<bar>"
    using p assms(3) by (simp only: abs_mult abs_of_pos abs_numeral)
  moreover have "2 * (u * \<bar>h * p - m * 100\<bar>) \<le> u * p" using assms(2,3) mult_left_mono [OF assms(2), of u] by simp
  moreover have "2 * (100 * \<bar>m * u - n * p\<bar>) \<le> 100 * u" using assms(1) by simp
  ultimately have "?Y * p \<le> u * p + 100 * u" by simp
  also have "\<dots> < (u + 200) * p" using assms(4) by (simp add: distrib_right)
  finally have lt: "?Y < u + 200" using p by (simp add: mult_less_cancel_right)
  obtain v where u: "u = 200 * v" using assms(5) by (auto simp: dvd_def)
  have "h * u - 100 * n = 100 * (2 * h * v - n)" by (simp add: u algebra_simps)
  then have Y: "?Y = 200 * \<bar>2 * h * v - n\<bar>" by (simp only: abs_mult)
  with lt have "\<bar>2 * h * v - n\<bar> < v + 1" by (simp add: u)
  then show ?thesis by (simp add: Y u)
qed

lemma fixed_two_digits:
  "fixed 2 x = decimal (h div 100) @ ''.'' @ replicate (2 - length (decimal (h mod 100))) (CHR ''0'') @ decimal (h mod 100)"
  if "h = rne (fst x * 100) (snd x)"
  by (simp add: fixed_def that Let_def)

lemma quotient_rounds:
  assumes "0 < n" and "0 < u" and "u \<le> n" and "n < 2 ^ 23 * u" and "u < 2 ^ 30" and "200 dvd u"
    and "fst d = n * snd d" and "0 < snd d"
  shows "2 * \<bar>int (rne (fst (double_div d (double_of_nat u)) * 100) (snd (double_div d (double_of_nat u)))) * int u
          - 100 * int n\<bar> \<le> int u"
proof -
  have "u < 2 ^ 52" using assms(5) by simp
  then obtain t where t: "double_of_nat u = (u * 2 ^ t, 2 ^ t)" using double_of_nat_exact assms(2) by blast
  let ?a = "n * snd d * 2 ^ t" and ?b = "snd d * (u * 2 ^ t)"
  let ?c = "snd d * 2 ^ t"
  have ab: "?a = n * ?c" "?b = u * ?c" by (simp_all add: ac_simps)
  have c: "0 < ?c" using assms(8) by simp
  have "?a < 2 ^ 52 * ?b"
  proof -
    have "n < 2 ^ 52 * u" using assms(2,4) by simp
    then have "n * ?c < 2 ^ 52 * u * ?c" using c by simp
    then show ?thesis by (simp add: ab ac_simps)
  qed
  moreover have "0 < ?a" "0 < ?b" using assms(1,2,8) by simp_all
  ultimately obtain s where s: "to_double ?a ?b = (rne (?a * 2 ^ s) ?b, 2 ^ s)" and big: "2 ^ 52 * ?b \<le> ?a * 2 ^ s"
    using to_double_spec by blast
  let ?m = "rne (?a * 2 ^ s) ?b"
  have dd: "double_div d (double_of_nat u) = (?m, 2 ^ s)" using s by (simp add: double_div_def t assms(7) ac_simps)
  have m: "2 * \<bar>int ?m * int u - int n * 2 ^ s\<bar> \<le> int u"
  proof -
    have "2 * \<bar>int ?m * int ?b - int (?a * 2 ^ s)\<bar> \<le> int ?b" by (rule rne_bound) (use c assms(2) in simp)
    moreover have "int ?m * int ?b - int (?a * 2 ^ s) = (int ?m * int u - int n * 2 ^ s) * int ?c"
      by (simp add: algebra_simps)
    ultimately have "2 * \<bar>int ?m * int u - int n * 2 ^ s\<bar> * int ?c \<le> int u * int ?c"
      using c by (simp add: abs_mult ab ac_simps)
    then show ?thesis using c by (metis mult_le_cancel_right_pos of_nat_0_less_iff)
  qed
  have h: "2 * \<bar>int (rne (?m * 100) (2 ^ s)) * 2 ^ s - int ?m * 100\<bar> \<le> 2 ^ s"
    using rne_bound [of "2 ^ s" "?m * 100"] by simp
  have "2 ^ 52 * u * ?c \<le> n * 2 ^ s * ?c" using big by (simp only: ab ac_simps)
  then have "2 ^ 52 * u \<le> n * 2 ^ s" using c by simp
  also have "\<dots> < 2 ^ 23 * u * 2 ^ s" using assms(4) by simp
  finally have "(2 :: nat) ^ 52 < 2 ^ 23 * 2 ^ s" using assms(2) by simp
  then have "(2 :: nat) ^ 30 < 2 * 2 ^ s" by simp
  with assms(5) have "u < 2 * 2 ^ s" by linarith
  then have "int u < 2 * 2 ^ s" by (metis of_nat_less_iff of_nat_mult of_nat_numeral of_nat_power)
  moreover have "200 dvd int u" using assms(6) int_dvd_int_iff [of 200 u] by simp
  ultimately show ?thesis
    using rounded_twice [OF m h] assms(2) by (simp add: dd)
qed

section \<open>Lengths of numerals\<close>

lemma length_decimal: "n < 10 ^ k \<Longrightarrow> 0 < k \<Longrightarrow> length (decimal n) \<le> k"
proof (induction k arbitrary: n)
  case (Suc k)
  show ?case
  proof (cases "n < 10")
    case True
    then show ?thesis by (subst decimal.simps) simp
  next
    case False
    then have "0 < k" using Suc.prems(1) by (cases k) auto
    moreover have "n div 10 < 10 ^ k" using Suc.prems(1) by (simp add: less_mult_imp_div_less mult.commute)
    ultimately show ?thesis using Suc.IH [of "n div 10"] False by (subst decimal.simps) simp
  qed
qed simp

lemma length_fixed_two: "length (fixed 2 x) = length (decimal (rne (fst x * 100) (snd x) div 100)) + 3"
proof -
  have "length (decimal (h mod 100)) \<le> 2" for h by (rule length_decimal) simp_all
  then show ?thesis by (simp add: fixed_def Let_def)
qed

end
