(* ===== verification/Console.thy ===== *)
theory Console
  imports Doubles Run_Summary
begin

text \<open>
  What \<open>app/main.cpp\<close> prints: durations with adaptive units, the table of statistics, the
  configuration before the run and the outcome after it, as the strings that go into the output
  stream. The version string is a parameter, because the build generates it.
\<close>

section \<open>Stream manipulators\<close>

definition nl :: string where
  "nl = [CHR 0x0A]"

text \<open>\<open>std::left << std::setw(w)\<close> and \<open>std::right << std::setw(w)\<close>.\<close>

definition left_w :: "nat \<Rightarrow> string \<Rightarrow> string" where
  "left_w w s = s @ replicate (w - length s) (CHR '' '')"

definition right_w :: "nat \<Rightarrow> string \<Rightarrow> string" where
  "right_w w s = replicate (w - length s) (CHR '' '') @ s"

text \<open>An unsigned number.\<close>

definition num :: "u64 \<Rightarrow> string" where
  "num n = decimal (unat n)"

section \<open>The functions\<close>

text \<open>A negative duration compares below every unit and is printed in nanoseconds with its sign.\<close>

definition format_duration :: "duration \<Rightarrow> string" where
  "format_duration d =
     (let nanoseconds = double_of_nat (nat \<bar>d\<bar>);
          (unit, scaled) =
            (if 0 \<le> d \<and> double_ge nanoseconds (10 ^ 9) then (''s'', double_div nanoseconds (double_of_nat (10 ^ 9)))
             else if 0 \<le> d \<and> double_ge nanoseconds (10 ^ 6) then (''ms'', double_div nanoseconds (double_of_nat (10 ^ 6)))
             else if 0 \<le> d \<and> double_ge nanoseconds (10 ^ 3) then (''us'', double_div nanoseconds (double_of_nat (10 ^ 3)))
             else (''ns'', nanoseconds))
      in (if d < 0 then ''-'' else '''') @ fixed 2 scaled @ unit)"

definition print_stats_row :: "string \<Rightarrow> duration_stats \<Rightarrow> string" where
  "print_stats_row label stats =
     ''  '' @ left_w 14 label @ right_w 12 (format_duration (ds_min stats))
     @ right_w 12 (format_duration (ds_p50 stats)) @ right_w 12 (format_duration (ds_p95 stats))
     @ right_w 12 (format_duration (ds_max stats)) @ right_w 12 (format_duration (mean stats)) @ nl"

definition print_configuration :: "string \<Rightarrow> options \<Rightarrow> string" where
  "print_configuration version opts =
     ''task-engine '' @ version @ nl @ nl
     @ ''configuration'' @ nl
     @ ''  workers          '' @ num (opt_workers opts) @ nl
     @ ''  tasks            '' @ num (opt_tasks opts) @ nl
     @ ''  work             '' @ num (opt_work opts) @ nl
     @ ''  queue capacity   '' @ num (opt_queue_capacity opts) @ nl
     @ ''  fail every       '' @ num (opt_fail_every opts) @ nl @ nl
     @ ''running...'' @ nl"

text \<open>
  \<open>std::chrono::duration<double>\<close> counts seconds: the ticks divided by \<open>1e9\<close>. It is positive
  exactly when the duration is.
\<close>

definition throughput :: "size_t \<Rightarrow> duration \<Rightarrow> string" where
  "throughput n wall_time =
     (if 0 < wall_time \<and> 0 < n then
        fixed 0 (double_div (double_of_nat (unat n))
                   (double_div (double_of_nat (nat wall_time)) (double_of_nat (10 ^ 9)))) @ '' tasks/s'' @ nl
      else ''n/a (run too short to measure)'' @ nl)"

definition table_header :: string where
  "table_header =
     left_w 16 ''  durations'' @ right_w 12 ''min'' @ right_w 12 ''p50'' @ right_w 12 ''p95''
     @ right_w 12 ''max'' @ right_w 12 ''mean'' @ nl"

definition print_outcome :: "run_summary \<Rightarrow> duration \<Rightarrow> size_t \<Rightarrow> bool \<Rightarrow> string" where
  "print_outcome s wall_time requested interrupted =
     nl @ ''outcome'' @ nl
     @ (if interrupted then
          ''  interrupted      yes, after '' @ num (rs_total s) @ '' of '' @ num requested @ '' submissions'' @ nl
        else '''')
     @ ''  submitted        '' @ num (rs_total s) @ nl
     @ ''  succeeded        '' @ num (rs_succeeded s) @ nl
     @ ''  failed           '' @ num (rs_failed s) @ nl
     @ ''  rejected         '' @ num (rs_rejected s) @ nl @ nl
     @ (if 0 < ds_count (rs_total_latency s) then
          table_header
          @ print_stats_row ''queue wait'' (rs_queue_wait s)
          @ print_stats_row ''execution'' (rs_execution_time s)
          @ print_stats_row ''latency'' (rs_total_latency s) @ nl
        else '''')
     @ ''wall time          '' @ format_duration wall_time @ nl
     @ ''throughput         '' @ throughput (rs_total s) wall_time
     @ nl @ ''Single run, no warm-up: these are what this invocation did, not a'' @ nl
     @ ''benchmark. Use bench-task-engine for repeatable measurement.'' @ nl"

section \<open>Durations\<close>

definition duration_unit :: "duration \<Rightarrow> nat \<times> string" where
  "duration_unit d =
     (if 10 ^ 9 \<le> d then (10 ^ 9, ''s'') else if 10 ^ 6 \<le> d then (10 ^ 6, ''ms'')
      else if 10 ^ 3 \<le> d then (10 ^ 3, ''us'') else (1, ''ns''))"

lemma double_of_small:
  assumes "n < 2 ^ 52"
  shows "fst (double_of_nat n) = n * snd (double_of_nat n)" and "0 < snd (double_of_nat n)"
proof -
  have "fst (double_of_nat n) = n * snd (double_of_nat n) \<and> 0 < snd (double_of_nat n)"
  proof (cases "n = 0")
    case True
    then show ?thesis by (simp add: double_of_nat_def to_double_def)
  next
    case False
    with assms obtain s where "double_of_nat n = (n * 2 ^ s, 2 ^ s)" using double_of_nat_exact by blast
    then show ?thesis by simp
  qed
  then show "fst (double_of_nat n) = n * snd (double_of_nat n)" "0 < snd (double_of_nat n)" by simp_all
qed

text \<open>The value that is printed, and that it is the duration in its unit, rounded.\<close>

definition scaled_duration :: "nat \<Rightarrow> nat \<Rightarrow> double" where
  "scaled_duration n u = (if u = 1 then double_of_nat n else double_div (double_of_nat n) (double_of_nat u))"

lemma format_duration_unit:
  assumes "0 \<le> d" and "d < 2 ^ 52"
  shows "format_duration d = fixed 2 (scaled_duration (nat d) (fst (duration_unit d))) @ snd (duration_unit d)"
proof -
  have n: "nat d < 2 ^ 52" using assms by simp
  have ge: "double_ge (double_of_nat (nat d)) k \<longleftrightarrow> k \<le> nat d" for k
    using double_of_small [OF n] by (simp add: double_ge_def)
  have k: "numeral k \<le> nat d \<longleftrightarrow> numeral k \<le> d" for k using assms(1) by (simp add: le_nat_iff)
  show ?thesis
    using assms(1)
    by (simp add: format_duration_def duration_unit_def scaled_duration_def ge k)
qed

lemma scaled_duration_rounds:
  assumes "0 \<le> d" and "d < 2 ^ 22 * 10 ^ 9"
  defines "u \<equiv> fst (duration_unit d)"
  defines "h \<equiv> rne (fst (scaled_duration (nat d) u) * 100) (snd (scaled_duration (nat d) u))"
  shows "2 * \<bar>int h * int u - 100 * d\<bar> \<le> int u"
proof -
  let ?n = "nat d"
  have n: "?n < 2 ^ 52" and d: "d = int ?n" using assms by simp_all
  note small = double_of_small [OF n]
  show ?thesis
  proof (cases "u = 1")
    case True
    then have "h = rne ((100 * ?n) * snd (double_of_nat ?n)) (snd (double_of_nat ?n))"
      using small by (simp add: h_def scaled_duration_def ac_simps)
    also have "\<dots> = 100 * ?n" by (rule rne_exact) (rule small)
    finally show ?thesis using d by (simp add: True)
  next
    case False
    then have u: "0 < u" "u \<le> ?n" "u < 2 ^ 30" "200 dvd u" "?n < 2 ^ 23 * u"
      using assms(1,2) by (auto simp: u_def duration_unit_def split: if_splits)
    have "0 < ?n" using u by linarith
    from quotient_rounds [OF this u(1,2,5,3,4) small] False d show ?thesis
      by (simp add: h_def scaled_duration_def)
  qed
qed

lemma half_le:
  fixes a b c :: int
  assumes "2 * \<bar>a - b\<bar> \<le> c"
  shows "a \<le> b + c"
  using assms by presburger

text \<open>No duration below 48 days needs more than eleven characters.\<close>

lemma length_format_duration:
  assumes "0 \<le> d" and "d < 2 ^ 22 * 10 ^ 9"
  shows "length (format_duration d) \<le> 11"
proof -
  let ?u = "fst (duration_unit d)"
  let ?x = "scaled_duration (nat d) ?u"
  let ?h = "rne (fst ?x * 100) (snd ?x)"
  have r: "2 * \<bar>int ?h * int ?u - 100 * d\<bar> \<le> int ?u" using scaled_duration_rounds [OF assms] .
  have u: "0 < ?u" "d < 2 ^ 22 * int ?u" "length (snd (duration_unit d)) \<le> 2" "snd (duration_unit d) = ''s'' \<or> d < 1000 * int ?u"
    using assms(2) by (auto simp: duration_unit_def)
  have "int ?h * int ?u \<le> 100 * d + int ?u" using half_le [OF r] .
  have few: "?h < 100 * k + 1 + 1" if "d < int k * int ?u" for k
  proof -
    have "int ?h * int ?u < (100 * int k + 1) * int ?u"
      using \<open>int ?h * int ?u \<le> 100 * d + int ?u\<close> that by (simp add: algebra_simps)
    then have "int ?h < 100 * int k + 1" using u(1) by (simp add: mult_less_cancel_right)
    then show ?thesis by linarith
  qed
  have len: "length (format_duration d) = length (decimal (?h div 100)) + 3 + length (snd (duration_unit d))"
    using format_duration_unit [OF assms(1)] assms(2) by (simp add: length_fixed_two)
  show ?thesis using u(4)
  proof
    assume "snd (duration_unit d) = ''s''"
    moreover have "?h div 100 < 10 ^ 7" using few [of "2 ^ 22"] u(2) by simp
    ultimately show ?thesis using len length_decimal [of "?h div 100" 7] by simp
  next
    assume "d < 1000 * int ?u"
    then have "?h div 100 < 10 ^ 4" using few [of 1000] by simp
    with u(3) show ?thesis using len length_decimal [of "?h div 100" 4] by simp
  qed
qed

section \<open>Layout\<close>

lemma length_pad [simp]:
  "length (left_w w s) = max w (length s)" "length (right_w w s) = max w (length s)"
  by (simp_all add: left_w_def right_w_def)

definition stats_printable :: "duration_stats \<Rightarrow> bool" where
  "stats_printable stats \<longleftrightarrow>
     (\<forall>d \<in> {ds_min stats, ds_p50 stats, ds_p95 stats, ds_max stats, mean stats}. 0 \<le> d \<and> d < 2 ^ 22 * 10 ^ 9)"

lemma length_row:
  assumes "stats_printable stats" and "length label \<le> 14"
  shows "length (print_stats_row label stats) = length table_header"
proof -
  have "max 12 (length (format_duration d)) = 12"
    if "d \<in> {ds_min stats, ds_p50 stats, ds_p95 stats, ds_max stats, mean stats}" for d
    using length_format_duration [of d] assms(1) that unfolding stats_printable_def by force
  with assms(2) show ?thesis by (simp add: print_stats_row_def table_header_def nl_def)
qed

text \<open>The lines of a text.\<close>

definition count_lines :: "string \<Rightarrow> nat" where
  "count_lines s = length (filter (\<lambda>c. c = CHR 0x0A) s)"

lemma count_lines_simps [simp]:
  "count_lines [] = 0" "count_lines (c # s) = (if c = CHR 0x0A then 1 else 0) + count_lines s"
  "count_lines (s @ t) = count_lines s + count_lines t"
  by (simp_all add: count_lines_def)

lemma newline_not_digit: "\<not> is_digit (CHR 0x0A)"
  by (simp add: is_digit_def)

lemma decimal_no_newline: "CHR 0x0A \<notin> set (decimal n)"
  using decimal_digits [of n] newline_not_digit by (auto simp: list_all_iff)

lemma count_lines_0: "CHR 0x0A \<notin> set s \<Longrightarrow> count_lines s = 0"
  by (auto simp: count_lines_def filter_empty_conv)

lemma count_lines_decimal [simp]: "count_lines (decimal n) = 0" "count_lines (num v) = 0"
  by (simp_all add: count_lines_0 decimal_no_newline num_def)

lemma count_lines_nl [simp]: "count_lines nl = 1" "count_lines (replicate n c) = (if c = CHR 0x0A then n else 0)"
  by (simp add: nl_def, induction n) auto

lemma count_lines_pad [simp]: "count_lines (left_w w s) = count_lines s" "count_lines (right_w w s) = count_lines s"
  by (simp_all add: left_w_def right_w_def)

lemma count_lines_fixed [simp]: "count_lines (fixed k x) = 0"
  by (simp add: fixed_def Let_def)

lemma count_lines_duration [simp]: "count_lines (format_duration d) = 0"
  by (simp add: format_duration_def Let_def)

lemma count_lines_throughput [simp]: "count_lines (throughput n d) = 1"
  by (simp add: throughput_def)

lemma count_lines_table [simp]: "count_lines table_header = 1" "count_lines (print_stats_row label stats) = 1 + count_lines label"
  by (simp_all add: table_header_def print_stats_row_def)

text \<open>Cutting a text at its first newline.\<close>

lemma cut_line:
  assumes "s @ nl @ t = s' @ nl @ t'" and "CHR 0x0A \<notin> set s" and "CHR 0x0A \<notin> set s'"
  shows "s = s' \<and> t = t'"
proof -
  have "takeWhile (\<lambda>c. c \<noteq> CHR 0x0A) (s @ nl @ t) = s" "takeWhile (\<lambda>c. c \<noteq> CHR 0x0A) (s' @ nl @ t') = s'"
    using assms(2,3) by (auto simp: nl_def takeWhile_append)
  with assms(1) show ?thesis by (auto simp: nl_def)
qed

lemma num_eq [simp]: "num v = num w \<longleftrightarrow> v = w"
proof
  assume "num v = num w"
  then have "decimal (unat v) = decimal (unat w)" by (simp only: num_def)
  then have "unat v = unat w" by (metis decimal_value)
  then show "v = w" using word_eq_iff_unsigned [where ?'a = nat, of v w] by blast
qed simp

lemma num_inject: "num v @ nl @ s = num w @ nl @ t \<longleftrightarrow> v = w \<and> s = t"
proof
  assume "num v @ nl @ s = num w @ nl @ t"
  then have "num v = num w \<and> s = t" by (rule cut_line) (simp_all add: num_def decimal_no_newline)
  then show "v = w \<and> s = t" by simp
qed simp

section \<open>Properties\<close>

text \<open>
  C38: A duration is printed in the largest unit that it reaches, with two decimals, correctly
  rounded to the nearest hundredth of that unit although the computation goes through
  floating-point numbers, for every duration from zero to 48 days; and it never takes more than
  eleven characters, one less than the columns of the table.
\<close>

theorem format_duration_rounds:
  assumes "0 \<le> d" and "d < 2 ^ 22 * 10 ^ 9"
  shows "\<exists>h. format_duration d = decimal (h div 100) @ ''.'' @ replicate (2 - length (decimal (h mod 100))) CHR ''0''
            @ decimal (h mod 100) @ snd (duration_unit d)
       \<and> 2 * \<bar>int h * int (fst (duration_unit d)) - 100 * d\<bar> \<le> int (fst (duration_unit d))
       \<and> length (format_duration d) \<le> 11"
proof -
  let ?x = "scaled_duration (nat d) (fst (duration_unit d))"
  have "d < 2 ^ 52" using assms(2) by simp
  from format_duration_unit [OF assms(1) this] scaled_duration_rounds [OF assms] length_format_duration [OF assms]
  show ?thesis
    by (intro exI [of _ "rne (fst ?x * 100) (snd ?x)"]) (simp add: fixed_two_digits [OF refl])
qed

theorem format_duration_rounds_witness:
  "\<exists>h. format_duration 1234567 = decimal (h div 100) @ ''.'' @ replicate (2 - length (decimal (h mod 100))) CHR ''0''
        @ decimal (h mod 100) @ ''ms''
     \<and> 2 * \<bar>int h * 1000000 - 123456700\<bar> \<le> 1000000 \<and> length (format_duration 1234567) \<le> 11"
  using format_duration_rounds [of 1234567] by (simp add: duration_unit_def)

text \<open>
  The table is aligned: as long as the durations are between zero and 48 days, every row is exactly as
  long as the header, for the three labels the program uses.
\<close>

theorem table_aligned:
  assumes "stats_printable stats" and "label \<in> {''queue wait'', ''execution'', ''latency''}"
  shows "length (print_stats_row label stats) = length table_header"
  by (rule length_row [OF assms(1)]) (use assms(2) in auto)

theorem table_aligned_witness:
  "length (print_stats_row ''latency'' (stats_from [])) = length table_header"
  by (rule table_aligned) (simp_all add: stats_printable_def stats_from_def empty_stats_def mean_def)

text \<open>
  The outcome has one line per fact: twelve lines, one more exactly when the run was
  interrupted, five more (the header, three rows and a blank line) exactly when some task was
  executed; numbers, durations and throughput never break a line.
\<close>

theorem outcome_lines:
  "count_lines (print_outcome s wall_time requested interrupted)
     = 12 + of_bool interrupted + (if 0 < ds_count (rs_total_latency s) then 5 else 0)"
  by (simp add: print_outcome_def)

text \<open>
  The configuration that is printed determines the run: two configurations that print the
  same text, by the same version of the program, are the same.
\<close>

theorem configuration_determines_options:
  assumes "print_configuration version opts = print_configuration version opts'"
  shows "opts = opts'"
  using assms by (cases opts; cases opts') (simp add: print_configuration_def num_inject)

theorem configuration_determines_options_witness:
  "\<lparr>opt_workers = 4, opt_tasks = 1000, opt_work = 1000, opt_queue_capacity = 1024, opt_fail_every = 0\<rparr>
     = (default_options 4)"
  by (rule configuration_determines_options [of "''1.0''"])
     (simp add: default_options_def default_worker_count_def k_default_tasks_def k_default_work_def
       k_default_queue_capacity_def print_configuration_def)

end
