(* ===== verification/Application.thy ===== *)
theory Application
  imports Batch Tasks Console
begin

text \<open>
  The program of \<open>app/main.cpp\<close>: signal handlers, fault injection, the submission loop, the
  reaction to an interrupt, the two shutdowns, the summary, the output and the exit codes. The main
  thread is the only caller of the engine; it runs concurrently with the workers and with the
  signal handler, which can set \<open>g_interrupted\<close> at any moment. Each pass through \<open>run\<close> is a
  path of the step relation \<open>app_step\<close>; what it prints is a function of where it ends, since
  nobody else writes to the streams.
\<close>

section \<open>Signals\<close>

datatype signal = SIGINT | SIGTERM | Other_signal nat

text \<open>What a process does when a signal arrives; the table is inherited from its parent.\<close>

datatype disposition = Default_action | Ignored | Interrupt_handler

definition handle_interrupt :: "bool \<Rightarrow> bool" where
  "handle_interrupt interrupted = True"

definition install_interrupt_handlers :: "(signal \<Rightarrow> disposition) \<Rightarrow> signal \<Rightarrow> disposition" where
  "install_interrupt_handlers actions =
     (actions(SIGINT := Interrupt_handler))(SIGTERM := Interrupt_handler)"

text \<open>
  Delivery, as a change of \<open>g_interrupted\<close>; \<open>None\<close> means that the system's default action is
  taken and the program has no say. The handler stays installed.
\<close>

definition deliver :: "(signal \<Rightarrow> disposition) \<Rightarrow> signal \<Rightarrow> bool \<Rightarrow> bool option" where
  "deliver actions sg interrupted =
     (case actions sg of
        Interrupt_handler \<Rightarrow> Some (handle_interrupt interrupted)
      | Ignored \<Rightarrow> Some interrupted
      | Default_action \<Rightarrow> None)"

section \<open>Tasks of a run\<close>

datatype app_task = Failing_task | Computing_task compute_task

definition make_task :: "options \<Rightarrow> size_t \<Rightarrow> app_task" where
  "make_task opts index =
     (if opt_fail_every opts \<noteq> 0 \<and> (index + 1) mod opt_fail_every opts = 0 then Failing_task
      else Computing_task (make_compute_task (opt_work opts) index))"

text \<open>The virtual call: the outcome of the computing loop, or the injected exception.\<close>

fun app_execute :: "app_task \<Rightarrow> exec_outcome" where
  "app_execute Failing_task = Threw_exception ''injected failure''"
| "app_execute (Computing_task t) = fst (compute_call t)"

section \<open>The run\<close>

datatype app_pc = Looping | Submitting | Deciding | Stopping | Finished "fault + int"

record app =
  app_engine :: "app_task engine"
  app_interrupted :: bool
  app_flag :: bool
  app_submitted :: size_t
  app_start :: time_point
  app_wall :: duration
  app_pc :: app_pc

text \<open>The value of \<open>run\<close> once the engine has been shut down, or the exception it ends with.\<close>

definition run_outcome :: "bool \<Rightarrow> fault + run_summary \<Rightarrow> fault + int" where
  "run_outcome interrupted s =
     (case s of
        Inl f \<Rightarrow> Inl f
      | Inr sm \<Rightarrow> Inr (if interrupted then k_exit_task_failure
                      else exit_code_for (rs_failed sm) (rs_rejected sm)))"

text \<open>
  The main thread: the loop test and the start of \<open>submit\<close>; inside \<open>submit\<close> until the caller is
  outside the engine again; the reading of the flag and the choice of the shutdown; the end.
\<close>

definition main_step :: "options \<Rightarrow> app \<Rightarrow> app option" where
  "main_step opts a =
     (case app_pc a of
        Looping \<Rightarrow>
          if app_submitted a < opt_tasks opts \<and> \<not> app_interrupted a then
            Some (a\<lparr>app_engine := take_id 0 (make_task opts (app_submitted a)) (app_engine a),
                    app_pc := Submitting\<rparr>)
          else Some (a\<lparr>app_pc := Deciding\<rparr>)
      | Submitting \<Rightarrow>
          if eng_tickets (app_engine a) ! 0 \<noteq> None then
            map_option (\<lambda>g. a\<lparr>app_engine := g\<rparr>) (build_envelope 0 (app_engine a))
          else if eng_idle 0 (app_engine a) then
            Some (a\<lparr>app_submitted := app_submitted a + 1, app_pc := Looping\<rparr>)
          else None
      | Deciding \<Rightarrow>
          Some (a\<lparr>app_flag := app_interrupted a,
                  app_engine := (app_engine a)\<lparr>eng_pool :=
                    set_caller 0 (if app_interrupted a then CDrain else CClose)
                      (eng_pool (app_engine a))\<rparr>,
                  app_pc := Stopping\<rparr>)
      | Stopping \<Rightarrow>
          if eng_idle 0 (app_engine a) then
            Some (a\<lparr>app_wall := clock (eng_pool (app_engine a)) - app_start a,
                    app_pc := Finished (run_outcome (app_flag a) (summary (app_engine a)))\<rparr>)
          else None
      | Finished r \<Rightarrow> None)"

definition start_app :: "app_task engine \<Rightarrow> app" where
  "start_app g = \<lparr>app_engine = g, app_interrupted = False, app_flag = False, app_submitted = 0,
     app_start = clock (eng_pool g), app_wall = 0, app_pc = Looping\<rparr>"

definition app_init :: "options \<Rightarrow> app \<Rightarrow> bool" where
  "app_init opts a \<longleftrightarrow>
     (\<exists>spawn now g. make_engine spawn (opt_workers opts) (opt_queue_capacity opts) 1 now = Inr g
        \<and> a = start_app g)"

inductive app_run :: "options \<Rightarrow> app \<Rightarrow> app \<Rightarrow> bool" for opts where
  app_main: "main_step opts a = Some a' \<Longrightarrow> app_run opts a a'"
| app_pool: "pool_run app_execute (eng_pool (app_engine a)) s \<Longrightarrow>
     app_run opts a (a\<lparr>app_engine := (app_engine a)\<lparr>eng_pool := s\<rparr>\<rparr>)"

inductive app_step :: "options \<Rightarrow> app \<Rightarrow> app \<Rightarrow> bool" for opts where
  app_go: "app_run opts a a' \<Longrightarrow> app_step opts a a'"
| app_signal: "deliver (install_interrupt_handlers inherited) sg (app_interrupted a) = Some flag \<Longrightarrow>
     app_step opts a (a\<lparr>app_interrupted := flag\<rparr>)"
| app_tick: "clock (eng_pool (app_engine a)) \<le> now \<Longrightarrow>
     app_step opts a (a\<lparr>app_engine := (app_engine a)\<lparr>eng_pool := (eng_pool (app_engine a))\<lparr>clock := now\<rparr>\<rparr>\<rparr>)"

section \<open>The program\<close>

text \<open>
  What \<open>run\<close> leaves in the standard output and the standard error, and its value: the
  configuration is printed first, the outcome once the summary has been computed.
\<close>

definition run_streams ::
    "string \<Rightarrow> options \<Rightarrow> bool \<Rightarrow> duration \<Rightarrow> fault + run_summary \<Rightarrow> string \<times> string \<times> (fault + int)" where
  "run_streams version opts interrupted wall_time s =
     (case s of
        Inl f \<Rightarrow> (print_configuration version opts, '''', Inl f)
      | Inr sm \<Rightarrow>
          (print_configuration version opts @ print_outcome sm wall_time (opt_tasks opts) interrupted,
           if interrupted then ''task-engine: interrupted before submitting all tasks'' @ nl else '''',
           run_outcome interrupted s))"

text \<open>
  The exceptions that \<open>main\<close> catches. \<open>sys\<close> is the text of those that the standard library
  throws itself.
\<close>

definition what :: "string \<Rightarrow> fault \<Rightarrow> string" where
  "what sys f = (case f of Invalid_argument msg \<Rightarrow> msg | Logic_error msg \<Rightarrow> msg | _ \<Rightarrow> sys)"

definition code_of_fault :: "fault \<Rightarrow> int" where
  "code_of_fault f = (case f of Invalid_argument msg \<Rightarrow> k_exit_usage | _ \<Rightarrow> k_exit_task_failure)"

definition report_fault :: "string \<Rightarrow> fault \<Rightarrow> string" where
  "report_fault sys f =
     (case f of
        Invalid_argument msg \<Rightarrow> ''task-engine: invalid configuration: '' @ what sys f @ nl
      | _ \<Rightarrow> ''task-engine: run failed: '' @ what sys f @ nl)"

text \<open>
  \<open>main\<close>: standard output, standard error and exit code. \<open>construct\<close> is the result of
  constructing the engine inside \<open>run\<close> and \<open>finish\<close> what \<open>run\<close> ends with on that engine.
\<close>

definition main_program ::
    "string \<Rightarrow> string \<Rightarrow> 32 word \<Rightarrow> string list \<Rightarrow> (options \<Rightarrow> fault + app_task engine) \<Rightarrow>
     (options \<Rightarrow> app_task engine \<Rightarrow> string \<times> string \<times> (fault + int)) \<Rightarrow> string \<times> string \<times> int" where
  "main_program version sys detected argv construct finish =
     (case parse_args detected (drop 1 argv) of
        Show_help \<Rightarrow> (usage, '''', k_exit_success)
      | Show_version \<Rightarrow> (''task-engine '' @ version @ nl, '''', k_exit_success)
      | Fail msg \<Rightarrow> ('''', ''task-engine: '' @ msg @ nl @ nl @ usage, k_exit_usage)
      | Run opts \<Rightarrow>
          (case construct opts of
             Inl f \<Rightarrow> (print_configuration version opts, report_fault sys f, code_of_fault f)
           | Inr g \<Rightarrow>
               (case finish opts g of
                  (out, err, Inl f) \<Rightarrow> (out, err @ report_fault sys f, code_of_fault f)
                | (out, err, Inr code) \<Rightarrow> (out, err, code))))"

end
