(* ===== verification/Application_Correct.thy ===== *)
theory Application_Correct
  imports Application
begin

text \<open>
  The run of the program is correct from end to end: it always finishes, an uninterrupted run
  submits every task, executes every one of them and exits with the code the usage text promises,
  and an interrupted run accounts for everything it submitted.
\<close>

section \<open>The run is a batch\<close>

text \<open>The main thread as a client of the engine; reading the flag is its own business.\<close>

fun phase_of :: "bool \<Rightarrow> app_pc \<Rightarrow> batch_phase" where
  "phase_of flag Looping = Filling"
| "phase_of flag Submitting = Handing"
| "phase_of flag Deciding = Filling"
| "phase_of flag Stopping = Ending flag"
| "phase_of flag (Finished r) = Ended flag"

definition batch_of :: "app \<Rightarrow> app_task batch" where
  "batch_of a = \<lparr>b_engine = app_engine a, b_count = app_submitted a, b_phase = phase_of (app_flag a) (app_pc a)\<rparr>"

definition app_inv :: "options \<Rightarrow> app \<Rightarrow> bool" where
  "app_inv opts a \<longleftrightarrow> batch_inv app_execute (make_task opts) (opt_tasks opts) (batch_of a)
     \<and> (app_pc a = Deciding \<longrightarrow> app_interrupted a \<or> app_submitted a = opt_tasks opts)
     \<and> (\<forall>r. app_pc a = Finished r \<longrightarrow> r = run_outcome (app_flag a) (summary (app_engine a)))
     \<and> app_start a \<le> clock (eng_pool (app_engine a)) \<and> 0 \<le> app_wall a"

definition app_final :: "app \<Rightarrow> bool" where
  "app_final a \<longleftrightarrow> (\<exists>r. app_pc a = Finished r)"

lemma main_step_batch:
  assumes "app_inv opts a" and "main_step opts a = Some a'"
  shows "batch_run app_execute (make_task opts) (opt_tasks opts) (batch_of a) (batch_of a')
     \<or> batch_of a' = batch_of a \<and> app_pc a = Looping \<and> app_pc a' = Deciding"
proof (cases "app_pc a")
  case Looping
  have "app_submitted a < opt_tasks opts \<and> \<not> app_interrupted a \<Longrightarrow> ?thesis"
    using assms(2) Looping batch_take [of "batch_of a"] by (auto simp: main_step_def batch_of_def)
  moreover have "\<not> (app_submitted a < opt_tasks opts \<and> \<not> app_interrupted a) \<Longrightarrow> ?thesis"
    using assms(2) Looping by (auto simp: main_step_def batch_of_def)
  ultimately show ?thesis by blast
next
  case Submitting
  with assms(2) batch_build [of "batch_of a"] batch_return [of "batch_of a"] show ?thesis
    by (auto simp: main_step_def batch_of_def split: if_splits)
next
  case Deciding
  have "app_interrupted a \<or> app_submitted a = opt_tasks opts" using assms(1) Deciding by (simp add: app_inv_def)
  with batch_stop [of "batch_of a" "app_interrupted a"] Deciding assms(2) show ?thesis
    by (auto simp: main_step_def batch_of_def)
next
  case Stopping
  with assms(2) batch_end [of "batch_of a"] show ?thesis
    by (auto simp: main_step_def batch_of_def split: if_splits)
next
  case (Finished r)
  with assms(2) show ?thesis by (simp add: main_step_def)
qed

lemma app_run_batch:
  assumes "app_inv opts a" and "app_run opts a a'"
  shows "batch_run app_execute (make_task opts) (opt_tasks opts) (batch_of a) (batch_of a')
     \<or> batch_of a' = batch_of a \<and> app_pc a = Looping \<and> app_pc a' = Deciding"
  using assms(2)
proof cases
  case app_main
  with assms(1) show ?thesis by (rule main_step_batch)
next
  case (app_pool s)
  then have "pool_run app_execute (eng_pool (b_engine (batch_of a))) s" by (simp add: batch_of_def)
  from batch_pool [OF this] show ?thesis by (simp add: app_pool(1) batch_of_def)
qed

lemma app_step_batch:
  assumes "app_inv opts a" and "app_step opts a a'"
  shows "batch_of a' = batch_of a \<or> batch_step app_execute (make_task opts) (opt_tasks opts) (batch_of a) (batch_of a')"
  using assms(2)
proof cases
  case app_go
  with app_run_batch [OF assms(1)] batch_go show ?thesis by blast
next
  case (app_tick now)
  with batch_tick [of "batch_of a" now] show ?thesis by (simp add: batch_of_def)
qed (simp add: batch_of_def)

lemma deliver_flag:
  "deliver actions sg interrupted = Some flag \<Longrightarrow> flag \<or> flag = interrupted"
  by (auto simp: deliver_def handle_interrupt_def split: disposition.splits)

text \<open>What the run keeps beside the invariant of the batch.\<close>

lemma main_step_kept:
  assumes inv: "app_inv opts a" and st: "main_step opts a = Some a'"
  shows "(app_pc a' = Deciding \<longrightarrow> app_interrupted a' \<or> app_submitted a' = opt_tasks opts)
     \<and> (\<forall>r. app_pc a' = Finished r \<longrightarrow> r = run_outcome (app_flag a') (summary (app_engine a')))
     \<and> app_start a' \<le> clock (eng_pool (app_engine a')) \<and> 0 \<le> app_wall a'"
proof (cases "app_pc a")
  case Looping
  have "app_submitted a \<le> opt_tasks opts" using inv by (simp add: app_inv_def batch_inv_def batch_of_def)
  with Looping inv st show ?thesis by (auto simp: main_step_def take_id_def app_inv_def split: if_splits)
next
  case Submitting
  with inv st show ?thesis
    by (auto simp: main_step_def app_inv_def enter_submit_eq split: if_splits elim!: build_envelopeE)
qed (use inv st in \<open>auto simp: main_step_def app_inv_def split: if_splits\<close>)

lemma summary_clock [simp]: "summary (g\<lparr>eng_pool := (eng_pool g)\<lparr>clock := now\<rparr>\<rparr>) = summary g"
  by (simp add: summary_def collect_samples_def rejected_count_def workers_joined_def)

lemma app_inv_step:
  assumes inv: "app_inv opts a" and st: "app_step opts a a'"
  shows "app_inv opts a'"
proof -
  have b: "batch_inv app_execute (make_task opts) (opt_tasks opts) (batch_of a)" using inv by (simp add: app_inv_def)
  with app_step_batch [OF inv st] batch_inv_step
  have "batch_inv app_execute (make_task opts) (opt_tasks opts) (batch_of a')" by metis
  moreover have "(app_pc a' = Deciding \<longrightarrow> app_interrupted a' \<or> app_submitted a' = opt_tasks opts)
     \<and> (\<forall>r. app_pc a' = Finished r \<longrightarrow> r = run_outcome (app_flag a') (summary (app_engine a')))
     \<and> app_start a' \<le> clock (eng_pool (app_engine a')) \<and> 0 \<le> app_wall a'"
    using st
  proof cases
    case app_go
    then show ?thesis
    proof cases
      case app_main
      with main_step_kept [OF inv] show ?thesis by blast
    next
      case (app_pool s)
      have own: "own_inv (eng_pool (app_engine a))" using batch_inv_pool(1) [OF b] by (simp add: batch_of_def)
      have "app_pc a \<noteq> Finished r" for r
        using batch_ended_facts(5) [OF b] app_pool(2) by (auto simp: batch_of_def)
      with inv app_pool pool_run_frame(1) [OF own app_pool(2)] show ?thesis by (auto simp: app_inv_def)
    qed
  next
    case (app_signal inherited sg flag)
    with inv deliver_flag [OF app_signal(2)] show ?thesis by (auto simp: app_inv_def)
  qed (use inv in \<open>auto simp: app_inv_def\<close>)
  ultimately show ?thesis by (simp add: app_inv_def)
qed

lemma app_init_batch: "app_init opts a \<Longrightarrow> batch_init (batch_of a)"
  by (clarsimp simp: app_init_def batch_init_def batch_of_def start_app_def) blast

lemma app_progress:
  assumes inv: "app_inv opts a" and "\<not> app_final a"
  shows "\<exists>a'. app_run opts a a'"
proof -
  have b: "batch_inv app_execute (make_task opts) (opt_tasks opts) (batch_of a)" using inv by (simp add: app_inv_def)
  show ?thesis
  proof (cases "b_caller (batch_of a) = CIdle")
    case False
    with batch_busy [OF b] app_pool show ?thesis by (metis batch_of_def batch.select_convs(1))
  next
    case True
    have "main_step opts a \<noteq> None"
      using batch_handing [OF b _ True] batch_ending [OF b _ True] assms(2)
      by (cases "app_pc a") (auto simp: main_step_def batch_of_def app_final_def elim: build_envelopeE)
    then show ?thesis using app_main by blast
  qed
qed

text \<open>The length of the rest of a run; looking at the loop condition is the only invisible step.\<close>

definition app_weight :: "options \<Rightarrow> app \<Rightarrow> nat" where
  "app_weight opts a = 2 * batch_weight (opt_tasks opts) (batch_of a) + (if app_pc a = Looping then 1 else 0)"

interpretation app: terminating_refinement "app_init opts" "app_step opts" "app_inv opts"
  batch_init "batch_step app_execute (make_task opts) (opt_tasks opts)" batch_of
  "app_run opts" "batch_weight (opt_tasks opts)" "\<lambda>a. if app_pc a = Looping then 1 else 0" 1 app_final for opts
proof
  show "app_inv opts a" if "app_init opts a" for a
    using batch_inv_init [OF app_init_batch [OF that]] that
    by (auto simp: app_inv_def app_init_def start_app_def)
  show "app_inv opts a'" if "app_inv opts a" and "app_step opts a a'" for a a'
    using that by (rule app_inv_step)
  show "batch_init (batch_of a)" if "app_init opts a" for a using that by (rule app_init_batch)
  show "batch_of a' = batch_of a \<or> batch_step app_execute (make_task opts) (opt_tasks opts) (batch_of a) (batch_of a')"
    if "app_inv opts a" and "app_step opts a a'" for a a'
    using that by (rule app_step_batch)
  show "app_step opts a a'" if "app_run opts a a'" for a a' using that by (rule app_go)
  show "batch_weight (opt_tasks opts) (batch_of a') < batch_weight (opt_tasks opts) (batch_of a)
      \<or> batch_of a' = batch_of a \<and> (if app_pc a' = Looping then 1 else 0 :: nat) < (if app_pc a = Looping then 1 else 0)"
    if "app_inv opts a" and "app_run opts a a'" for a a'
    using app_run_batch [OF that] that(1) batch_run_decreases by (auto simp: app_inv_def)
  show "\<exists>a'. app_run opts a a'" if "app_inv opts a" and "\<not> app_final a" for a
    using that by (rule app_progress)
qed simp

lemma app_weight_bound: "app_inv opts a \<Longrightarrow> (app_run opts ^^ n) a a' \<Longrightarrow> n \<le> app_weight opts a"
  using app.run_bounded unfolding app_weight_def by fastforce

section \<open>Counting the injected failures\<close>

lemma multiples_up_to: "0 < f \<Longrightarrow> length (filter (\<lambda>k. k mod f = 0) [1..<Suc n]) = n div f"
proof (induction n)
  case (Suc n)
  then show ?case by (simp add: div_Suc mod_Suc_eq)
qed simp

lemma failing_task:
  "app_execute (make_task opts i) \<noteq> Returned \<longleftrightarrow> opt_fail_every opts \<noteq> 0 \<and> (i + 1) mod opt_fail_every opts = 0"
  by (simp add: make_task_def)

lemma app_failures:
  "failures app_execute (make_task opts) n
     = (if opt_fail_every opts = 0 then 0 else unat n div unat (opt_fail_every opts))"
proof (cases "opt_fail_every opts = 0")
  case True
  then show ?thesis by (simp add: failures_def failing_task)
next
  case False
  let ?f = "unat (opt_fail_every opts)"
  have "app_execute (make_task opts (of_nat k - 1)) \<noteq> Returned \<longleftrightarrow> k mod ?f = 0" if "k \<in> set [1..<Suc (unat n)]" for k
  proof -
    have "k \<le> unat n" using that by auto
    then have "unat (of_nat k :: u64) = k" using unat_le_u64 by (intro unat_of_nat_u64)
    then show ?thesis using False by (simp add: failing_task word_eq_iff_unsigned [where ?'a = nat] unat_mod)
  qed
  then have "filter (\<lambda>k. app_execute (make_task opts (of_nat k - 1)) \<noteq> Returned) [1..<Suc (unat n)]
      = filter (\<lambda>k. k mod ?f = 0) [1..<Suc (unat n)]"
    by (intro filter_cong) simp_all
  then show ?thesis using multiples_up_to [of ?f "unat n"] False by (simp add: failures_def unat_gt_0 del: upt_Suc)
qed

text \<open>The end of a run, in terms of its batch.\<close>

lemma finished_summary:
  assumes inv: "app_inv opts a" and pc: "app_pc a = Finished r"
  obtains s where "summary (app_engine a) = Inr s" "rs_total s = app_submitted a"
    "rs_total s = rs_succeeded s + rs_failed s + rs_rejected s" "r = run_outcome (app_flag a) (Inr s)"
    "app_submitted a \<le> opt_tasks opts"
    "\<not> app_flag a \<Longrightarrow> app_submitted a = opt_tasks opts \<and> rs_rejected s = 0
       \<and> unat (rs_failed s) = (if opt_fail_every opts = 0 then 0 else unat (opt_tasks opts) div unat (opt_fail_every opts))"
proof -
  have b: "batch_inv app_execute (make_task opts) (opt_tasks opts) (batch_of a)"
    and r: "r = run_outcome (app_flag a) (summary (app_engine a))" using inv pc by (simp_all add: app_inv_def)
  have ph: "b_phase (batch_of a) = Ended (app_flag a)" "b_engine (batch_of a) = app_engine a"
      "b_count (batch_of a) = app_submitted a" using pc by (simp_all add: batch_of_def)
  have "app_submitted a \<le> opt_tasks opts" using b ph(3) by (simp add: batch_inv_def)
  with batch_summary [OF b ph(1)] ph(2,3) r that show thesis by (metis app_failures)
qed

section \<open>Schedules of the program\<close>

datatype app_action = Main | Inside | Worker nat | Signal signal

fun app_act :: "options \<Rightarrow> app_action \<Rightarrow> app \<Rightarrow> app option" where
  "app_act opts Main a = main_step opts a"
| "app_act opts Inside a =
     map_option (\<lambda>s. a\<lparr>app_engine := (app_engine a)\<lparr>eng_pool := s\<rparr>\<rparr>)
       (act app_execute (Proceed 0) (eng_pool (app_engine a)))"
| "app_act opts (Worker i) a =
     map_option (\<lambda>s. a\<lparr>app_engine := (app_engine a)\<lparr>eng_pool := s\<rparr>\<rparr>)
       (act app_execute (Work i) (eng_pool (app_engine a)))"
| "app_act opts (Signal sg) a =
     map_option (\<lambda>flag. a\<lparr>app_interrupted := flag\<rparr>)
       (deliver (install_interrupt_handlers (\<lambda>_. Default_action)) sg (app_interrupted a))"

fun app_acts :: "options \<Rightarrow> app_action list \<Rightarrow> app \<Rightarrow> app option" where
  "app_acts opts [] a = Some a"
| "app_acts opts (x # xs) a = (case app_act opts x a of None \<Rightarrow> None | Some a' \<Rightarrow> app_acts opts xs a')"

lemma app_act_step: "app_act opts x a = Some a' \<Longrightarrow> app_step opts a a'"
  by (cases x) (auto split: if_splits intro: app_step.intros app_run.intros pool_run.intros)

lemma app_acts_reach:
  "app_acts opts xs a = Some a' \<Longrightarrow> reach (app_init opts) (app_step opts) a \<Longrightarrow>
     reach (app_init opts) (app_step opts) a'"
proof (induction xs arbitrary: a)
  case (Cons x xs)
  then obtain b where "app_act opts x a = Some b" and "app_acts opts xs b = Some a'"
    by (auto split: option.splits)
  with Cons app_act_step reach_step show ?case by metis
qed simp

definition demo_opts :: "u64 \<Rightarrow> options" where
  "demo_opts f = \<lparr>opt_workers = 1, opt_tasks = 1, opt_work = 0, opt_queue_capacity = 1, opt_fail_every = f\<rparr>"

definition app_pool1 :: "app_task pool" where
  "app_pool1 = \<lparr>p_queue = \<lparr>q_items = [], q_closed = False, q_capacity = 1\<rparr>, p_samples = [[]],
     p_rejected = 0, p_mutex = None, p_joined = False, p_joinable = [True]\<rparr>"

definition demo_app :: app where
  "demo_app = start_app (start_engine app_pool1 1 0)"

lemma demo_app_init: "app_init (demo_opts f) demo_app"
proof -
  have "make_engine (\<lambda>_. True) 1 1 1 0 = Inr (start_engine app_pool1 1 0)"
    by (simp add: make_engine_def make_pool_eq make_queue_def app_pool1_def empty_pool_def)
  then show "app_init (demo_opts f) demo_app"
    unfolding app_init_def demo_app_def by (auto simp: demo_opts_def)
qed

lemma demo_app_reach: "reach (app_init (demo_opts f)) (app_step (demo_opts f)) demo_app"
  using demo_app_init by (rule reach_init)

text \<open>One task is submitted and run, the loop ends, the pool is shut down, \<open>run\<close> returns.\<close>

definition app_trace :: "app_action list" where
  "app_trace = [Main, Main, Inside, Worker 0, Worker 0, Worker 0, Worker 0, Main, Main, Main, Inside,
     Worker 0, Inside, Inside, Inside, Inside, Main]"

text \<open>The same, with an interrupt after the last submission.\<close>

definition late_trace :: "app_action list" where
  "late_trace = [Main, Main, Inside, Worker 0, Worker 0, Worker 0, Worker 0, Main, Main, Signal SIGINT, Main, Inside,
     Inside, Inside, Worker 0, Inside, Inside, Inside, Inside, Main]"

lemmas app_run_simps =
  demo_app_def app_pool1_def start_app_def start_engine_def start_system_def main_step_def demo_opts_def
  take_id_def build_envelope_def make_task_def make_compute_task_def eng_idle_def run_def
  shutdown_now_step_def moved_from_def Let_def summary_def collect_samples_def workers_joined_def
  rejected_count_def summarize_eq count_of_def run_outcome_def exit_code_for_def k_exit_success_def
  k_exit_task_failure_def deliver_def install_interrupt_handlers_def handle_interrupt_def demo_run_simps

lemma app_trace_runs:
  "\<exists>a. app_acts (demo_opts 1) app_trace demo_app = Some a \<and> app_pc a = Finished (Inr 1) \<and> \<not> app_flag a"
  by (simp add: app_trace_def app_run_simps failed_def no_error_def)

lemma late_trace_runs:
  "\<exists>a. app_acts (demo_opts 0) late_trace demo_app = Some a \<and> app_pc a = Finished (Inr 1) \<and> app_flag a
     \<and> app_submitted a = 1
     \<and> (\<exists>s. summary (app_engine a) = Inr s \<and> rs_succeeded s = 1 \<and> rs_failed s = 0 \<and> rs_rejected s = 0)"
  by (simp add: late_trace_def app_run_simps succeeded_def)

text \<open>The same run, cut where all tasks are submitted and the flag has not been read.\<close>

definition submitted_trace :: "app_action list" where
  "submitted_trace = [Main, Main, Inside, Worker 0, Worker 0, Worker 0, Worker 0, Main, Main]"

definition stopping_trace :: "app_action list" where
  "stopping_trace = [Main, Inside, Inside, Inside, Worker 0, Inside, Inside, Inside, Inside, Main]"

definition draining_trace :: "app_action list" where
  "draining_trace = [Main, Inside, Worker 0, Inside, Inside, Inside, Inside, Main]"

lemma late_traces_run:
  "\<exists>b. app_acts (demo_opts 0) submitted_trace demo_app = Some b \<and> app_pc b = Deciding \<and> app_submitted b = 1
     \<and> (\<exists>c. app_acts (demo_opts 0) (Signal SIGINT # stopping_trace) b = Some c \<and> (\<exists>r. app_pc c = Finished r)
          \<and> (\<exists>s. summary (app_engine c) = Inr s \<and> rs_succeeded s = 1))
     \<and> (\<exists>d. app_acts (demo_opts 0) draining_trace b = Some d \<and> (\<exists>r. app_pc d = Finished r))"
  by (simp add: submitted_trace_def stopping_trace_def draining_trace_def app_run_simps succeeded_def)

section \<open>Runs with and without signals\<close>

definition signals_in :: "app_action list \<Rightarrow> signal set" where
  "signals_in xs = {sg. Signal sg \<in> set xs}"

lemma app_acts_calm:
  "app_acts opts xs a = Some b \<Longrightarrow> signals_in xs = {} \<Longrightarrow> \<not> app_interrupted a \<and> \<not> app_flag a \<Longrightarrow>
     \<not> app_interrupted b \<and> \<not> app_flag b"
proof (induction xs arbitrary: a)
  case (Cons x xs)
  then obtain a' where a': "app_act opts x a = Some a'" "app_acts opts xs a' = Some b" by (auto split: option.splits)
  have "signals_in xs = {}" "\<And>sg. x \<noteq> Signal sg" using Cons.prems(2) by (auto simp: signals_in_def)
  moreover have "\<not> app_interrupted a' \<and> \<not> app_flag a'"
    using a'(1) Cons.prems(3) calculation(2)
    by (cases x) (auto simp: main_step_def split: app_pc.splits if_splits option.splits)
  ultimately show ?case using Cons.IH [OF a'(2)] by blast
qed simp

text \<open>All tasks are submitted and a signal has set the flag, too late for the loop but not for the report.\<close>

definition too_late :: "options \<Rightarrow> app \<Rightarrow> bool" where
  "too_late opts a \<longleftrightarrow> app_submitted a = opt_tasks opts
     \<and> (app_pc a \<in> {Looping, Deciding} \<and> app_interrupted a
        \<or> app_flag a \<and> (app_pc a = Stopping \<or> app_final a))"

lemma app_acts_late: "app_acts opts xs a = Some b \<Longrightarrow> too_late opts a \<Longrightarrow> too_late opts b"
proof (induction xs arbitrary: a)
  case (Cons x xs)
  then obtain a' where a': "app_act opts x a = Some a'" "app_acts opts xs a' = Some b" by (auto split: option.splits)
  have "too_late opts a'"
  proof (cases x)
    case (Signal sg)
    with a'(1) Cons.prems(2) deliver_flag show ?thesis by (fastforce simp: too_late_def app_final_def)
  qed (use a'(1) Cons.prems(2) in
       \<open>auto simp: main_step_def too_late_def app_final_def split: app_pc.splits if_splits option.splits\<close>)
  with Cons.IH a'(2) show ?case by blast
qed simp

lemma uninterrupted_code:
  assumes inv: "app_inv opts a" and fin: "app_pc a = Finished r" and flag: "\<not> app_flag a"
  shows "r = Inr (if opt_fail_every opts \<noteq> 0 \<and> opt_fail_every opts \<le> opt_tasks opts then 1 else 0)"
proof -
  let ?k = "if opt_fail_every opts = 0 then 0 else unat (opt_tasks opts) div unat (opt_fail_every opts)"
  obtain s where s: "rs_rejected s = 0" "r = run_outcome (app_flag a) (Inr s)" "unat (rs_failed s) = ?k"
    using finished_summary [OF inv fin] flag by metis
  then have "rs_failed s = 0 \<longleftrightarrow> ?k = 0" by (metis unat_0 unat_eq_zero)
  moreover have "?k = 0 \<longleftrightarrow> \<not> (opt_fail_every opts \<noteq> 0 \<and> opt_fail_every opts \<le> opt_tasks opts)"
    using unat_pos_u64 [of "opt_fail_every opts"] by (auto simp: word_le_nat_alt div_eq_0_iff)
  ultimately show ?thesis
    using s(1,2) flag by (simp add: run_outcome_def exit_code_for_def k_exit_success_def k_exit_task_failure_def)
qed

section \<open>Properties\<close>

text \<open>
  The program always finishes: from every reachable state, under every schedule of the main
  thread and the workers, only finitely many steps remain, the program cannot get stuck before
  \<open>run\<close> has ended, and an end is reached.
\<close>

theorem program_terminates:
  assumes "reach (app_init opts) (app_step opts) a"
  shows "(\<forall>n a'. (app_run opts ^^ n) a a' \<longrightarrow> n \<le> app_weight opts a)
     \<and> (\<forall>a'. (app_run opts)\<^sup>*\<^sup>* a a' \<longrightarrow> (\<nexists>b. app_run opts a' b) \<longrightarrow> (\<exists>r. app_pc a' = Finished r))
     \<and> (\<exists>a' r. (app_run opts)\<^sup>*\<^sup>* a a' \<and> app_pc a' = Finished r)"
proof -
  note inv = app.inv_reach [OF assms]
  show ?thesis
    using app_weight_bound [OF inv] app.run_stuck_is_final [OF inv] app.run_reaches_final [OF inv]
    unfolding app_final_def by meson
qed

theorem program_terminates_witness:
  "\<exists>a' r. (app_run (demo_opts 0))\<^sup>*\<^sup>* demo_app a' \<and> app_pc a' = Finished r"
  using program_terminates [OF demo_app_reach] by blast

text \<open>
  A run that is not interrupted does what was asked: every task is submitted and executed, none
  is rejected, exactly every \<open>fail_every\<close>-th one fails, and the exit code is 1 when at least one
  failure was injected and 0 otherwise.
\<close>

theorem uninterrupted_run_outcome:
  assumes "reach (app_init opts) (app_step opts) a" and "app_pc a = Finished r" and "\<not> app_flag a"
  shows "\<exists>s. summary (app_engine a) = Inr s \<and> rs_total s = opt_tasks opts \<and> rs_rejected s = 0
     \<and> unat (rs_failed s) = (if opt_fail_every opts = 0 then 0
                             else unat (opt_tasks opts) div unat (opt_fail_every opts))
     \<and> rs_succeeded s = opt_tasks opts - rs_failed s
     \<and> r = Inr (if opt_fail_every opts \<noteq> 0 \<and> opt_fail_every opts \<le> opt_tasks opts then 1 else 0)"
proof -
  note inv = app.inv_reach [OF assms(1)]
  show ?thesis
    using finished_summary [OF inv assms(2)] uninterrupted_code [OF inv assms(2,3)] assms(3)
    by (metis add.right_neutral add_diff_cancel_right')
qed

theorem uninterrupted_run_outcome_witness:
  "\<exists>a s. app_acts (demo_opts 1) app_trace demo_app = Some a \<and> summary (app_engine a) = Inr s
     \<and> rs_total s = 1 \<and> unat (rs_failed s) = 1"
proof -
  from app_trace_runs obtain a where a: "app_acts (demo_opts 1) app_trace demo_app = Some a"
      "app_pc a = Finished (Inr 1)" "\<not> app_flag a" by blast
  have "reach (app_init (demo_opts 1)) (app_step (demo_opts 1)) a"
    using a(1) demo_app_reach by (rule app_acts_reach)
  from uninterrupted_run_outcome [OF this a(2,3)] a(1) show ?thesis by (auto simp: demo_opts_def)
qed

text \<open>
  An interrupted run still accounts for everything: it ends with exit code 1, no more tasks
  than requested were submitted, the total of the summary is the number submitted, and it is the
  sum of succeeded, failed and rejected.
\<close>

theorem interrupted_run_outcome:
  assumes "reach (app_init opts) (app_step opts) a" and "app_pc a = Finished r" and "app_flag a"
  shows "r = Inr 1 \<and> app_submitted a \<le> opt_tasks opts
     \<and> (\<exists>s. summary (app_engine a) = Inr s \<and> rs_total s = app_submitted a
          \<and> rs_total s = rs_succeeded s + rs_failed s + rs_rejected s)"
  using finished_summary [OF app.inv_reach [OF assms(1)] assms(2)] assms(3)
  by (simp add: run_outcome_def k_exit_task_failure_def) metis

theorem interrupted_run_outcome_witness:
  "\<exists>a s. app_acts (demo_opts 0) late_trace demo_app = Some a \<and> summary (app_engine a) = Inr s
     \<and> rs_total s = app_submitted a"
proof -
  from late_trace_runs obtain a where a: "app_acts (demo_opts 0) late_trace demo_app = Some a"
      "app_pc a = Finished (Inr 1)" "app_flag a" by blast
  have "reach (app_init (demo_opts 0)) (app_step (demo_opts 0)) a"
    using a(1) demo_app_reach by (rule app_acts_reach)
  from interrupted_run_outcome [OF this a(2,3)] a(1) show ?thesis by blast
qed



text \<open>
  Interrupts are never fatal and never lost: whatever the process inherited, after
  \<open>install_interrupt_handlers\<close> both SIGINT and SIGTERM, however often they arrive, set the flag
  that the submission loop reads and never trigger the system's default action, the other signals
  keep their inherited disposition, and no signal ever clears the flag.
\<close>

theorem interrupts_set_flag:
  "deliver (install_interrupt_handlers inherited) SIGINT g = Some True
     \<and> deliver (install_interrupt_handlers inherited) SIGTERM g = Some True
     \<and> deliver (install_interrupt_handlers inherited) (Other_signal n) g = deliver inherited (Other_signal n) g
     \<and> deliver (install_interrupt_handlers inherited) sg True \<in> {None, Some True}"
  by (auto simp: deliver_def install_interrupt_handlers_def handle_interrupt_def split: disposition.splits)

text \<open>
  The report tells the truth about the run: when \<open>run\<close> has ended, the streams hold the
  configuration and the outcome of exactly the summary the engine computed, with a wall time that is
  not negative; the standard error is empty and all requested tasks are in the total unless the run
  was interrupted, and then it says so and the exit code is 1.
\<close>

theorem report_matches_run:
  assumes "reach (app_init opts) (app_step opts) a" and "app_pc a = Finished r"
  shows "\<exists>s out err. summary (app_engine a) = Inr s
     \<and> run_streams version opts (app_flag a) (app_wall a) (summary (app_engine a)) = (out, err, r)
     \<and> out = print_configuration version opts @ print_outcome s (app_wall a) (opt_tasks opts) (app_flag a)
     \<and> 0 \<le> app_wall a \<and> rs_total s = app_submitted a
     \<and> (if app_flag a then err \<noteq> '''' \<and> r = Inr 1 else err = '''' \<and> rs_total s = opt_tasks opts)"
proof -
  note inv = app.inv_reach [OF assms(1)]
  have "0 \<le> app_wall a" using inv by (simp add: app_inv_def)
  moreover obtain s where "summary (app_engine a) = Inr s" "rs_total s = app_submitted a"
      "r = run_outcome (app_flag a) (Inr s)" "\<not> app_flag a \<Longrightarrow> app_submitted a = opt_tasks opts"
    using finished_summary [OF inv assms(2)] by metis
  ultimately show ?thesis by (auto simp: run_streams_def run_outcome_def k_exit_task_failure_def)
qed

theorem report_matches_run_witness:
  "\<exists>a s. app_acts (demo_opts 0) late_trace demo_app = Some a \<and> summary (app_engine a) = Inr s
     \<and> 0 \<le> app_wall a \<and> rs_total s = app_submitted a"
proof -
  from late_trace_runs obtain a where a: "app_acts (demo_opts 0) late_trace demo_app = Some a"
      "app_pc a = Finished (Inr 1)" by blast
  have "reach (app_init (demo_opts 0)) (app_step (demo_opts 0)) a"
    using a(1) demo_app_reach by (rule app_acts_reach)
  from report_matches_run [OF this a(2)] a(1) show ?thesis by blast
qed

text \<open>
  What the program writes and how it exits: help and version go to the standard output with
  exit code 0, a bad command line writes nothing there, explains itself and the usage on the standard
  error and exits with 2; an accepted one always prints its configuration first, never makes the
  engine's constructor refuse its arguments, and a thread that cannot be created is reported on the
  standard error with exit code 1.
\<close>

theorem main_program_streams:
  "case parse_args detected (drop 1 argv) of
     Show_help \<Rightarrow> main_program version sys detected argv construct finish = (usage, '''', 0)
   | Show_version \<Rightarrow> main_program version sys detected argv construct finish = (''task-engine '' @ version @ nl, '''', 0)
   | Fail msg \<Rightarrow> main_program version sys detected argv construct finish = ('''', ''task-engine: '' @ msg @ nl @ nl @ usage, 2)
       \<and> msg \<noteq> ''''
   | Run opts \<Rightarrow>
       main_program version sys detected argv
         (\<lambda>o'. make_engine spawn (opt_workers o') (opt_queue_capacity o') 1 now)
         (\<lambda>o' g. run_streams version o' (flag o' g) (wall o' g) (Inr (sm o' g)))
       = (if list_all spawn [0..<unat (opt_workers opts)] then
            let g = start_engine ((empty_pool \<lparr>q_items = [], q_closed = False, q_capacity = opt_queue_capacity opts\<rparr>
                      (opt_workers opts))\<lparr>p_joinable := replicate (unat (opt_workers opts)) True\<rparr>) 1 now
            in (print_configuration version opts @ print_outcome (sm opts g) (wall opts g) (opt_tasks opts) (flag opts g),
                if flag opts g then ''task-engine: interrupted before submitting all tasks'' @ nl else '''',
                if flag opts g then 1 else exit_code_for (rs_failed (sm opts g)) (rs_rejected (sm opts g)))
          else (print_configuration version opts, ''task-engine: run failed: '' @ sys @ nl, 1))"
proof (cases "parse_args detected (drop 1 argv)")
  case (Run opts)
  have "opt_workers opts \<noteq> 0 \<and> opt_queue_capacity opts \<noteq> 0" using parse_args_valid [OF Run] .
  with Run show ?thesis
    by (auto simp: main_program_def make_engine_def make_pool_eq make_queue_def code_of_fault_def report_fault_def
        what_def run_streams_def run_outcome_def k_exit_task_failure_def list_all_iff Let_def)
next
  case (Fail msg)
  with parse_args_message [OF Fail] show ?thesis by (simp add: main_program_def k_exit_usage_def)
qed (simp_all add: main_program_def k_exit_success_def)

end
