(* ===== verification/Queue_Monitor.thy ===== *)
theory Queue_Monitor
  imports Blocking_Queue
begin

text \<open>
  \<open>BlockingQueue\<close> as the threads execute it: a mutex, two condition variables and a program
  counter per thread. A thread takes the mutex, tests the wait predicate, falls asleep or goes on,
  runs its critical section, releases the mutex and only then notifies. Sleeping threads are the
  ones whose counter is a \<open>Wait\<close>; \<open>notify_one\<close> moves one of them, whichever the scheduler
  picks, back to the lock, \<open>notify_all\<close> all of them, and spurious wake-ups may happen at any time.

  The lemmas show that the mutex excludes, that a wait predicate tested under it still holds when
  the critical section runs, that no wake-up is lost although notification happens outside the
  lock, that the queue behaves as the atomic operations of Blocking\_Queue, and that every call
  returns unless the queue is open and has nothing (or no room) for it.
\<close>

section \<open>Threads and monitor state\<close>

datatype 'a ret = Pushed bool | Popped "'a option" | Closed | Drained "'a list"

datatype 'a pc =
    Idle
  | PushLock 'a | PushTest 'a | PushWait 'a | PushBody 'a | PushNotify
  | PopLock | PopTest | PopWait | PopBody | PopNotify 'a
  | CloseLock | CloseBody | CloseNotifyEmpty | CloseNotifyFull
  | DrainLock | DrainBody | DrainNotifyEmpty "'a list" | DrainNotifyFull "'a list"
  | Done "'a ret"

record 'a monitor =
  m_queue :: "'a blocking_queue"
  m_mutex :: "nat option"
  m_pcs :: "'a pc list"

definition goto :: "nat \<Rightarrow> 'a pc \<Rightarrow> 'a monitor \<Rightarrow> 'a monitor" where
  "goto t p s = s\<lparr>m_pcs := (m_pcs s)[t := p]\<rparr>"

definition acquire :: "nat \<Rightarrow> 'a pc \<Rightarrow> 'a monitor \<Rightarrow> 'a monitor" where
  "acquire t p s = s\<lparr>m_mutex := Some t, m_pcs := (m_pcs s)[t := p]\<rparr>"

text \<open>Leave the critical section with the queue in state \<open>q\<close>.\<close>

definition leave :: "nat \<Rightarrow> 'a pc \<Rightarrow> 'a blocking_queue \<Rightarrow> 'a monitor \<Rightarrow> 'a monitor" where
  "leave t p q s = s\<lparr>m_queue := q, m_mutex := None, m_pcs := (m_pcs s)[t := p]\<rparr>"

definition at :: "'a monitor \<Rightarrow> nat \<Rightarrow> 'a pc \<Rightarrow> bool" where
  "at s t p \<longleftrightarrow> t < length (m_pcs s) \<and> m_pcs s ! t = p"

section \<open>Condition variables\<close>

text \<open>The threads asleep on \<open>not_empty_\<close> and on \<open>not_full_\<close>, and where they go when woken.\<close>

fun wake_not_empty :: "'a pc \<Rightarrow> 'a pc option" where
  "wake_not_empty PopWait = Some PopLock"
| "wake_not_empty _ = None"

fun wake_not_full :: "'a pc \<Rightarrow> 'a pc option" where
  "wake_not_full (PushWait v) = Some (PushLock v)"
| "wake_not_full _ = None"

definition notify_one :: "('p \<Rightarrow> 'p option) \<Rightarrow> 'p list \<Rightarrow> 'p list \<Rightarrow> bool" where
  "notify_one wake ps ps' \<longleftrightarrow>
     (\<exists>j<length ps. \<exists>p. wake (ps ! j) = Some p \<and> ps' = ps[j := p])
     \<or> (\<forall>p \<in> set ps. wake p = None) \<and> ps' = ps"

definition notify_all :: "('p \<Rightarrow> 'p option) \<Rightarrow> 'p list \<Rightarrow> 'p list" where
  "notify_all wake ps = map (\<lambda>p. case wake p of None \<Rightarrow> p | Some p' \<Rightarrow> p') ps"

section \<open>The member functions, step by step\<close>

inductive push_step :: "nat \<Rightarrow> 'a monitor \<Rightarrow> 'a queue_event option \<Rightarrow> 'a monitor \<Rightarrow> bool" where
  push_lock: "at s t (PushLock v) \<Longrightarrow> m_mutex s = None \<Longrightarrow>
     push_step t s None (acquire t (PushTest v) s)"
| push_sleep: "at s t (PushTest v) \<Longrightarrow> \<not> can_push (m_queue s) \<Longrightarrow>
     push_step t s None (leave t (PushWait v) (m_queue s) s)"
| push_enter: "at s t (PushTest v) \<Longrightarrow> can_push (m_queue s) \<Longrightarrow>
     push_step t s None (goto t (PushBody v) s)"
| push_refused: "at s t (PushBody v) \<Longrightarrow> push_locked v (m_queue s) = (False, q) \<Longrightarrow>
     push_step t s (Some (Refuse v)) (leave t (Done (Pushed False)) q s)"
| push_accepted: "at s t (PushBody v) \<Longrightarrow> push_locked v (m_queue s) = (True, q) \<Longrightarrow>
     push_step t s (Some (Accept v)) (leave t PushNotify q s)"
| push_notify: "at s t PushNotify \<Longrightarrow> notify_one wake_not_empty (m_pcs s) ps \<Longrightarrow>
     push_step t s None (s\<lparr>m_pcs := ps[t := Done (Pushed True)]\<rparr>)"

inductive pop_step :: "nat \<Rightarrow> 'a monitor \<Rightarrow> 'a queue_event option \<Rightarrow> 'a monitor \<Rightarrow> bool" where
  pop_lock: "at s t PopLock \<Longrightarrow> m_mutex s = None \<Longrightarrow> pop_step t s None (acquire t PopTest s)"
| pop_sleep: "at s t PopTest \<Longrightarrow> \<not> can_pop (m_queue s) \<Longrightarrow>
     pop_step t s None (leave t PopWait (m_queue s) s)"
| pop_enter: "at s t PopTest \<Longrightarrow> can_pop (m_queue s) \<Longrightarrow> pop_step t s None (goto t PopBody s)"
| pop_finished: "at s t PopBody \<Longrightarrow> pop_locked (m_queue s) = (None, q) \<Longrightarrow>
     pop_step t s (Some Finish) (leave t (Done (Popped None)) q s)"
| pop_taken: "at s t PopBody \<Longrightarrow> pop_locked (m_queue s) = (Some x, q) \<Longrightarrow>
     pop_step t s (Some (Take x)) (leave t (PopNotify x) q s)"
| pop_notify: "at s t (PopNotify x) \<Longrightarrow> notify_one wake_not_full (m_pcs s) ps \<Longrightarrow>
     pop_step t s None (s\<lparr>m_pcs := ps[t := Done (Popped (Some x))]\<rparr>)"

inductive close_step :: "nat \<Rightarrow> 'a monitor \<Rightarrow> 'a queue_event option \<Rightarrow> 'a monitor \<Rightarrow> bool" where
  close_lock: "at s t CloseLock \<Longrightarrow> m_mutex s = None \<Longrightarrow>
     close_step t s None (acquire t CloseBody s)"
| close_again: "at s t CloseBody \<Longrightarrow> q_closed (m_queue s) \<Longrightarrow>
     close_step t s (Some Close) (leave t (Done Closed) (close (m_queue s)) s)"
| close_first: "at s t CloseBody \<Longrightarrow> \<not> q_closed (m_queue s) \<Longrightarrow>
     close_step t s (Some Close) (leave t CloseNotifyEmpty (close (m_queue s)) s)"
| close_notify_empty: "at s t CloseNotifyEmpty \<Longrightarrow>
     close_step t s None
       (s\<lparr>m_pcs := (notify_all wake_not_empty (m_pcs s))[t := CloseNotifyFull]\<rparr>)"
| close_notify_full: "at s t CloseNotifyFull \<Longrightarrow>
     close_step t s None
       (s\<lparr>m_pcs := (notify_all wake_not_full (m_pcs s))[t := Done Closed]\<rparr>)"

inductive drain_step :: "nat \<Rightarrow> 'a monitor \<Rightarrow> 'a queue_event option \<Rightarrow> 'a monitor \<Rightarrow> bool" where
  drain_lock: "at s t DrainLock \<Longrightarrow> m_mutex s = None \<Longrightarrow>
     drain_step t s None (acquire t DrainBody s)"
| drain_body: "at s t DrainBody \<Longrightarrow> close_and_drain (m_queue s) = (ds, q) \<Longrightarrow>
     drain_step t s (Some (Drain ds)) (leave t (DrainNotifyEmpty ds) q s)"
| drain_notify_empty: "at s t (DrainNotifyEmpty ds) \<Longrightarrow>
     drain_step t s None
       (s\<lparr>m_pcs := (notify_all wake_not_empty (m_pcs s))[t := DrainNotifyFull ds]\<rparr>)"
| drain_notify_full: "at s t (DrainNotifyFull ds) \<Longrightarrow>
     drain_step t s None
       (s\<lparr>m_pcs := (notify_all wake_not_full (m_pcs s))[t := Done (Drained ds)]\<rparr>)"

text \<open>
  The surroundings: a thread outside the queue enters one of the functions, a function returns to
  its caller, a sleeping thread wakes up for no reason.
\<close>

inductive call_step :: "'a monitor \<Rightarrow> 'a monitor \<Rightarrow> bool" where
  call_push: "at s t Idle \<Longrightarrow> call_step s (goto t (PushLock v) s)"
| call_pop: "at s t Idle \<Longrightarrow> call_step s (goto t PopLock s)"
| call_close: "at s t Idle \<Longrightarrow> call_step s (goto t CloseLock s)"
| call_drain: "at s t Idle \<Longrightarrow> call_step s (goto t DrainLock s)"
| spurious_push: "at s t (PushWait v) \<Longrightarrow> call_step s (goto t (PushLock v) s)"
| spurious_pop: "at s t PopWait \<Longrightarrow> call_step s (goto t PopLock s)"

definition return_step :: "nat \<Rightarrow> 'a monitor \<Rightarrow> 'a monitor \<Rightarrow> bool" where
  "return_step t s s' \<longleftrightarrow> (\<exists>r. at s t (Done r)) \<and> s' = goto t Idle s"

definition thread_step :: "'a monitor \<Rightarrow> 'a queue_event option \<Rightarrow> 'a monitor \<Rightarrow> bool" where
  "thread_step s ev s' \<longleftrightarrow>
     (\<exists>t. push_step t s ev s' \<or> pop_step t s ev s' \<or> close_step t s ev s' \<or> drain_step t s ev s'
          \<or> ev = None \<and> return_step t s s')"

definition monitor_step :: "'a monitor \<Rightarrow> 'a queue_event option \<Rightarrow> 'a monitor \<Rightarrow> bool" where
  "monitor_step s ev s' \<longleftrightarrow> thread_step s ev s' \<or> ev = None \<and> call_step s s'"

definition monitor_init :: "'a monitor \<Rightarrow> bool" where
  "monitor_init s \<longleftrightarrow>
     (\<exists>cap. make_queue cap = Inr (m_queue s)) \<and> m_mutex s = None
     \<and> (\<forall>p \<in> set (m_pcs s). p = Idle)"

lemmas step_cases = push_step.cases pop_step.cases close_step.cases drain_step.cases

lemma return_stepE:
  assumes "return_step t s s'"
  obtains r where "at s t (Done r)" "s' = goto t Idle s"
  using assms by (auto simp: return_step_def)

lemma thread_stepE:
  assumes "thread_step s ev s'"
  obtains t where "push_step t s ev s'" | t where "pop_step t s ev s'" | t where "close_step t s ev s'"
  | t where "drain_step t s ev s'" | t where "ev = None" "return_step t s s'"
  using assms unfolding thread_step_def by blast

section \<open>Counting threads\<close>

definition tally :: "('p \<Rightarrow> bool) \<Rightarrow> 'p list \<Rightarrow> nat" where
  "tally P ps = length (filter P ps)"

lemma tally_simps [simp]: "tally P [] = 0" "tally P (p # ps) = of_bool (P p) + tally P ps"
  by (simp_all add: tally_def)

lemma tally_update:
  "t < length ps \<Longrightarrow> tally P (ps[t := p]) + of_bool (P (ps ! t)) = tally P ps + of_bool (P p)"
proof (induction ps arbitrary: t)
  case Nil
  then show ?case by simp
next
  case (Cons a ps)
  then show ?case by (cases t) auto
qed

lemma tally_pos: "t < length ps \<Longrightarrow> P (ps ! t) \<Longrightarrow> 0 < tally P ps"
  by (auto simp: tally_def filter_empty_conv)

lemma tally_pos_iff: "0 < tally P ps \<longleftrightarrow> (\<exists>p \<in> set ps. P p)"
  by (auto simp: tally_def filter_empty_conv)

lemma tally_notify_all_same:
  "(\<And>p p'. wake p = Some p' \<Longrightarrow> P p' = P p) \<Longrightarrow> tally P (notify_all wake ps) = tally P ps"
  by (induction ps) (auto simp: notify_all_def split: option.splits)

lemma tally_notify_all_none:
  "(\<And>p. wake p = None \<Longrightarrow> \<not> P p) \<Longrightarrow> (\<And>p p'. wake p = Some p' \<Longrightarrow> \<not> P p') \<Longrightarrow>
   tally P (notify_all wake ps) = 0"
  by (induction ps) (auto simp: notify_all_def split: option.splits)

lemma length_notify_all [simp]: "length (notify_all wake ps) = length ps"
  by (simp add: notify_all_def)

lemma nth_notify_all_same:
  "t < length ps \<Longrightarrow> wake (ps ! t) = None \<Longrightarrow> notify_all wake ps ! t = ps ! t"
  by (simp add: notify_all_def)

section \<open>The invariant\<close>

text \<open>The counters at which a thread owns the mutex.\<close>

fun holds :: "'a pc \<Rightarrow> bool" where
  "holds (PushTest v) = True"
| "holds (PushBody v) = True"
| "holds PopTest = True"
| "holds PopBody = True"
| "holds CloseBody = True"
| "holds DrainBody = True"
| "holds _ = False"

definition mutex_inv :: "'a monitor \<Rightarrow> bool" where
  "mutex_inv s \<longleftrightarrow> (\<forall>t < length (m_pcs s). holds (m_pcs s ! t) \<longleftrightarrow> m_mutex s = Some t)
     \<and> (\<forall>t. m_mutex s = Some t \<longrightarrow> t < length (m_pcs s))"

text \<open>A wait predicate that was true when tested is still true in the critical section.\<close>

definition body_inv :: "'a monitor \<Rightarrow> bool" where
  "body_inv s \<longleftrightarrow> (\<forall>t v. at s t (PushBody v) \<longrightarrow> can_push (m_queue s))
     \<and> (\<forall>t. at s t PopBody \<longrightarrow> can_pop (m_queue s))"

text \<open>
  Who answers for a sleeping consumer: while the queue is open, every queued item is matched by a
  consumer that is awake or by a producer that still has to notify; once it is closed, some closer
  still has to notify. Dually for a sleeping producer and the free places.
\<close>

fun supplies_pop :: "'a pc \<Rightarrow> bool" where
  "supplies_pop PopLock = True"
| "supplies_pop PopTest = True"
| "supplies_pop PopBody = True"
| "supplies_pop PushNotify = True"
| "supplies_pop _ = False"

fun supplies_push :: "'a pc \<Rightarrow> bool" where
  "supplies_push (PushLock v) = True"
| "supplies_push (PushTest v) = True"
| "supplies_push (PushBody v) = True"
| "supplies_push (PopNotify x) = True"
| "supplies_push _ = False"

fun releases_pop :: "'a pc \<Rightarrow> bool" where
  "releases_pop CloseNotifyEmpty = True"
| "releases_pop (DrainNotifyEmpty ds) = True"
| "releases_pop _ = False"

fun releases_push :: "'a pc \<Rightarrow> bool" where
  "releases_push CloseNotifyEmpty = True"
| "releases_push CloseNotifyFull = True"
| "releases_push (DrainNotifyEmpty ds) = True"
| "releases_push (DrainNotifyFull ds) = True"
| "releases_push _ = False"

fun sleeps_pop :: "'a pc \<Rightarrow> bool" where
  "sleeps_pop PopWait = True"
| "sleeps_pop _ = False"

fun sleeps_push :: "'a pc \<Rightarrow> bool" where
  "sleeps_push (PushWait v) = True"
| "sleeps_push _ = False"

text \<open>
  One condition variable: \<open>S\<close> are its sleepers, \<open>W\<close> the threads that answer for one unit of
  demand each, \<open>R\<close> the closers that will wake everybody, \<open>demand\<close> what the open queue offers.
\<close>

definition wake_inv ::
    "('a pc \<Rightarrow> bool) \<Rightarrow> ('a pc \<Rightarrow> bool) \<Rightarrow> ('a pc \<Rightarrow> bool) \<Rightarrow> ('a blocking_queue \<Rightarrow> nat) \<Rightarrow>
     'a monitor \<Rightarrow> bool" where
  "wake_inv S W R demand s \<longleftrightarrow> (0 < tally S (m_pcs s) \<longrightarrow>
     (if q_closed (m_queue s) then 0 < tally R (m_pcs s)
      else demand (m_queue s) \<le> tally W (m_pcs s)))"

definition available :: "'a blocking_queue \<Rightarrow> nat" where
  "available q = length (q_items q)"

definition room :: "'a blocking_queue \<Rightarrow> nat" where
  "room q = unat (q_capacity q) - length (q_items q)"

abbreviation wake_pop_inv :: "'a monitor \<Rightarrow> bool" where
  "wake_pop_inv \<equiv> wake_inv sleeps_pop supplies_pop releases_pop available"

abbreviation wake_push_inv :: "'a monitor \<Rightarrow> bool" where
  "wake_push_inv \<equiv> wake_inv sleeps_push supplies_push releases_push room"

definition monitor_inv :: "'a monitor \<Rightarrow> bool" where
  "monitor_inv s \<longleftrightarrow> queue_ok (m_queue s) \<and> mutex_inv s \<and> body_inv s \<and> wake_pop_inv s \<and> wake_push_inv s"

lemmas monitor_upd_defs = goto_def acquire_def leave_def at_def

lemma notify_oneE:
  assumes "notify_one wake ps ps'"
  obtains j p where "j < length ps" "wake (ps ! j) = Some p" "ps' = ps[j := p]"
  | "\<forall>p \<in> set ps. wake p = None" "ps' = ps"
  using assms unfolding notify_one_def by blast

text \<open>Both notifications only move sleeping threads.\<close>

definition woken :: "('p \<Rightarrow> 'p option) \<Rightarrow> 'p list \<Rightarrow> 'p list \<Rightarrow> bool" where
  "woken wake ps ps' \<longleftrightarrow> length ps' = length ps
     \<and> (\<forall>i < length ps. ps' ! i = ps ! i \<or> wake (ps ! i) = Some (ps' ! i))"

lemma woken_notify_one: "notify_one wake ps ps' \<Longrightarrow> woken wake ps ps'"
  by (auto elim!: notify_oneE simp: woken_def nth_list_update)

lemma woken_notify_all: "woken wake ps (notify_all wake ps)"
  by (auto simp: woken_def notify_all_def split: option.splits)

lemma woken_nth:
  "woken wake ps ps' \<Longrightarrow> i < length ps \<Longrightarrow> (\<And>p p'. wake p = Some p' \<Longrightarrow> P p' = P p) \<Longrightarrow>
   P (ps' ! i) = P (ps ! i)"
  unfolding woken_def by metis

lemma woken_stays: "woken wake ps ps' \<Longrightarrow> i < length ps \<Longrightarrow> wake (ps ! i) = None \<Longrightarrow> ps' ! i = ps ! i"
  unfolding woken_def by force

lemma woken_length: "woken wake ps ps' \<Longrightarrow> length ps' = length ps"
  by (simp add: woken_def)

subsection \<open>Mutual exclusion\<close>

lemma holds_wake:
  "wake_not_empty p = Some p' \<Longrightarrow> holds p' = holds p"
  "wake_not_full p = Some p' \<Longrightarrow> holds p' = holds p"
  by (cases p; auto)+

lemma mutex_inv_goto:
  "mutex_inv s \<Longrightarrow> at s t p \<Longrightarrow> holds p' = holds p \<Longrightarrow> mutex_inv (goto t p' s)"
  by (auto simp: mutex_inv_def goto_def at_def nth_list_update)

lemma mutex_inv_acquire:
  "mutex_inv s \<Longrightarrow> at s t p \<Longrightarrow> m_mutex s = None \<Longrightarrow> holds p' \<Longrightarrow> mutex_inv (acquire t p' s)"
  by (auto simp: mutex_inv_def acquire_def at_def nth_list_update)

lemma mutex_inv_leave:
  "mutex_inv s \<Longrightarrow> at s t p \<Longrightarrow> holds p \<Longrightarrow> \<not> holds p' \<Longrightarrow> mutex_inv (leave t p' q s)"
  by (auto simp: mutex_inv_def leave_def at_def nth_list_update)

lemma mutex_inv_woken:
  assumes "mutex_inv s" and "at s t p" and "\<not> holds p" and "\<not> holds p'"
    and "woken wake (m_pcs s) ps" and "\<And>p p'. wake p = Some p' \<Longrightarrow> holds p' = holds p"
  shows "mutex_inv (s\<lparr>m_pcs := ps[t := p']\<rparr>)"
proof -
  have "holds (ps[t := p'] ! i) = holds (m_pcs s ! i)" if "i < length (m_pcs s)" for i
    using that assms woken_nth [OF assms(5) that, of holds]
    by (auto simp: at_def woken_length nth_list_update)
  with assms(1,5) show ?thesis by (simp add: mutex_inv_def woken_length)
qed

lemmas mutex_inv_intros =
  mutex_inv_goto mutex_inv_acquire mutex_inv_leave
  mutex_inv_woken [OF _ _ _ _ woken_notify_one] mutex_inv_woken [OF _ _ _ _ woken_notify_all]

lemma mutex_inv_thread: "thread_step s ev s' \<Longrightarrow> mutex_inv s \<Longrightarrow> mutex_inv s'"
  by (erule thread_stepE) (auto elim!: step_cases simp: return_step_def holds_wake intro: mutex_inv_intros)

lemma mutex_inv_call: "call_step s s' \<Longrightarrow> mutex_inv s \<Longrightarrow> mutex_inv s'"
  by (induction rule: call_step.induct) (auto intro: mutex_inv_goto)

lemma mutex_invD: "mutex_inv s \<Longrightarrow> at s t p \<Longrightarrow> holds p \<Longrightarrow> m_mutex s = Some t"
  by (auto simp: mutex_inv_def at_def)

lemma mutex_excludes:
  "mutex_inv s \<Longrightarrow> at s t p \<Longrightarrow> at s u q \<Longrightarrow> holds p \<Longrightarrow> holds q \<Longrightarrow> t = u"
  using mutex_invD [of s t p] mutex_invD [of s u q] by simp

subsection \<open>Tested predicates stay true\<close>

lemma body_inv_leave:
  assumes "mutex_inv s" and "at s t p" and "holds p" and "\<not> holds p'"
  shows "body_inv (leave t p' q s)"
proof -
  have "\<not> holds x" if "at (leave t p' q s) u x" for u x
    using mutex_excludes [OF assms(1,2) _ assms(3), of u x] assms that
    by (auto simp: at_def leave_def nth_update split: if_splits)
  then show ?thesis by (fastforce simp: body_inv_def)
qed

lemma body_inv_frame:
  assumes "body_inv s" and "m_queue s' = m_queue s"
    and "\<And>u x. at s' u x \<Longrightarrow> holds x \<Longrightarrow> at s u x \<or> (\<forall>v. x \<noteq> PushBody v) \<and> x \<noteq> PopBody"
  shows "body_inv s'"
  using assms unfolding body_inv_def by (metis holds.simps(2) holds.simps(4))

lemma body_inv_acquire:
  "body_inv s \<Longrightarrow> (\<forall>v. p \<noteq> PushBody v) \<Longrightarrow> p \<noteq> PopBody \<Longrightarrow> body_inv (acquire t p s)"
  by (erule body_inv_frame) (auto simp: acquire_def at_def nth_update split: if_splits)

lemma body_inv_goto:
  "body_inv s \<Longrightarrow> (\<And>v. p = PushBody v \<Longrightarrow> can_push (m_queue s)) \<Longrightarrow>
   (p = PopBody \<Longrightarrow> can_pop (m_queue s)) \<Longrightarrow> body_inv (goto t p s)"
  by (auto simp: body_inv_def goto_def at_def nth_update split: if_splits)

lemma body_inv_woken:
  assumes "body_inv s" and "at s t p" and "\<not> holds p'"
    and "woken wake (m_pcs s) ps" and "\<And>p p'. wake p = Some p' \<Longrightarrow> \<not> holds p'"
  shows "body_inv (s\<lparr>m_pcs := ps[t := p']\<rparr>)"
proof (rule body_inv_frame [OF assms(1)])
  fix u x
  assume ux: "at (s\<lparr>m_pcs := ps[t := p']\<rparr>) u x" and hx: "holds x"
  with assms(2-4) have u: "u < length (m_pcs s)" "ps ! u = x"
    by (auto simp: at_def woken_def nth_update split: if_splits)
  then have "m_pcs s ! u = x \<or> wake (m_pcs s ! u) = Some x"
    using assms(4) by (auto simp: woken_def)
  with u hx assms(5) show "at s u x \<or> (\<forall>v. x \<noteq> PushBody v) \<and> x \<noteq> PopBody"
    by (auto simp: at_def)
qed simp

lemma not_holds_wake:
  "wake_not_empty p = Some p' \<Longrightarrow> \<not> holds p'" "wake_not_full p = Some p' \<Longrightarrow> \<not> holds p'"
  by (cases p; auto)+

lemmas body_inv_intros =
  body_inv_goto body_inv_acquire body_inv_leave
  body_inv_woken [OF _ _ _ woken_notify_one] body_inv_woken [OF _ _ _ woken_notify_all]

lemma body_inv_thread: "thread_step s ev s' \<Longrightarrow> mutex_inv s \<Longrightarrow> body_inv s \<Longrightarrow> body_inv s'"
  by (erule thread_stepE)
     (auto elim!: step_cases simp: return_step_def not_holds_wake intro: body_inv_intros)

lemma body_inv_call: "call_step s s' \<Longrightarrow> body_inv s \<Longrightarrow> body_inv s'"
  by (induction rule: call_step.induct) (auto intro: body_inv_goto)

subsection \<open>No wake-up is lost\<close>

lemma wake_inv_no_sleeper: "tally S (m_pcs s) = 0 \<Longrightarrow> wake_inv S W R d s"
  by (simp add: wake_inv_def)

lemma wake_inv_update:
  assumes inv: "wake_inv S W R d s" and "at s t p" and pcs: "m_pcs s' = (m_pcs s)[t := p']"
    and sleeps: "S p' \<Longrightarrow> \<not> q_closed (m_queue s') \<and> d (m_queue s') = 0"
    and closed: "q_closed (m_queue s') \<Longrightarrow> R p' \<or> q_closed (m_queue s) \<and> \<not> R p"
    and opened: "\<not> S p' \<Longrightarrow> \<not> q_closed (m_queue s') \<Longrightarrow> \<not> q_closed (m_queue s)
       \<and> d (m_queue s') + of_bool (W p) \<le> d (m_queue s) + of_bool (W p')"
  shows "wake_inv S W R d s'"
proof (cases "S p'")
  case True
  with sleeps show ?thesis by (simp add: wake_inv_def)
next
  case False
  from assms(2) have t: "t < length (m_pcs s)" "m_pcs s ! t = p" by (simp_all add: at_def)
  note upd = tally_update [OF t(1), of _ p', unfolded t(2)]
  have less: "0 < tally S (m_pcs s') \<Longrightarrow> 0 < tally S (m_pcs s)"
    using upd [of S] False by (simp add: pcs)
  show ?thesis
  proof (cases "q_closed (m_queue s')")
    case True
    have "R p' \<Longrightarrow> 0 < tally R (m_pcs s')"
      using tally_pos [of t "m_pcs s'" R] t(1) by (simp add: pcs)
    with True closed upd [of R] inv less show ?thesis
      by (auto simp: wake_inv_def pcs split: if_splits)
  next
    case False
    with opened [OF \<open>\<not> S p'\<close>] upd [of W] inv less show ?thesis
      by (auto simp: wake_inv_def pcs)
  qed
qed

lemma tally_woken:
  assumes "woken wake ps ps'" and "\<And>p p'. wake p = Some p' \<Longrightarrow> P p' = P p"
  shows "tally P ps' = tally P ps"
proof -
  have "list_all2 (\<lambda>a b. P a = P b) ps' ps"
    using assms woken_nth [OF assms(1), of _ P] by (auto simp: list_all2_conv_all_nth woken_length)
  then show ?thesis by (induction rule: list_all2_induct) auto
qed

text \<open>A notification on the other condition variable.\<close>

lemma wake_inv_other:
  assumes "wake_inv S W R d s" and "at s t p" and "woken wake (m_pcs s) ps" and "wake p = None"
    and "\<And>p p'. wake p = Some p' \<Longrightarrow> S p' = S p \<and> W p' = W p \<and> R p' = R p"
    and "\<not> S p'" and "R p \<Longrightarrow> R p'" and "W p \<Longrightarrow> W p'"
  shows "wake_inv S W R d (s\<lparr>m_pcs := ps[t := p']\<rparr>)"
proof -
  let ?s = "s\<lparr>m_pcs := ps\<rparr>"
  have "wake_inv S W R d ?s"
    using assms(1,5) tally_woken [OF assms(3)] by (simp add: wake_inv_def)
  moreover have "at ?s t p"
    using assms(2-4) woken_stays [OF assms(3)] by (auto simp: at_def woken_length)
  ultimately show ?thesis
    by (rule wake_inv_update) (use assms(6-8) in auto)
qed

lemma wake_inv_notify_all:
  assumes "wake_inv S W R d s" and t: "at s t p" and "\<And>p. S p \<longleftrightarrow> wake p \<noteq> None" and "\<And>p p'. wake p = Some p' \<Longrightarrow> \<not> S p'" and p: "\<not> S p'"
  shows "wake_inv S W R d (s\<lparr>m_pcs := (notify_all wake (m_pcs s))[t := p']\<rparr>)"
proof (rule wake_inv_no_sleeper)
  have "tally S (notify_all wake (m_pcs s)) = 0"
    by (rule tally_notify_all_none) (use assms in auto)
  moreover have "t < length (notify_all wake (m_pcs s))" using t by (simp add: at_def)
  ultimately show "tally S (m_pcs (s\<lparr>m_pcs := (notify_all wake (m_pcs s))[t := p']\<rparr>)) = 0"
    using tally_update [of t "notify_all wake (m_pcs s)" S p'] p by simp
qed

lemma wake_inv_notify_one:
  assumes inv: "wake_inv S W R d s" and t: "at s t p" and n: "notify_one wake (m_pcs s) ps"
    and S: "\<And>p. S p \<longleftrightarrow> wake p \<noteq> None"
    and w: "\<And>p p'. wake p = Some p' \<Longrightarrow> \<not> S p' \<and> W p' \<and> \<not> W p \<and> \<not> R p \<and> \<not> R p'"
    and p: "\<not> S p'" "\<not> S p" "\<not> R p"
  shows "wake_inv S W R d (s\<lparr>m_pcs := ps[t := p']\<rparr>)"
  using n
proof (cases rule: notify_oneE)
  case (1 j pj)
  from t have tl: "t < length (m_pcs s)" "m_pcs s ! t = p" by (simp_all add: at_def)
  have "j \<noteq> t" using 1 S [of p] p(2) tl by auto
  then have pt: "ps ! t = p" "t < length ps" using 1 tl by simp_all
  note u1 = tally_update [OF 1(1), of _ pj]
    and u2 = tally_update [OF pt(2), of _ p', unfolded pt(1)]
  have j: "S (m_pcs s ! j)" "\<not> S pj" "W pj" "\<not> W (m_pcs s ! j)" "\<not> R (m_pcs s ! j)" "\<not> R pj"
    using S w [OF 1(2)] 1(2) by auto
  have "0 < tally S (m_pcs s)" using tally_pos [of j "m_pcs s" S] 1(1) j(1) by simp
  moreover have "tally R (ps[t := p']) \<ge> tally R (m_pcs s)"
    using u1 [of R] u2 [of R] j p(3) 1(3) by simp
  moreover have "tally W (ps[t := p']) \<ge> tally W (m_pcs s)"
    using u1 [of W] u2 [of W] j 1(3) by (simp add: of_bool_def split: if_splits)
  ultimately show ?thesis using inv by (auto simp: wake_inv_def split: if_splits)
next
  case 2
  then have "tally S (m_pcs s) = 0"
    using S tally_pos_iff [of S "m_pcs s"] by auto
  then have "tally S (ps[t := p']) = 0"
    using tally_update [of t ps S p'] 2 t p(1) by (simp add: at_def)
  then show ?thesis by (simp add: wake_inv_def)
qed

text \<open>How the two notifications move the counters each invariant talks about.\<close>

lemma sleeps_wake:
  "wake_not_empty p = Some p' \<Longrightarrow> p = PopWait \<and> p' = PopLock"
  "wake_not_full p = Some p' \<Longrightarrow> \<exists>v. p = PushWait v \<and> p' = PushLock v"
  by (cases p; auto)+

lemma sleeps_iff:
  "sleeps_pop p \<longleftrightarrow> wake_not_empty p \<noteq> None" "sleeps_push p \<longleftrightarrow> wake_not_full p \<noteq> None"
  by (cases p; auto)+

lemma wake_inv_goto:
  "wake_inv S W R d s \<Longrightarrow> at s t p \<Longrightarrow> \<not> S p' \<Longrightarrow> (R p \<Longrightarrow> R p') \<Longrightarrow> (W p \<Longrightarrow> W p') \<Longrightarrow>
   wake_inv S W R d (goto t p' s)"
  by (rule wake_inv_update [where p = p and p' = p']) (auto simp: goto_def)

lemma wake_inv_acquire:
  "wake_inv S W R d s \<Longrightarrow> at s t p \<Longrightarrow> \<not> S p' \<Longrightarrow> (R p \<Longrightarrow> R p') \<Longrightarrow> (W p \<Longrightarrow> W p') \<Longrightarrow>
   wake_inv S W R d (acquire t p' s)"
  by (rule wake_inv_update [where p = p and p' = p']) (auto simp: acquire_def)

lemma wake_inv_leave:
  "wake_inv S W R d s \<Longrightarrow> at s t p \<Longrightarrow> (S p' \<Longrightarrow> \<not> q_closed q \<and> d q = 0) \<Longrightarrow>
   (q_closed q \<Longrightarrow> R p' \<or> q_closed (m_queue s) \<and> \<not> R p) \<Longrightarrow>
   (\<not> S p' \<Longrightarrow> \<not> q_closed q \<Longrightarrow> \<not> q_closed (m_queue s)
       \<and> d q + of_bool (W p) \<le> d (m_queue s) + of_bool (W p')) \<Longrightarrow>
   wake_inv S W R d (leave t p' q s)"
  by (rule wake_inv_update [where p = p and p' = p']) (auto simp: leave_def)

lemmas wake_inv_one_intros =
  wake_inv_notify_one [where wake = wake_not_empty and W = supplies_pop]
  wake_inv_notify_one [where wake = wake_not_full and W = supplies_push]
  wake_inv_other [where wake = wake_not_full and W = supplies_pop, OF _ _ woken_notify_one]
  wake_inv_other [where wake = wake_not_empty and W = supplies_push, OF _ _ woken_notify_one]

lemmas wake_inv_intros =
  wake_inv_goto wake_inv_acquire wake_inv_leave
  wake_inv_other [where wake = wake_not_full and W = supplies_pop, OF _ _ woken_notify_all]
  wake_inv_other [where wake = wake_not_empty and W = supplies_push, OF _ _ woken_notify_all]
  wake_inv_notify_all [where wake = wake_not_empty and W = supplies_pop]
  wake_inv_notify_all [where wake = wake_not_full and W = supplies_push]

lemma sleep_needs:
  "\<not> can_push q \<Longrightarrow> \<not> q_closed q \<and> room q = 0"
  "\<not> can_pop q \<Longrightarrow> \<not> q_closed q \<and> available q = 0"
  by (auto simp: queue_defs room_def available_def)

lemma body_invD:
  "body_inv s \<Longrightarrow> at s t (PushBody v) \<Longrightarrow> can_push (m_queue s)"
  "body_inv s \<Longrightarrow> at s t PopBody \<Longrightarrow> can_pop (m_queue s)"
  by (auto simp: body_inv_def)

lemmas wake_simps = sleeps_iff available_def room_def queue_defs

lemma wake_pop_thread:
  "thread_step s ev s' \<Longrightarrow> body_inv s \<Longrightarrow> wake_pop_inv s \<Longrightarrow> wake_pop_inv s'"
  by (elim thread_stepE step_cases return_stepE; hypsubst;
      ((rule wake_inv_one_intros, assumption, assumption, assumption)
       | (rule wake_inv_intros, assumption, assumption)))
     (auto simp: wake_simps dest: sleeps_wake sleep_needs body_invD split: if_splits list.splits)

lemma wake_push_thread:
  "thread_step s ev s' \<Longrightarrow> body_inv s \<Longrightarrow> wake_push_inv s \<Longrightarrow> wake_push_inv s'"
  by (elim thread_stepE step_cases return_stepE; hypsubst;
      ((rule wake_inv_one_intros, assumption, assumption, assumption)
       | (rule wake_inv_intros, assumption, assumption)))
     (auto simp: wake_simps dest: sleeps_wake sleep_needs body_invD split: if_splits list.splits)

lemma wake_pop_call: "call_step s s' \<Longrightarrow> wake_pop_inv s \<Longrightarrow> wake_pop_inv s'"
  by (induction rule: call_step.induct; rule wake_inv_goto, assumption, assumption) auto

lemma wake_push_call: "call_step s s' \<Longrightarrow> wake_push_inv s \<Longrightarrow> wake_push_inv s'"
  by (induction rule: call_step.induct; rule wake_inv_goto, assumption, assumption) auto

section \<open>Refinement: the critical sections are the atomic operations\<close>

abbreviation queue_replay :: "'a blocking_queue \<Rightarrow> 'a queue_event \<Rightarrow> 'a blocking_queue option" where
  "queue_replay \<equiv> replay push pop close close_and_drain"

abbreviation queue_replays :: "'a blocking_queue \<Rightarrow> 'a queue_event list \<Rightarrow> 'a blocking_queue option" where
  "queue_replays \<equiv> replays push pop close close_and_drain"

lemma thread_step_refines:
  "thread_step s ev s' \<Longrightarrow> body_inv s \<Longrightarrow>
     (case ev of None \<Rightarrow> m_queue s' = m_queue s | Some e \<Rightarrow> queue_replay (m_queue s) e = Some (m_queue s'))"
  by (elim thread_stepE step_cases return_stepE)
     (auto simp: monitor_upd_defs push_def pop_def dest: body_invD)

lemma call_step_queue: "call_step s s' \<Longrightarrow> m_queue s' = m_queue s"
  by (induction rule: call_step.induct) (auto simp: goto_def)

lemma thread_step_queue_ok:
  "thread_step s ev s' \<Longrightarrow> body_inv s \<Longrightarrow> queue_ok (m_queue s) \<Longrightarrow> queue_ok (m_queue s')"
  using bq.replay_valid [of "m_queue s"]
  by (cases ev) (auto dest!: thread_step_refines)

lemma monitor_inv_init: "monitor_init s \<Longrightarrow> monitor_inv s"
proof -
  assume i: "monitor_init s"
  then have q: "queue_ok (m_queue s)" and idle: "\<And>t. t < length (m_pcs s) \<Longrightarrow> m_pcs s ! t = Idle"
    by (auto simp: monitor_init_def dest: make_queue_ok)
  have "tally S (m_pcs s) = 0" if "\<not> S Idle" for S
    using i that tally_pos_iff [of S "m_pcs s"] by (auto simp: monitor_init_def)
  then have "wake_pop_inv s" and "wake_push_inv s" by (simp_all add: wake_inv_no_sleeper)
  moreover have "mutex_inv s" and "body_inv s"
    using i by (auto simp: idle mutex_inv_def body_inv_def at_def monitor_init_def)
  ultimately show ?thesis using q by (simp add: monitor_inv_def)
qed

lemma monitor_inv_step: "monitor_inv s \<Longrightarrow> monitor_step s ev s' \<Longrightarrow> monitor_inv s'"
  unfolding monitor_inv_def monitor_step_def
  by (metis thread_step_queue_ok mutex_inv_thread body_inv_thread wake_pop_thread wake_push_thread
      call_step_queue mutex_inv_call body_inv_call wake_pop_call wake_push_call)

interpretation mon: invariant_system monitor_init "\<lambda>s s'. \<exists>ev. monitor_step s ev s'" monitor_inv
  by unfold_locales (auto intro: monitor_inv_init monitor_inv_step)

text \<open>A run of the monitor and the calls it was seen to perform, in the order they took effect.\<close>

inductive monitor_run :: "'a monitor \<Rightarrow> 'a queue_event list \<Rightarrow> 'a monitor \<Rightarrow> bool" where
  run_nil: "monitor_run s [] s"
| run_silent: "monitor_step s None u \<Longrightarrow> monitor_run u es s' \<Longrightarrow> monitor_run s es s'"
| run_event: "monitor_step s (Some e) u \<Longrightarrow> monitor_run u es s' \<Longrightarrow> monitor_run s (e # es) s'"

lemma monitor_step_refines:
  "monitor_step s ev s' \<Longrightarrow> monitor_inv s \<Longrightarrow>
     (case ev of None \<Rightarrow> m_queue s' = m_queue s | Some e \<Rightarrow> queue_replay (m_queue s) e = Some (m_queue s'))"
  unfolding monitor_step_def monitor_inv_def
  by (auto dest: thread_step_refines call_step_queue)

lemma monitor_run_inv: "monitor_run s es s' \<Longrightarrow> monitor_inv s \<Longrightarrow> monitor_inv s'"
  by (induction rule: monitor_run.induct) (auto dest: monitor_inv_step)

lemma monitor_run_refines:
  "monitor_run s es s' \<Longrightarrow> monitor_inv s \<Longrightarrow> queue_replays (m_queue s) es = Some (m_queue s')"
proof (induction rule: monitor_run.induct)
  case (run_nil s)
  then show ?case by simp
next
  case (run_silent s u es s')
  with monitor_step_refines [OF run_silent.hyps(1)] monitor_inv_step show ?case by force
next
  case (run_event s e u es s')
  with monitor_step_refines [OF run_event.hyps(1)] monitor_inv_step show ?case by force
qed

section \<open>Every call returns unless it must wait\<close>

definition quiet :: "'a monitor \<Rightarrow> bool" where
  "quiet s \<longleftrightarrow> (\<forall>p \<in> set (m_pcs s). p = Idle \<or> sleeps_pop p \<or> sleeps_push p)"

fun pc_weight :: "nat \<Rightarrow> 'a pc \<Rightarrow> nat" where
  "pc_weight n Idle = 0"
| "pc_weight n (Done r) = 1"
| "pc_weight n PushNotify = 4"
| "pc_weight n (PopNotify x) = 4"
| "pc_weight n (PushWait v) = 5"
| "pc_weight n PopWait = 5"
| "pc_weight n (PushBody v) = 5"
| "pc_weight n PopBody = 5"
| "pc_weight n (PushTest v) = 6"
| "pc_weight n PopTest = 6"
| "pc_weight n (PushLock v) = 7"
| "pc_weight n PopLock = 7"
| "pc_weight n CloseNotifyFull = 2 * n + 2"
| "pc_weight n (DrainNotifyFull ds) = 2 * n + 2"
| "pc_weight n CloseNotifyEmpty = 4 * n + 3"
| "pc_weight n (DrainNotifyEmpty ds) = 4 * n + 3"
| "pc_weight n CloseBody = 4 * n + 4"
| "pc_weight n DrainBody = 4 * n + 4"
| "pc_weight n CloseLock = 4 * n + 5"
| "pc_weight n DrainLock = 4 * n + 5"

definition monitor_weight :: "'a monitor \<Rightarrow> nat" where
  "monitor_weight s = sum_list (map (pc_weight (length (m_pcs s))) (m_pcs s))"

lemma weight_update:
  assumes "at s t p" and "m_pcs s' = (m_pcs s)[t := p']"
    and "pc_weight (length (m_pcs s)) p' < pc_weight (length (m_pcs s)) p"
  shows "monitor_weight s' < monitor_weight s"
  using assms sum_list_map_update [of t "m_pcs s" "pc_weight (length (m_pcs s))" p']
  by (simp add: monitor_weight_def at_def)

lemma weight_notify_one:
  assumes "at s t p" and n: "notify_one wake (m_pcs s) ps" and "wake p = None"
    and w: "\<And>p p'. wake p = Some p' \<Longrightarrow> pc_weight (length (m_pcs s)) p' \<le> pc_weight (length (m_pcs s)) p + 2"
    and "pc_weight (length (m_pcs s)) p' + 2 < pc_weight (length (m_pcs s)) p"
  shows "monitor_weight (s\<lparr>m_pcs := ps[t := p']\<rparr>) < monitor_weight s"
proof -
  let ?w = "pc_weight (length (m_pcs s))"
  have t: "t < length ps" "ps ! t = p" "length ps = length (m_pcs s)"
    using assms(1,3) woken_notify_one [OF n] woken_stays [of wake "m_pcs s" ps t]
    by (auto simp: at_def woken_length)
  have "sum_list (map ?w ps) \<le> sum_list (map ?w (m_pcs s)) + 2"
    using n
  proof (cases rule: notify_oneE)
    case (1 j pj)
    with w [OF 1(2)] sum_list_map_update [of j "m_pcs s" ?w pj] show ?thesis by simp
  qed simp
  with t sum_list_map_update [of t ps ?w p'] assms(5) show ?thesis
    by (simp add: monitor_weight_def)
qed

lemma weight_notify_all:
  assumes "at s t p" and "wake p = None"
    and w: "\<And>p p'. wake p = Some p' \<Longrightarrow> pc_weight (length (m_pcs s)) p' \<le> pc_weight (length (m_pcs s)) p + 2"
    and "pc_weight (length (m_pcs s)) p' + 2 * length (m_pcs s) < pc_weight (length (m_pcs s)) p"
  shows "monitor_weight (s\<lparr>m_pcs := (notify_all wake (m_pcs s))[t := p']\<rparr>) < monitor_weight s"
proof -
  let ?w = "pc_weight (length (m_pcs s))" and ?ps = "notify_all wake (m_pcs s)"
  have t: "t < length ?ps" "?ps ! t = p"
    using assms(1,2) by (auto simp: at_def nth_notify_all_same)
  have "sum_list (map ?w (notify_all wake xs)) \<le> sum_list (map ?w xs) + 2 * length xs" for xs
    by (induction xs) (auto simp: notify_all_def split: option.splits dest!: w)
  from this [of "m_pcs s"] t sum_list_map_update [of t ?ps ?w p'] assms(4) show ?thesis
    by (simp add: monitor_weight_def)
qed

lemma wake_weight:
  "wake_not_empty p = Some p' \<Longrightarrow> pc_weight n p' \<le> pc_weight n p + 2"
  "wake_not_full p = Some p' \<Longrightarrow> pc_weight n p' \<le> pc_weight n p + 2"
  by (cases p; auto)+

lemma thread_step_decreases: "thread_step s ev s' \<Longrightarrow> monitor_weight s' < monitor_weight s"
  by (elim thread_stepE step_cases return_stepE; hypsubst;
      ((rule weight_notify_one, assumption, assumption)
       | (rule weight_notify_all, assumption) | (rule weight_update, assumption)))
     (auto simp: monitor_upd_defs dest: wake_weight [where n = "length (m_pcs s)"])

lemma notify_one_total: "\<exists>ps'. notify_one wake ps ps'"
proof (cases "\<forall>p \<in> set ps. wake p = None")
  case True
  then show ?thesis by (auto simp: notify_one_def)
next
  case False
  then obtain j p where "j < length ps" and "wake (ps ! j) = Some p"
    by (auto simp: in_set_conv_nth)
  then show ?thesis unfolding notify_one_def by blast
qed

text \<open>A thread is stuck only while it waits for the mutex or sleeps.\<close>

definition enabled :: "'a monitor \<Rightarrow> bool" where
  "enabled s \<longleftrightarrow> (\<exists>ev s'. thread_step s ev s')"

lemma enabledI:
  "push_step t s ev s' \<Longrightarrow> enabled s" "pop_step t s ev s' \<Longrightarrow> enabled s"
  "close_step t s ev s' \<Longrightarrow> enabled s" "drain_step t s ev s' \<Longrightarrow> enabled s"
  "return_step t s s' \<Longrightarrow> enabled s"
  unfolding enabled_def thread_step_def by blast+

lemma push_enabled:
  "at s t (PushTest v) \<Longrightarrow> enabled s" "at s t (PushBody v) \<Longrightarrow> enabled s" "at s t PushNotify \<Longrightarrow> enabled s"
  by (metis enabledI(1) push_sleep push_enter)
     (metis enabledI(1) push_refused push_accepted surj_pair, metis enabledI(1) push_notify notify_one_total)

lemma pop_enabled:
  "at s t PopTest \<Longrightarrow> enabled s" "at s t PopBody \<Longrightarrow> enabled s" "at s t (PopNotify x) \<Longrightarrow> enabled s"
  by (metis enabledI(2) pop_sleep pop_enter)
     (metis enabledI(2) pop_finished pop_taken surj_pair option.exhaust, metis enabledI(2) pop_notify notify_one_total)

lemma close_enabled:
  "at s t CloseBody \<Longrightarrow> enabled s" "at s t CloseNotifyEmpty \<Longrightarrow> enabled s" "at s t CloseNotifyFull \<Longrightarrow> enabled s"
  by (metis enabledI(3) close_again close_first) (rule enabledI(3), erule close_step.intros)+

lemma drain_enabled:
  "at s t DrainBody \<Longrightarrow> enabled s" "at s t (DrainNotifyEmpty ds) \<Longrightarrow> enabled s"
  "at s t (DrainNotifyFull ds) \<Longrightarrow> enabled s"
  by (metis enabledI(4) drain_body surj_pair) (rule enabledI(4), erule drain_step.intros)+

lemma return_enabled: "at s t (Done r) \<Longrightarrow> enabled s"
  by (rule enabledI(5)) (auto simp: return_step_def)

lemma lock_enabled:
  assumes "m_mutex s = None"
  shows "at s t (PushLock v) \<Longrightarrow> enabled s" "at s t PopLock \<Longrightarrow> enabled s"
    "at s t CloseLock \<Longrightarrow> enabled s" "at s t DrainLock \<Longrightarrow> enabled s"
  using assms by (auto intro: enabledI push_lock pop_lock close_lock drain_lock)

lemma holder_enabled: "at s t p \<Longrightarrow> holds p \<Longrightarrow> enabled s"
  by (cases p) (auto dest: push_enabled pop_enabled close_enabled drain_enabled)

lemma other_enabled:
  "m_mutex s = None \<Longrightarrow> at s t p \<Longrightarrow> p \<noteq> Idle \<Longrightarrow> \<not> sleeps_pop p \<Longrightarrow> \<not> sleeps_push p \<Longrightarrow> enabled s"
  by (cases p)
     (auto dest: push_enabled pop_enabled close_enabled drain_enabled return_enabled lock_enabled)

lemma monitor_progress:
  assumes "monitor_inv s" and "\<not> quiet s"
  shows "enabled s"
proof (cases "m_mutex s")
  case None
  from assms(2) obtain t p where "at s t p" "p \<noteq> Idle" "\<not> sleeps_pop p" "\<not> sleeps_push p"
    by (auto simp: quiet_def at_def in_set_conv_nth)
  with None show ?thesis by (rule other_enabled)
next
  case (Some t)
  with assms(1) have "at s t (m_pcs s ! t)" and "holds (m_pcs s ! t)"
    by (auto simp: monitor_inv_def mutex_inv_def at_def)
  then show ?thesis by (rule holder_enabled)
qed

interpretation mon_calls: terminating_system monitor_init "\<lambda>s s'. \<exists>ev. monitor_step s ev s'"
  monitor_inv "\<lambda>s s'. \<exists>ev. thread_step s ev s'" monitor_weight quiet
proof unfold_locales
  fix s :: "'a monitor" and t
  show "\<exists>ev. thread_step s ev t \<Longrightarrow> \<exists>ev. monitor_step s ev t" by (auto simp: monitor_step_def)
  show "monitor_inv s \<Longrightarrow> \<exists>ev. thread_step s ev t \<Longrightarrow> monitor_weight t < monitor_weight s"
    by (auto dest: thread_step_decreases)
  show "monitor_inv s \<Longrightarrow> \<not> quiet s \<Longrightarrow> \<exists>t ev. thread_step s ev t" by (drule (1) monitor_progress) (auto simp: enabled_def)
qed

lemma quiet_waits:
  assumes "monitor_inv s" and "quiet s"
  shows "PopWait \<in> set (m_pcs s) \<Longrightarrow> \<not> q_closed (m_queue s) \<and> q_items (m_queue s) = []"
    and "PushWait v \<in> set (m_pcs s) \<Longrightarrow>
           \<not> q_closed (m_queue s) \<and> length (q_items (m_queue s)) = unat (q_capacity (m_queue s))"
proof -
  have none: "tally P (m_pcs s) = 0" if "\<And>p. P p \<Longrightarrow> p \<noteq> Idle \<and> \<not> sleeps_pop p \<and> \<not> sleeps_push p" for P
    using assms(2) that tally_pos_iff [of P "m_pcs s"] by (fastforce simp: quiet_def)
  have zero: "tally supplies_pop (m_pcs s) = 0" "tally releases_pop (m_pcs s) = 0"
      "tally supplies_push (m_pcs s) = 0" "tally releases_push (m_pcs s) = 0"
    by (rule none, rename_tac p, case_tac p; simp)+
  have w: "wake_pop_inv s" "wake_push_inv s" "queue_ok (m_queue s)"
    using assms(1) by (simp_all add: monitor_inv_def)
  show "PopWait \<in> set (m_pcs s) \<Longrightarrow> \<not> q_closed (m_queue s) \<and> q_items (m_queue s) = []"
    using w(1) zero tally_pos_iff [of sleeps_pop "m_pcs s"]
    by (force simp: wake_inv_def available_def split: if_splits)
  show "PushWait v \<in> set (m_pcs s) \<Longrightarrow>
      \<not> q_closed (m_queue s) \<and> length (q_items (m_queue s)) = unat (q_capacity (m_queue s))"
    using w(2,3) zero tally_pos_iff [of sleeps_push "m_pcs s"]
    by (force simp: wake_inv_def room_def queue_ok_def split: if_splits)
qed

lemma thread_step_closed: "thread_step s ev s' \<Longrightarrow> monitor_inv s \<Longrightarrow> q_closed (m_queue s) \<Longrightarrow> q_closed (m_queue s')"
  using bq.replay_valid [of "m_queue s"]
  by (cases ev) (auto simp: monitor_inv_def dest!: thread_step_refines)

lemma thread_step_inv: "thread_step s ev s' \<Longrightarrow> monitor_inv s \<Longrightarrow> monitor_inv s'"
  by (erule monitor_inv_step [where ev = ev]) (simp add: monitor_step_def)

section \<open>Properties\<close>

text \<open>
  C13: Linearizability. However the threads interleave, with any number of callers, sleeping,
  notified and spuriously woken threads, the calls take effect one at a time as the atomic queue
  operations: the sequence of accepted, refused, taken and drained items observed in a run is a
  sequence the sequential queue allows, and it leads to the same queue.
\<close>

theorem monitor_refines_queue:
  assumes "monitor_init s" and "monitor_run s es s'"
  shows "replays push pop close close_and_drain (m_queue s) es = Some (m_queue s')"
  using monitor_run_refines [OF assms(2) monitor_inv_init [OF assms(1)]] .

definition demo_queue :: "bool \<Rightarrow> nat blocking_queue" where
  "demo_queue c = \<lparr>q_items = [], q_closed = c, q_capacity = 1\<rparr>"

definition demo_monitor :: "nat pc \<Rightarrow> nat option \<Rightarrow> nat monitor" where
  "demo_monitor p m = \<lparr>m_queue = demo_queue False, m_mutex = m, m_pcs = [p]\<rparr>"

lemma demo_init: "monitor_init (demo_monitor Idle None)"
  by (auto simp: monitor_init_def demo_monitor_def demo_queue_def make_queue_def intro!: exI [of _ 1])

lemma demo_sleeps: "monitor_run (demo_monitor Idle None) [] (demo_monitor PopWait None)"
proof -
  have "call_step (demo_monitor Idle None) (demo_monitor PopLock None)"
    using call_pop [of "demo_monitor Idle None" 0] by (simp add: demo_monitor_def at_def goto_def)
  moreover have "pop_step 0 (demo_monitor PopLock None) None (demo_monitor PopTest (Some 0))"
    using pop_lock [of "demo_monitor PopLock None" 0] by (simp add: demo_monitor_def at_def acquire_def)
  moreover have "pop_step 0 (demo_monitor PopTest (Some 0)) None (demo_monitor PopWait None)"
    using pop_sleep [of "demo_monitor PopTest (Some 0)" 0]
    by (simp add: demo_monitor_def demo_queue_def at_def leave_def can_pop_def)
  ultimately show ?thesis
    unfolding monitor_step_def [abs_def] thread_step_def [abs_def]
    by (meson monitor_run.intros monitor_step_def thread_step_def)
qed

theorem monitor_refines_queue_witness:
  "replays push pop close close_and_drain (m_queue (demo_monitor Idle None)) [] =
     Some (m_queue (demo_monitor PopWait None))"
  by (rule monitor_refines_queue [OF demo_init demo_sleeps])

text \<open>
  C14: No wake-up is lost. When no thread can take a step by itself any more, every thread is
  outside the queue, or asleep in \<open>pop\<close> on a queue that is open and empty, or asleep in
  \<open>push\<close> on a queue that is open and full. Nobody sleeps on a closed queue, and nobody sleeps
  next to an item or a free place meant for it, although every notification is sent after the
  mutex was released.
\<close>

theorem blocked_only_when_necessary:
  assumes "monitor_init s" and "monitor_run s es s'" and "\<And>ev u. \<not> thread_step s' ev u"
    and "p \<in> set (m_pcs s')"
  shows "p = Idle
     \<or> p = PopWait \<and> \<not> q_closed (m_queue s') \<and> q_items (m_queue s') = []
     \<or> (\<exists>v. p = PushWait v) \<and> \<not> q_closed (m_queue s')
         \<and> length (q_items (m_queue s')) = unat (q_capacity (m_queue s'))"
proof -
  have inv: "monitor_inv s'" using monitor_run_inv [OF assms(2) monitor_inv_init [OF assms(1)]] .
  with assms(3) have q: "quiet s'" using monitor_progress [OF inv] by (auto simp: enabled_def)
  with assms(4) have "p = Idle \<or> sleeps_pop p \<or> sleeps_push p" by (auto simp: quiet_def)
  then show ?thesis
    using quiet_waits [OF inv q] assms(4) by (cases p) auto
qed

theorem blocked_only_when_necessary_witness:
  "PopWait = (Idle :: nat pc)
     \<or> \<not> q_closed (m_queue (demo_monitor PopWait None)) \<and> q_items (m_queue (demo_monitor PopWait None)) = []"
proof -
  have "\<not> thread_step (demo_monitor PopWait None) ev u" for ev u
    by (auto simp: demo_monitor_def at_def elim!: thread_stepE step_cases return_stepE)
  from blocked_only_when_necessary [OF demo_init demo_sleeps this, of PopWait]
  show ?thesis by (simp add: demo_monitor_def demo_queue_def)
qed

text \<open>
  Every call returns after a close. From any reachable state in which the queue is closed, the
  threads can only take a bounded number of steps before they all have left the queue: there is no
  infinite run without new calls, and a run that cannot be continued has every thread outside, in
  particular every producer and every consumer that was blocked.
\<close>

theorem close_releases_everyone:
  assumes "monitor_init s" and "monitor_run s es s'" and "q_closed (m_queue s')"
    and "((\<lambda>a b. \<exists>ev. thread_step a ev b) ^^ n) s' u"
  shows "n \<le> monitor_weight s' \<and> ((\<forall>ev v. \<not> thread_step u ev v) \<longrightarrow> (\<forall>p \<in> set (m_pcs u). p = Idle))"
proof -
  have inv: "monitor_inv s'" using monitor_run_inv [OF assms(2) monitor_inv_init [OF assms(1)]] .
  have b: "n + monitor_weight u \<le> monitor_weight s'" and u: "monitor_inv u"
    using mon_calls.run_bounded [OF inv assms(4)] by simp_all
  have "monitor_inv u \<and> q_closed (m_queue u)"
    using assms(4) inv assms(3)
    by (induction n arbitrary: u)
       (auto dest: thread_step_closed thread_step_inv)
  then have c: "q_closed (m_queue u)" ..
  have "p = Idle" if "\<forall>ev v. \<not> thread_step u ev v" and p: "p \<in> set (m_pcs u)" for p
  proof -
    have q: "quiet u" using monitor_progress [OF u] that(1) by (auto simp: enabled_def)
    with p have "p = Idle \<or> sleeps_pop p \<or> sleeps_push p" by (auto simp: quiet_def)
    with quiet_waits [OF u q] p c show ?thesis by (cases p) auto
  qed
  with b show ?thesis by simp
qed

text \<open>The same demonstration monitor once a closer has set the flag.\<close>

definition demo_closed :: "nat pc \<Rightarrow> nat monitor" where
  "demo_closed p = \<lparr>m_queue = demo_queue True, m_mutex = None, m_pcs = [p]\<rparr>"

lemma demo_closes: "monitor_run (demo_monitor Idle None) [Close] (demo_closed CloseNotifyEmpty)"
proof -
  have "call_step (demo_monitor Idle None) (demo_monitor CloseLock None)"
    using call_close [of "demo_monitor Idle None" 0] by (simp add: demo_monitor_def at_def goto_def)
  moreover have "close_step 0 (demo_monitor CloseLock None) None (demo_monitor CloseBody (Some 0))"
    using close_lock [of "demo_monitor CloseLock None" 0] by (simp add: demo_monitor_def at_def acquire_def)
  moreover have "close_step 0 (demo_monitor CloseBody (Some 0)) (Some Close) (demo_closed CloseNotifyEmpty)"
    using close_first [of "demo_monitor CloseBody (Some 0)" 0]
    by (simp add: demo_monitor_def demo_closed_def demo_queue_def at_def leave_def close_def)
  ultimately show ?thesis
    by (meson monitor_run.intros monitor_step_def thread_step_def)
qed

theorem close_releases_everyone_witness:
  "2 \<le> monitor_weight (demo_closed CloseNotifyEmpty)"
proof -
  have "thread_step (demo_closed CloseNotifyEmpty) None (demo_closed CloseNotifyFull)"
    using close_notify_empty [of "demo_closed CloseNotifyEmpty" 0]
    by (auto simp: thread_step_def demo_closed_def at_def notify_all_def)
  moreover have "thread_step (demo_closed CloseNotifyFull) None (demo_closed (Done Closed))"
    using close_notify_full [of "demo_closed CloseNotifyFull" 0]
    by (auto simp: thread_step_def demo_closed_def at_def notify_all_def)
  ultimately have "((\<lambda>a b. \<exists>ev. thread_step a ev b) ^^ 2)
      (demo_closed CloseNotifyEmpty) (demo_closed (Done Closed))"
    by (auto simp: numeral_2_eq_2 relcompp_apply)
  from close_releases_everyone [OF demo_init demo_closes _ this] show ?thesis
    by (simp add: demo_closed_def demo_queue_def)
qed

end
