(* ===== verification/Pool_Threads.thy ===== *)
theory Pool_Threads
  imports Queue_Monitor Pool_Correct
begin

text \<open>
  The pool with its queue as the threads really execute it. In Thread\_Pool a queue operation is
  one step; here a worker or a caller enters \<open>pop\<close>, \<open>push\<close>, \<open>close\<close> or \<open>close_and_drain\<close>,
  goes through the locks, waits and notifications of Queue\_Monitor and returns with the answer.
  Thread \<open>i\<close> is worker \<open>i\<close>, the callers come after the workers.

  The lemmas show that every thread is inside the function it has called, and that this system
  refines the one of Thread\_Pool: a call takes effect in its critical section, and the abstraction
  lets such a call return at once. So every safety property of the pool holds for the threads.
\<close>

section \<open>State\<close>

record 't threads =
  th_pool :: "'t system"
  th_mutex :: "nat option"
  th_pcs :: "'t envelope pc list"

definition monitor_of :: "'t threads \<Rightarrow> 't envelope monitor" where
  "monitor_of s = \<lparr>m_queue = p_queue (th_pool s), m_mutex = th_mutex s, m_pcs = th_pcs s\<rparr>"

definition with_monitor :: "'t envelope monitor \<Rightarrow> 't threads \<Rightarrow> 't threads" where
  "with_monitor m s =
     \<lparr>th_pool = (th_pool s)\<lparr>p_queue := m_queue m\<rparr>, th_mutex = m_mutex m, th_pcs = m_pcs m\<rparr>"

abbreviation nworkers :: "'t threads \<Rightarrow> nat" where
  "nworkers s \<equiv> length (workers (th_pool s))"

abbreviation ncallers :: "'t threads \<Rightarrow> nat" where
  "ncallers s \<equiv> length (callers (th_pool s))"

section \<open>Calls and returns\<close>

text \<open>Which queue function a thread is about to call.\<close>

fun worker_call :: "'t worker \<Rightarrow> 't envelope pc option" where
  "worker_call WPop = Some PopLock"
| "worker_call _ = None"

fun caller_call :: "'t caller \<Rightarrow> 't envelope pc option" where
  "caller_call (CPush e) = Some (PushLock e)"
| "caller_call CClose = Some CloseLock"
| "caller_call CDrain = Some DrainLock"
| "caller_call _ = None"

text \<open>Where the thread continues once the function has returned.\<close>

fun worker_after :: "'t worker \<Rightarrow> 't envelope ret \<Rightarrow> 't worker" where
  "worker_after w (Popped None) = WExit"
| "worker_after w (Popped (Some e)) = WStart e"
| "worker_after w _ = w"

fun caller_after :: "'t caller \<Rightarrow> 't envelope ret \<Rightarrow> 't caller" where
  "caller_after (CPush e) (Pushed b) = (if b then CIdle else CReject e)"
| "caller_after CClose Closed = CJoin []"
| "caller_after CDrain (Drained ds) = CStamp ds"
| "caller_after c _ = c"

text \<open>The argument of an accepted push was moved from; it is destroyed when \<open>submit\<close> returns.\<close>

fun chans_after :: "'t caller \<Rightarrow> 't envelope ret \<Rightarrow> channels \<Rightarrow> channels" where
  "chans_after (CPush e) (Pushed b) cs = (if b then destroy (moved_from e) cs else cs)"
| "chans_after c r cs = cs"

lemma chans_after_same [simp]: "chans_after c r cs = cs"
  by (cases "(c, r, cs)" rule: chans_after.cases) auto

section \<open>The transition system\<close>

definition queue_step :: "nat \<Rightarrow> 'a monitor \<Rightarrow> 'a queue_event option \<Rightarrow> 'a monitor \<Rightarrow> bool" where
  "queue_step t m ev m' \<longleftrightarrow> push_step t m ev m' \<or> pop_step t m ev m' \<or> close_step t m ev m' \<or> drain_step t m ev m'"

text \<open>
  What happens without a new call on the pool. The rules are: a thread enters a queue function, moves
  inside it, returns from it, or does something that is not a queue operation.
\<close>

inductive threads_run :: "('t \<Rightarrow> exec_outcome) \<Rightarrow> 't threads \<Rightarrow> 't threads \<Rightarrow> bool" for execute where
  enter_worker: "crashed (th_pool s) = None \<Longrightarrow> i < nworkers s \<Longrightarrow> th_pcs s ! i = Idle \<Longrightarrow>
     worker_call (workers (th_pool s) ! i) = Some p \<Longrightarrow>
     threads_run execute s (s\<lparr>th_pcs := (th_pcs s)[i := p]\<rparr>)"
| enter_caller: "crashed (th_pool s) = None \<Longrightarrow> j < ncallers s \<Longrightarrow> th_pcs s ! (nworkers s + j) = Idle \<Longrightarrow>
     caller_call (callers (th_pool s) ! j) = Some p \<Longrightarrow>
     threads_run execute s (s\<lparr>th_pcs := (th_pcs s)[nworkers s + j := p]\<rparr>)"
| inside_queue: "crashed (th_pool s) = None \<Longrightarrow> queue_step t (monitor_of s) ev m \<Longrightarrow>
     threads_run execute s (with_monitor m s)"
| return_worker: "crashed (th_pool s) = None \<Longrightarrow> i < nworkers s \<Longrightarrow> th_pcs s ! i = Done r \<Longrightarrow>
     threads_run execute s
       (s\<lparr>th_pool := set_worker i (worker_after (workers (th_pool s) ! i) r) (th_pool s),
          th_pcs := (th_pcs s)[i := Idle]\<rparr>)"
| return_caller: "crashed (th_pool s) = None \<Longrightarrow> j < ncallers s \<Longrightarrow> th_pcs s ! (nworkers s + j) = Done r \<Longrightarrow>
     threads_run execute s
       (s\<lparr>th_pool := set_caller j (caller_after (callers (th_pool s) ! j) r)
            ((th_pool s)\<lparr>chans := chans_after (callers (th_pool s) ! j) r (chans (th_pool s))\<rparr>),
          th_pcs := (th_pcs s)[nworkers s + j := Idle]\<rparr>)"
| local_worker: "crashed (th_pool s) = None \<Longrightarrow> i < nworkers s \<Longrightarrow>
     worker_call (workers (th_pool s) ! i) = None \<Longrightarrow> worker_step execute i (th_pool s) = Some p \<Longrightarrow>
     threads_run execute s (s\<lparr>th_pool := p\<rparr>)"
| local_caller: "crashed (th_pool s) = None \<Longrightarrow> j < ncallers s \<Longrightarrow>
     caller_call (callers (th_pool s) ! j) = None \<Longrightarrow> caller_step j (th_pool s) = Some p \<Longrightarrow>
     threads_run execute s (s\<lparr>th_pool := p\<rparr>)"

text \<open>With new calls on the pool, the clock, and spurious wake-ups.\<close>

inductive threads_step :: "('t \<Rightarrow> exec_outcome) \<Rightarrow> 't threads \<Rightarrow> 't threads \<Rightarrow> bool" for execute where
  threads_go: "threads_run execute s s' \<Longrightarrow> threads_step execute s s'"
| threads_submit: "idle j (th_pool s) \<Longrightarrow> enter_submit j i task (th_pool s) = Some p \<Longrightarrow>
     threads_step execute s (s\<lparr>th_pool := p\<rparr>)"
| threads_shutdown: "idle j (th_pool s) \<Longrightarrow>
     threads_step execute s (s\<lparr>th_pool := set_caller j CClose (th_pool s)\<rparr>)"
| threads_shutdown_now: "idle j (th_pool s) \<Longrightarrow>
     threads_step execute s (s\<lparr>th_pool := set_caller j CDrain (th_pool s)\<rparr>)"
| threads_tick: "clock (th_pool s) \<le> now \<Longrightarrow>
     threads_step execute s (s\<lparr>th_pool := (th_pool s)\<lparr>clock := now\<rparr>\<rparr>)"
| threads_spurious: "at (monitor_of s) t p \<Longrightarrow> wake_not_empty p = Some p' \<or> wake_not_full p = Some p' \<Longrightarrow>
     threads_step execute s (s\<lparr>th_pcs := (th_pcs s)[t := p']\<rparr>)"

definition threads_init :: "'t threads \<Rightarrow> bool" where
  "threads_init s \<longleftrightarrow> pool_init (th_pool s) \<and> th_mutex s = None
     \<and> th_pcs s = replicate (nworkers s + ncallers s) Idle"

section \<open>Abstraction\<close>

text \<open>The answer of a call that has taken effect.\<close>

fun linearised :: "'a pc \<Rightarrow> 'a ret option" where
  "linearised PushNotify = Some (Pushed True)"
| "linearised (PopNotify x) = Some (Popped (Some x))"
| "linearised CloseNotifyEmpty = Some Closed"
| "linearised CloseNotifyFull = Some Closed"
| "linearised (DrainNotifyEmpty ds) = Some (Drained ds)"
| "linearised (DrainNotifyFull ds) = Some (Drained ds)"
| "linearised (Done r) = Some r"
| "linearised _ = None"

definition worker_view :: "'t worker \<Rightarrow> 't envelope ret option \<Rightarrow> 't worker" where
  "worker_view w r = (case r of None \<Rightarrow> w | Some r \<Rightarrow> worker_after w r)"

definition caller_view :: "'t caller \<Rightarrow> 't envelope ret option \<Rightarrow> 't caller" where
  "caller_view c r = (case r of None \<Rightarrow> c | Some r \<Rightarrow> caller_after c r)"

text \<open>The pool in which every call that has taken effect has returned.\<close>

definition pool_of :: "'t threads \<Rightarrow> 't system" where
  "pool_of s = (let rs = map linearised (th_pcs s) in
     (th_pool s)
       \<lparr>workers := map2 worker_view (workers (th_pool s)) (take (nworkers s) rs),
        callers := map2 caller_view (callers (th_pool s)) (drop (nworkers s) rs)\<rparr>)"

section \<open>Typing: every thread is inside the function it has called\<close>

fun in_pop :: "'a pc \<Rightarrow> bool" where
  "in_pop PopLock = True"
| "in_pop PopTest = True"
| "in_pop PopWait = True"
| "in_pop PopBody = True"
| "in_pop (PopNotify x) = True"
| "in_pop (Done (Popped x)) = True"
| "in_pop _ = False"

fun in_push :: "'a \<Rightarrow> 'a pc \<Rightarrow> bool" where
  "in_push v (PushLock w) = (v = w)"
| "in_push v (PushTest w) = (v = w)"
| "in_push v (PushWait w) = (v = w)"
| "in_push v (PushBody w) = (v = w)"
| "in_push v PushNotify = True"
| "in_push v (Done (Pushed b)) = True"
| "in_push v _ = False"

fun in_close :: "'a pc \<Rightarrow> bool" where
  "in_close CloseLock = True"
| "in_close CloseBody = True"
| "in_close CloseNotifyEmpty = True"
| "in_close CloseNotifyFull = True"
| "in_close (Done Closed) = True"
| "in_close _ = False"

fun in_drain :: "'a pc \<Rightarrow> bool" where
  "in_drain DrainLock = True"
| "in_drain DrainBody = True"
| "in_drain (DrainNotifyEmpty ds) = True"
| "in_drain (DrainNotifyFull ds) = True"
| "in_drain (Done (Drained ds)) = True"
| "in_drain _ = False"

fun worker_typed :: "'t worker \<Rightarrow> 't envelope pc \<Rightarrow> bool" where
  "worker_typed WPop p = (p = Idle \<or> in_pop p)"
| "worker_typed _ p = (p = Idle)"

fun caller_typed :: "'t caller \<Rightarrow> 't envelope pc \<Rightarrow> bool" where
  "caller_typed (CPush e) p = (p = Idle \<or> in_push e p)"
| "caller_typed CClose p = (p = Idle \<or> in_close p)"
| "caller_typed CDrain p = (p = Idle \<or> in_drain p)"
| "caller_typed _ p = (p = Idle)"

definition typed :: "'t threads \<Rightarrow> bool" where
  "typed s \<longleftrightarrow> length (th_pcs s) = nworkers s + ncallers s
     \<and> (\<forall>i < nworkers s. worker_typed (workers (th_pool s) ! i) (th_pcs s ! i))
     \<and> (\<forall>j < ncallers s. caller_typed (callers (th_pool s) ! j) (th_pcs s ! (nworkers s + j)))"

subsection \<open>The threads of the view\<close>

lemma pool_of_frame [simp]:
  "p_queue (pool_of s) = p_queue (th_pool s)" "p_samples (pool_of s) = p_samples (th_pool s)"
  "p_rejected (pool_of s) = p_rejected (th_pool s)" "p_mutex (pool_of s) = p_mutex (th_pool s)"
  "p_joined (pool_of s) = p_joined (th_pool s)" "p_joinable (pool_of s) = p_joinable (th_pool s)"
  "chans (pool_of s) = chans (th_pool s)" "clock (pool_of s) = clock (th_pool s)"
  "crashed (pool_of s) = crashed (th_pool s)"
  by (simp_all add: pool_of_def Let_def)

lemma typed_length: "typed s \<Longrightarrow> length (th_pcs s) = nworkers s + ncallers s"
  by (simp add: typed_def)

lemma pool_of_length [simp]:
  "typed s \<Longrightarrow> length (workers (pool_of s)) = nworkers s" "typed s \<Longrightarrow> length (callers (pool_of s)) = ncallers s"
  by (simp_all add: pool_of_def Let_def typed_def)

lemma pool_of_nth:
  "typed s \<Longrightarrow> i < nworkers s \<Longrightarrow>
     workers (pool_of s) ! i = worker_view (workers (th_pool s) ! i) (linearised (th_pcs s ! i))"
  "typed s \<Longrightarrow> j < ncallers s \<Longrightarrow>
     callers (pool_of s) ! j = caller_view (callers (th_pool s) ! j) (linearised (th_pcs s ! (nworkers s + j)))"
  by (simp_all add: pool_of_def Let_def typed_def)

lemma pool_of_worker:
  assumes "typed s" and "i < nworkers s" and "workers (th_pool s') = (workers (th_pool s))[i := w]"
    and "callers (th_pool s') = callers (th_pool s)" and "th_pcs s' = (th_pcs s)[i := p]"
  shows "pool_of s' = (th_pool s')\<lparr>workers := (workers (pool_of s))[i := worker_view w (linearised p)],
     callers := callers (pool_of s)\<rparr>"
  using assms by (simp add: pool_of_def Let_def typed_def take_map drop_map map_update take_update_swap zip_update)

lemma pool_of_caller:
  assumes "typed s" and "j < ncallers s" and "callers (th_pool s') = (callers (th_pool s))[j := c]"
    and "workers (th_pool s') = workers (th_pool s)" and "th_pcs s' = (th_pcs s)[nworkers s + j := p]"
  shows "pool_of s' = (th_pool s')\<lparr>workers := workers (pool_of s),
     callers := (callers (pool_of s))[j := caller_view c (linearised p)]\<rparr>"
  using assms
  by (simp add: pool_of_def Let_def typed_def take_map drop_map map_update drop_update_swap zip_update)

lemma pool_of_silent:
  assumes "map linearised (th_pcs s') = map linearised (th_pcs s)" and "th_pool s' = th_pool s"
  shows "pool_of s' = pool_of s"
  using assms by (simp add: pool_of_def)

subsection \<open>Typing is kept\<close>

lemma typed_worker:
  assumes "typed s" and "i < nworkers s" and "workers (th_pool s') = (workers (th_pool s))[i := w]"
    and "callers (th_pool s') = callers (th_pool s)" and "th_pcs s' = (th_pcs s)[i := p]"
    and "worker_typed w p"
  shows "typed s'"
  using assms by (auto simp: typed_def nth_list_update)

lemma typed_caller:
  assumes "typed s" and "j < ncallers s" and "callers (th_pool s') = (callers (th_pool s))[j := c]"
    and "workers (th_pool s') = workers (th_pool s)" and "th_pcs s' = (th_pcs s)[nworkers s + j := p]"
    and "caller_typed c p"
  shows "typed s'"
  using assms by (auto simp: typed_def nth_list_update)

lemma typed_nth:
  "typed s \<Longrightarrow> i < nworkers s \<Longrightarrow> worker_typed (workers (th_pool s) ! i) (th_pcs s ! i)"
  "typed s \<Longrightarrow> j < ncallers s \<Longrightarrow> caller_typed (callers (th_pool s) ! j) (th_pcs s ! (nworkers s + j))"
  by (simp_all add: typed_def)

text \<open>A move inside one and the same function.\<close>

definition same_call :: "'a pc \<Rightarrow> 'a pc \<Rightarrow> bool" where
  "same_call p p' \<longleftrightarrow> p \<noteq> Idle \<and> p' \<noteq> Idle \<and> (in_pop p \<longrightarrow> in_pop p') \<and> (\<forall>v. in_push v p \<longrightarrow> in_push v p')
     \<and> (in_close p \<longrightarrow> in_close p') \<and> (in_drain p \<longrightarrow> in_drain p')"

definition calls_kept :: "'a pc list \<Rightarrow> 'a pc list \<Rightarrow> bool" where
  "calls_kept ps ps' \<longleftrightarrow> length ps' = length ps \<and> (\<forall>k < length ps. ps' ! k = ps ! k \<or> same_call (ps ! k) (ps' ! k))"

lemma same_call_wake:
  "wake_not_empty p = Some p' \<Longrightarrow> same_call p p'" "wake_not_full p = Some p' \<Longrightarrow> same_call p p'"
  by (auto simp: same_call_def dest!: sleeps_wake)

lemma calls_kept_update: "same_call (ps ! t) p \<Longrightarrow> calls_kept ps (ps[t := p])"
  by (auto simp: calls_kept_def nth_update)

lemma calls_kept_woken:
  assumes "woken wake ps ps'" and "\<And>p p'. wake p = Some p' \<Longrightarrow> same_call p p'" and "same_call (ps ! t) p"
  shows "calls_kept ps (ps'[t := p])"
  using assms by (auto simp: calls_kept_def woken_def nth_update)

lemma queue_stepE:
  assumes "queue_step t m ev m'"
  obtains "push_step t m ev m'" | "pop_step t m ev m'" | "close_step t m ev m'" | "drain_step t m ev m'"
  using assms unfolding queue_step_def by blast

lemma queue_step_calls: "queue_step t m ev m' \<Longrightarrow> calls_kept (m_pcs m) (m_pcs m')"
  by (elim queue_stepE step_cases; simp add: monitor_upd_defs;
      ((rule calls_kept_woken [OF woken_notify_one], assumption)
       | rule calls_kept_woken [OF woken_notify_all] | rule calls_kept_update))
     (auto intro: same_call_wake, auto simp: same_call_def)

lemma typed_kept:
  "worker_typed w p \<Longrightarrow> same_call p p' \<Longrightarrow> worker_typed w p'"
  "caller_typed c p \<Longrightarrow> same_call p p' \<Longrightarrow> caller_typed c p'"
  by (cases w; auto simp: same_call_def) (cases c; auto simp: same_call_def)

lemma typed_calls:
  assumes "typed s" and "calls_kept (th_pcs s) (th_pcs s')" and "workers (th_pool s') = workers (th_pool s)"
    and "callers (th_pool s') = callers (th_pool s)"
  shows "typed s'"
proof -
  note len = typed_length [OF assms(1)]
  have k: "th_pcs s' ! k = th_pcs s ! k \<or> same_call (th_pcs s ! k) (th_pcs s' ! k)" if "k < length (th_pcs s)" for k
    using assms(2) that by (simp add: calls_kept_def)
  have "worker_typed (workers (th_pool s) ! i) (th_pcs s' ! i)" if "i < nworkers s" for i
    using k [of i] typed_nth(1) [OF assms(1) that] typed_kept(1) len that by fastforce
  moreover have "caller_typed (callers (th_pool s) ! j) (th_pcs s' ! (nworkers s + j))" if "j < ncallers s" for j
    using k [of "nworkers s + j"] typed_nth(2) [OF assms(1) that] typed_kept(2) len that by fastforce
  ultimately show ?thesis using assms(2-4) len by (simp add: typed_def calls_kept_def)
qed

lemma linearised_wake:
  "wake_not_empty p = Some p' \<Longrightarrow> linearised p' = linearised p"
  "wake_not_full p = Some p' \<Longrightarrow> linearised p' = linearised p"
  by (auto dest!: sleeps_wake)

lemma linearised_update: "linearised p = linearised (ps ! t) \<Longrightarrow> map linearised (ps[t := p]) = map linearised ps"
  by (metis list_update_id map_update)

lemma linearised_woken:
  assumes "woken wake ps ps'" and "\<And>p p'. wake p = Some p' \<Longrightarrow> linearised p' = linearised p"
    and "linearised p = linearised (ps ! t)"
  shows "map linearised (ps'[t := p]) = map linearised ps"
proof -
  have "map linearised ps' = map linearised ps"
    using assms(1) woken_nth [OF assms(1), of _ "\<lambda>p. linearised p = r" for r] assms(2)
    by (intro nth_equalityI) (auto simp: woken_length)
  with assms(3) show ?thesis by (metis linearised_update map_update)
qed

lemma queue_step_silent:
  "queue_step t m None m' \<Longrightarrow> m_queue m' = m_queue m \<and> map linearised (m_pcs m') = map linearised (m_pcs m)"
  by (elim queue_stepE step_cases; simp add: monitor_upd_defs;
      ((rule linearised_woken [OF woken_notify_one], assumption)
       | rule linearised_woken [OF woken_notify_all] | rule linearised_update))
     (auto dest: linearised_wake)

section \<open>Refinement\<close>

text \<open>The critical sections as steps of the atomic queue, with the answer of the call.\<close>

fun section_effect :: "'a pc \<Rightarrow> 'a blocking_queue \<Rightarrow> ('a ret \<times> 'a blocking_queue) option" where
  "section_effect (PushBody v) q = map_option (apfst Pushed) (push v q)"
| "section_effect PopBody q = map_option (apfst Popped) (pop q)"
| "section_effect CloseBody q = Some (Closed, close q)"
| "section_effect DrainBody q = Some (apfst Drained (close_and_drain q))"
| "section_effect _ q = None"

definition takes_effect :: "nat \<Rightarrow> 'a monitor \<Rightarrow> 'a monitor \<Rightarrow> bool" where
  "takes_effect t m m' \<longleftrightarrow>
     (\<exists>p p' r. at m t p \<and> section_effect p (m_queue m) = Some (r, m_queue m')
        \<and> m_pcs m' = (m_pcs m)[t := p'] \<and> linearised p' = Some r)"

lemma takes_effectI:
  "at m t p \<Longrightarrow> linearised p' \<noteq> None \<Longrightarrow> section_effect p (m_queue m) = Some (the (linearised p'), q) \<Longrightarrow>
   takes_effect t m (leave t p' q m)"
  unfolding takes_effect_def by (intro exI [of _ p] exI [of _ p']) (auto simp: leave_def)

lemma queue_step_visible:
  assumes "queue_step t m (Some e) m'" and "body_inv m"
  shows "takes_effect t m m'"
  using assms(1)
  by (elim queue_stepE step_cases)
     (auto intro!: takes_effectI simp: push_def pop_def body_invD [OF assms(2)])

text \<open>The other steps neither look at nor change what the abstraction hides.\<close>

lemma worker_step_local:
  assumes "worker_step execute i s = Some p" and "worker_call (workers s ! i) = None"
    and "i < length (workers s)" and "i < length ws" and "ws ! i = workers s ! i"
  shows "\<exists>w. workers p = (workers s)[i := w] \<and> callers p = callers s \<and> p_queue p = p_queue s
     \<and> worker_step execute i (s\<lparr>workers := ws, callers := cs\<rparr>) = Some (p\<lparr>workers := ws[i := w], callers := cs\<rparr>)"
proof (cases "workers s ! i")
  case (WRun e d)
  show ?thesis
  proof (cases "run execute d (clock s) e (chans s)")
    case (Inl f)
    have "(workers s)[i := WRun e d] = workers s" "ws[i := WRun e d] = ws"
      using WRun assms(5) by (metis list_update_id)+
    with Inl WRun assms show ?thesis
      by (intro exI [of _ "WRun e d"]) (auto simp: worker_step_def crash_def)
  next
    case (Inr a)
    with WRun assms show ?thesis
      by (intro exI [of _ "WRecord e (fst a)"]) (auto simp: worker_step_def set_worker_def split: prod.splits)
  qed
qed (use assms in \<open>auto simp: worker_step_def set_worker_def\<close>)

lemma caller_step_local:
  assumes "caller_step j s = Some p" and "caller_call (callers s ! j) = None"
    and "j < length (callers s)" and "j < length cs" and "cs ! j = callers s ! j"
    and "\<And>i. i < length (p_joinable s) \<Longrightarrow> workers s ! i = WExit \<Longrightarrow> ws ! i = WExit"
  shows "\<exists>c. callers p = (callers s)[j := c] \<and> workers p = workers s \<and> p_queue p = p_queue s
     \<and> caller_step j (s\<lparr>workers := ws, callers := cs\<rparr>) = Some (p\<lparr>workers := ws, callers := cs[j := c]\<rparr>)"
proof (cases "callers s ! j")
  case (CReject e)
  have "(callers s)[j := CReject e] = callers s" "cs[j := CReject e] = cs"
    using CReject assms(5) by (metis list_update_id)+
  with CReject assms(1-5) show ?thesis
    by (cases "reject (clock s) e (chans s)")
       (auto simp: caller_step_def submit_step_def set_caller_def crash_def intro!: exI [of _ "callers p ! j"])
next
  case (CDiscard f rs es)
  then show ?thesis
  proof (cases es)
    case (Cons e es')
    have "(callers s)[j := CDiscard f rs es] = callers s" "cs[j := CDiscard f rs es] = cs"
      using CDiscard assms(5) by (metis list_update_id)+
    with Cons CDiscard assms(1-5) show ?thesis
      by (cases "reject f e (chans s)")
         (auto simp: caller_step_def shutdown_now_step_def set_caller_def crash_def
           intro!: exI [of _ "callers p ! j"])
  qed (use assms(1-5) in \<open>auto simp: caller_step_def shutdown_now_step_def set_caller_def\<close>)
qed (use assms in \<open>auto simp: caller_step_def submit_step_def shutdown_step_def
      shutdown_now_step_def join_step_def set_caller_def split: if_splits\<close>)

lemma pool_of_eq: "(th_pool s)\<lparr>workers := workers (pool_of s), callers := callers (pool_of s)\<rparr> = pool_of s"
  by (simp add: pool_of_def Let_def)

lemma monitor_of_simps [simp]:
  "m_queue (monitor_of s) = p_queue (th_pool s)" "m_mutex (monitor_of s) = th_mutex s"
  "m_pcs (monitor_of s) = th_pcs s" "monitor_of (with_monitor m s) = m"
  "th_pcs (with_monitor m s) = m_pcs m" "th_pool (with_monitor m s) = (th_pool s)\<lparr>p_queue := m_queue m\<rparr>"
  by (simp_all add: monitor_of_def with_monitor_def)

lemma thread_cases:
  assumes "typed s" and "at (monitor_of s) t p"
  obtains (worker) "t < nworkers s" "worker_typed (workers (th_pool s) ! t) p"
  | (caller) j where "t = nworkers s + j" "j < ncallers s" "caller_typed (callers (th_pool s) ! j) p"
proof (cases "t < nworkers s")
  case True
  with assms typed_nth(1) [OF assms(1) True] show thesis by (intro worker) (auto simp: at_def)
next
  case False
  then obtain j where j: "t = nworkers s + j" using le_Suc_ex not_less by blast
  with assms have "j < ncallers s" by (simp add: at_def typed_def)
  with assms j typed_nth(2) [OF assms(1) this] show thesis by (intro caller [of j]) (auto simp: at_def)
qed

lemma effect_worker:
  assumes "worker_typed w p" and "section_effect p q = Some (r, q')"
  shows "w = WPop \<and> (\<exists>x. pop q = Some (x, q') \<and> r = Popped x)"
  using assms by (cases w; cases p) auto

lemma effect_caller:
  assumes "caller_typed c p" and "section_effect p q = Some (r, q')"
  shows "(\<exists>e b. c = CPush e \<and> push e q = Some (b, q') \<and> r = Pushed b)
     \<or> c = CClose \<and> q' = close q \<and> r = Closed
     \<or> c = CDrain \<and> (\<exists>ds. close_and_drain q = (ds, q') \<and> r = Drained ds)"
  using assms by (cases "close_and_drain q"; cases c; cases p) auto

lemma effect_None: "section_effect p q = Some r \<Longrightarrow> linearised p = None"
  by (cases p) auto

lemma pool_of_worker_effect:
  assumes "typed s" and "i < nworkers s" and "m_pcs m = (th_pcs s)[i := p]"
  shows "pool_of (with_monitor m s) =
     set_worker i (worker_view (workers (th_pool s) ! i) (linearised p)) ((pool_of s)\<lparr>p_queue := m_queue m\<rparr>)"
proof -
  have "pool_of (with_monitor m s) = (th_pool (with_monitor m s))\<lparr>workers :=
      (workers (pool_of s))[i := worker_view (workers (th_pool s) ! i) (linearised p)], callers := callers (pool_of s)\<rparr>"
    by (rule pool_of_worker [OF assms(1,2)]) (simp_all add: assms(3))
  then show ?thesis by (subst pool_of_eq [of s, symmetric]) (simp add: set_worker_def)
qed

lemma pool_of_caller_effect:
  assumes "typed s" and "j < ncallers s" and "m_pcs m = (th_pcs s)[nworkers s + j := p]"
  shows "pool_of (with_monitor m s) =
     set_caller j (caller_view (callers (th_pool s) ! j) (linearised p)) ((pool_of s)\<lparr>p_queue := m_queue m\<rparr>)"
proof -
  have "pool_of (with_monitor m s) = (th_pool (with_monitor m s))\<lparr>workers := workers (pool_of s), callers :=
      (callers (pool_of s))[j := caller_view (callers (th_pool s) ! j) (linearised p)]\<rparr>"
    by (rule pool_of_caller [OF assms(1,2)]) (simp_all add: assms(3))
  then show ?thesis by (subst pool_of_eq [of s, symmetric]) (simp add: set_caller_def)
qed

lemma effect_run:
  assumes ty: "typed s" and ok: "crashed (th_pool s) = None" and "takes_effect t (monitor_of s) m"
  shows "pool_run execute (pool_of s) (pool_of (with_monitor m s))"
proof -
  from assms(3) obtain p p' r where at: "at (monitor_of s) t p"
    and eff: "section_effect p (p_queue (th_pool s)) = Some (r, m_queue m)"
    and pcs: "m_pcs m = (th_pcs s)[t := p']" and lin: "linearised p' = Some r"
    unfolding takes_effect_def by auto
  have p: "linearised (th_pcs s ! t) = None" using at effect_None [OF eff] by (simp add: at_def)
  from ty at show ?thesis
  proof (cases rule: thread_cases)
    case worker
    obtain x where "workers (th_pool s) ! t = WPop" "pop (p_queue (th_pool s)) = Some (x, m_queue m)" "r = Popped x"
      using effect_worker [OF worker(2) eff] by blast
    with p lin pool_of_nth(1) [OF ty worker(1)] pool_of_worker_effect [OF ty worker(1) pcs]
    have "worker_step execute t (pool_of s) = Some (pool_of (with_monitor m s))"
      by (cases x) (simp_all add: worker_step_def worker_view_def)
    with worker(1) ok ty show ?thesis by (intro run_worker) simp_all
  next
    case (caller j)
    have "callers (pool_of s) ! j = callers (th_pool s) ! j"
      using p caller(1) pool_of_nth(2) [OF ty caller(2)] by (simp add: caller_view_def)
    with effect_caller [OF caller(3) eff] pool_of_caller_effect [OF ty caller(2), of m p'] pcs lin caller(1)
    have "caller_step j (pool_of s) = Some (pool_of (with_monitor m s))"
      by (auto simp: caller_step_def submit_step_def shutdown_step_def shutdown_now_step_def
          set_caller_def caller_view_def split: bool.splits)
    with caller(2) ok ty show ?thesis by (intro run_caller) simp_all
  qed
qed

lemma typed_Idle [simp]: "worker_typed w Idle" "caller_typed c Idle"
  by (cases w; simp) (cases c; simp)

lemma typed_no_call:
  "worker_typed w p \<Longrightarrow> worker_call w = None \<Longrightarrow> p = Idle"
  "caller_typed c p \<Longrightarrow> caller_call c = None \<Longrightarrow> p = Idle"
  by (cases w; simp) (cases c; simp)

definition threads_inv :: "'t threads \<Rightarrow> bool" where
  "threads_inv s \<longleftrightarrow> typed s \<and> monitor_inv (monitor_of s) \<and> full_inv (pool_of s)"

lemma local_worker_run:
  assumes ty: "typed s" and ok: "crashed (th_pool s) = None" and i: "i < nworkers s"
    and "worker_call (workers (th_pool s) ! i) = None" and "worker_step execute i (th_pool s) = Some p"
  shows "typed (s\<lparr>th_pool := p\<rparr>) \<and> p_queue p = p_queue (th_pool s)
     \<and> pool_run execute (pool_of s) (pool_of (s\<lparr>th_pool := p\<rparr>))"
proof -
  let ?s = "s\<lparr>th_pool := p\<rparr>"
  have idle: "th_pcs s ! i = Idle" using typed_no_call(1) [OF typed_nth(1) [OF ty i] assms(4)] .
  then have v: "workers (pool_of s) ! i = workers (th_pool s) ! i"
    using pool_of_nth(1) [OF ty i] by (simp add: worker_view_def)
  obtain w where w: "workers p = (workers (th_pool s))[i := w]" "callers p = callers (th_pool s)"
      "p_queue p = p_queue (th_pool s)"
    and st: "worker_step execute i (pool_of s) = Some (p\<lparr>workers := (workers (pool_of s))[i := w], callers := callers (pool_of s)\<rparr>)"
    using worker_step_local [OF assms(5,4) i, of "workers (pool_of s)" "callers (pool_of s)"] i v ty
    unfolding pool_of_eq pool_of_length(1) [OF ty] by blast
  have pcs: "th_pcs ?s = (th_pcs s)[i := Idle]" by (simp add: idle [symmetric])
  have f: "workers (th_pool ?s) = (workers (th_pool s))[i := w]" "callers (th_pool ?s) = callers (th_pool s)"
    using w by simp_all
  have "pool_of ?s = p\<lparr>workers := (workers (pool_of s))[i := w], callers := callers (pool_of s)\<rparr>"
    using pool_of_worker [OF ty i f pcs] by (simp add: worker_view_def)
  with st ok i ty have "pool_run execute (pool_of s) (pool_of ?s)" by (intro run_worker [of _ i]) simp_all
  moreover have "typed ?s" using typed_worker [OF ty i f pcs] by simp
  ultimately show ?thesis using w by simp
qed

lemma exited_view:
  "typed s \<Longrightarrow> i < nworkers s \<Longrightarrow> workers (th_pool s) ! i = WExit \<Longrightarrow> workers (pool_of s) ! i = WExit"
  using typed_nth(1) [of s i] pool_of_nth(1) [of s i] by (simp add: worker_view_def)

lemma local_caller_run:
  assumes inv: "threads_inv s" and ok: "crashed (th_pool s) = None" and j: "j < ncallers s"
    and "caller_call (callers (th_pool s) ! j) = None" and "caller_step j (th_pool s) = Some p"
  shows "typed (s\<lparr>th_pool := p\<rparr>) \<and> p_queue p = p_queue (th_pool s)
     \<and> pool_run execute (pool_of s) (pool_of (s\<lparr>th_pool := p\<rparr>))"
proof -
  let ?s = "s\<lparr>th_pool := p\<rparr>" and ?t = "nworkers s + j"
  have ty: "typed s" using inv by (simp add: threads_inv_def)
  have len: "length (p_joinable (th_pool s)) = nworkers s"
    using inv ty by (simp add: threads_inv_def full_inv_def pool_inv_def shut_inv_def)
  have idle: "th_pcs s ! ?t = Idle" using typed_no_call(2) [OF typed_nth(2) [OF ty j] assms(4)] .
  then have v: "callers (pool_of s) ! j = callers (th_pool s) ! j"
    using pool_of_nth(2) [OF ty j] by (simp add: caller_view_def)
  obtain c where c: "callers p = (callers (th_pool s))[j := c]" "workers p = workers (th_pool s)"
      "p_queue p = p_queue (th_pool s)"
    and st: "caller_step j (pool_of s) = Some (p\<lparr>workers := workers (pool_of s), callers := (callers (pool_of s))[j := c]\<rparr>)"
    using caller_step_local [OF assms(5,4) j, of "callers (pool_of s)" "workers (pool_of s)"] j v exited_view [OF ty]
    unfolding pool_of_eq pool_of_length(2) [OF ty] len by blast
  have pcs: "th_pcs ?s = (th_pcs s)[?t := Idle]" by (simp add: idle [symmetric])
  have f: "callers (th_pool ?s) = (callers (th_pool s))[j := c]" "workers (th_pool ?s) = workers (th_pool s)"
    using c by simp_all
  have "pool_of ?s = p\<lparr>workers := workers (pool_of s), callers := (callers (pool_of s))[j := c]\<rparr>"
    using pool_of_caller [OF ty j f pcs] by (simp add: caller_view_def)
  with st ok j ty have "pool_run execute (pool_of s) (pool_of ?s)" by (intro run_caller [of _ j]) simp_all
  moreover have "typed ?s" using typed_caller [OF ty j f pcs] by simp
  ultimately show ?thesis using c by simp
qed

text \<open>Entering a queue function and returning from it are invisible.\<close>

definition monitor_moves :: "'t threads \<Rightarrow> 't threads \<Rightarrow> bool" where
  "monitor_moves s s' \<longleftrightarrow> monitor_of s' = monitor_of s \<or> (\<exists>ev. monitor_step (monitor_of s) ev (monitor_of s'))"

lemma goto_monitor:
  "th_pcs s' = (th_pcs s)[t := p] \<Longrightarrow> th_mutex s' = th_mutex s \<Longrightarrow> p_queue (th_pool s') = p_queue (th_pool s) \<Longrightarrow>
   monitor_of s' = goto t p (monitor_of s)"
  by (simp add: monitor_of_def goto_def)

lemma enter_call:
  assumes "th_pcs s ! t = Idle" and "t < length (th_pcs s)"
    and "\<exists>v. p \<in> {PopLock, PushLock v, CloseLock, DrainLock}"
  shows "monitor_moves s (s\<lparr>th_pcs := (th_pcs s)[t := p]\<rparr>) \<and> pool_of (s\<lparr>th_pcs := (th_pcs s)[t := p]\<rparr>) = pool_of s"
proof -
  let ?s = "s\<lparr>th_pcs := (th_pcs s)[t := p]\<rparr>"
  have "at (monitor_of s) t Idle" using assms(1,2) by (simp add: at_def)
  then have "call_step (monitor_of s) (goto t p (monitor_of s))"
    using assms(3) by (auto intro: call_step.intros)
  then have "monitor_moves s ?s" by (auto simp: monitor_moves_def monitor_step_def goto_monitor)
  moreover have "linearised p = None" using assms(3) by auto
  with assms(1) have "map linearised (th_pcs ?s) = map linearised (th_pcs s)"
    by (simp add: linearised_update)
  then have "pool_of ?s = pool_of s" by (rule pool_of_silent) simp
  ultimately show ?thesis by blast
qed

lemma return_moves:
  assumes "th_pcs s ! t = Done r" and "t < length (th_pcs s)" and "th_pcs s' = (th_pcs s)[t := Idle]"
    and "th_mutex s' = th_mutex s" and "p_queue (th_pool s') = p_queue (th_pool s)"
  shows "monitor_moves s s'"
proof -
  have "return_step t (monitor_of s) (goto t Idle (monitor_of s))"
    using assms(1,2) by (auto simp: return_step_def at_def)
  then show ?thesis
    by (auto simp: monitor_moves_def monitor_step_def thread_step_def goto_monitor [OF assms(3-5)])
qed

lemma return_worker_view:
  assumes ty: "typed s" and i: "i < nworkers s" and "th_pcs s ! i = Done r"
    and "s' = s\<lparr>th_pool := set_worker i (worker_after (workers (th_pool s) ! i) r) (th_pool s),
                th_pcs := (th_pcs s)[i := Idle]\<rparr>"
  shows "typed s' \<and> monitor_moves s s' \<and> pool_of s' = pool_of s"
proof -
  let ?w = "worker_after (workers (th_pool s) ! i) r"
  have f: "workers (th_pool s') = (workers (th_pool s))[i := ?w]" "callers (th_pool s') = callers (th_pool s)"
    "th_pcs s' = (th_pcs s)[i := Idle]" by (simp_all add: assms(4) set_worker_def)
  have "pool_of s' = (th_pool s')\<lparr>workers := (workers (pool_of s))[i := ?w], callers := callers (pool_of s)\<rparr>"
    using pool_of_worker [OF ty i f] by (simp add: worker_view_def)
  moreover have "workers (pool_of s) ! i = ?w" using pool_of_nth(1) [OF ty i] assms(3) by (simp add: worker_view_def)
  ultimately have "pool_of s' = pool_of s"
    by (subst pool_of_eq [of s, symmetric]) (simp add: assms(4) set_worker_def list_update_same_conv ty i)
  moreover have "typed s'" using typed_worker [OF ty i f] by simp
  moreover have "monitor_moves s s'"
    using return_moves [OF assms(3)] typed_length [OF ty] i f by (simp add: assms(4) set_worker_def)
  ultimately show ?thesis by blast
qed

lemma return_caller_view:
  assumes ty: "typed s" and j: "j < ncallers s" and "th_pcs s ! (nworkers s + j) = Done r"
    and "s' = s\<lparr>th_pool := set_caller j (caller_after (callers (th_pool s) ! j) r)
                  ((th_pool s)\<lparr>chans := chans_after (callers (th_pool s) ! j) r (chans (th_pool s))\<rparr>),
                th_pcs := (th_pcs s)[nworkers s + j := Idle]\<rparr>"
  shows "typed s' \<and> monitor_moves s s' \<and> pool_of s' = pool_of s"
proof -
  let ?c = "caller_after (callers (th_pool s) ! j) r"
  have f: "callers (th_pool s') = (callers (th_pool s))[j := ?c]" "workers (th_pool s') = workers (th_pool s)"
    "th_pcs s' = (th_pcs s)[nworkers s + j := Idle]" by (simp_all add: assms(4) set_caller_def)
  have "pool_of s' = (th_pool s')\<lparr>workers := workers (pool_of s), callers := (callers (pool_of s))[j := ?c]\<rparr>"
    using pool_of_caller [OF ty j f] by (simp add: caller_view_def)
  moreover have "callers (pool_of s) ! j = ?c" using pool_of_nth(2) [OF ty j] assms(3) by (simp add: caller_view_def)
  ultimately have "pool_of s' = pool_of s"
    by (subst pool_of_eq [of s, symmetric]) (simp add: assms(4) set_caller_def list_update_same_conv ty j)
  moreover have "typed s'" using typed_caller [OF ty j f] by simp
  moreover have "monitor_moves s s'"
    using return_moves [OF assms(3)] typed_length [OF ty] j f by (simp add: assms(4) set_caller_def)
  ultimately show ?thesis by blast
qed

lemma queue_monitor_step: "queue_step t m ev m' \<Longrightarrow> monitor_step m ev m'"
  by (auto simp: queue_step_def monitor_step_def thread_step_def)

lemma threads_run_view:
  assumes inv: "threads_inv s" and st: "threads_run execute s s'"
  shows "typed s' \<and> monitor_moves s s' \<and> (pool_of s' = pool_of s \<or> pool_run execute (pool_of s) (pool_of s'))"
proof -
  have ty: "typed s" and body: "body_inv (monitor_of s)"
    using inv by (simp_all add: threads_inv_def monitor_inv_def)
  note len = typed_length [OF ty]
  show ?thesis using st
  proof cases
    case (enter_worker i p)
    let ?w = "workers (th_pool s) ! i"
    have w: "worker_typed ?w p" "p = PopLock" using enter_worker(5) by (cases ?w; auto)+
    then have "typed s'" using typed_worker [OF ty enter_worker(3), of s' ?w p] enter_worker(1) by simp
    with enter_call [OF enter_worker(4), of p] len w enter_worker show ?thesis by auto
  next
    case (enter_caller j p)
    let ?c = "callers (th_pool s) ! j"
    have c: "caller_typed ?c p" "\<exists>v. p \<in> {PopLock, PushLock v, CloseLock, DrainLock}"
      using enter_caller(5) by (cases ?c; auto)+
    then have "typed s'" using typed_caller [OF ty enter_caller(3), of s' ?c p] enter_caller(1) by simp
    with enter_call [OF enter_caller(4) _ c(2)] len enter_caller show ?thesis by auto
  next
    case (inside_queue t ev m)
    have "typed s'"
      using typed_calls [OF ty, of s'] queue_step_calls [OF inside_queue(3)] inside_queue(1) by simp
    moreover have "monitor_moves s s'"
      using queue_monitor_step [OF inside_queue(3)] inside_queue(1) by (auto simp: monitor_moves_def)
    moreover have "pool_of s' = pool_of s \<or> pool_run execute (pool_of s) (pool_of s')"
    proof (cases ev)
      case None
      with queue_step_silent [of t "monitor_of s" m] inside_queue have "pool_of s' = pool_of s"
        by (intro pool_of_silent) simp_all
      then show ?thesis ..
    next
      case (Some e)
      with effect_run [OF ty inside_queue(2)] queue_step_visible [OF _ body] inside_queue show ?thesis by blast
    qed
    ultimately show ?thesis by blast
  next
    case (return_worker i r)
    then show ?thesis using return_worker_view [OF ty] by blast
  next
    case (return_caller j r)
    then show ?thesis using return_caller_view [OF ty] by blast
  next
    case (local_worker i p)
    note r = local_worker_run [OF ty local_worker(2-5)]
    then have "monitor_of s' = monitor_of s" using local_worker(1) by (simp add: monitor_of_def)
    with r local_worker(1) show ?thesis by (auto simp only: monitor_moves_def)
  next
    case (local_caller j p)
    note r = local_caller_run [OF inv local_caller(2-5)]
    then have "monitor_of s' = monitor_of s" using local_caller(1) by (simp add: monitor_of_def)
    with r local_caller(1) show ?thesis by (auto simp only: monitor_moves_def)
  qed
qed

text \<open>New calls on the pool.\<close>

lemma idle_view:
  assumes ty: "typed s" and "idle j (th_pool s)"
  shows "j < ncallers s" and "th_pcs s ! (nworkers s + j) = Idle"
    and "callers (pool_of s) ! j = CIdle" and "crashed (th_pool s) = None"
proof -
  show j: "j < ncallers s" and "crashed (th_pool s) = None" using assms(2) by (simp_all add: idle_def)
  show "th_pcs s ! (nworkers s + j) = Idle"
    using typed_nth(2) [OF ty j] assms(2) by (simp add: idle_def)
  then show "callers (pool_of s) ! j = CIdle"
    using pool_of_nth(2) [OF ty j] assms(2) by (simp add: idle_def caller_view_def)
qed

lemma enter_view:
  assumes ty: "typed s" and idle: "idle j (th_pool s)" and p: "p = set_caller j c ((th_pool s)\<lparr>chans := cs\<rparr>)"
  shows "typed (s\<lparr>th_pool := p\<rparr>) \<and> pool_of (s\<lparr>th_pool := p\<rparr>) = set_caller j c ((pool_of s)\<lparr>chans := cs\<rparr>)
     \<and> monitor_of (s\<lparr>th_pool := p\<rparr>) = monitor_of s"
proof -
  let ?s = "s\<lparr>th_pool := p\<rparr>"
  note v = idle_view [OF ty idle]
  have f: "callers (th_pool ?s) = (callers (th_pool s))[j := c]" "workers (th_pool ?s) = workers (th_pool s)"
    "th_pcs ?s = (th_pcs s)[nworkers s + j := Idle]"
    by (simp_all add: p set_caller_def v(2) [symmetric])
  have "pool_of ?s = (th_pool ?s)\<lparr>workers := workers (pool_of s), callers := (callers (pool_of s))[j := c]\<rparr>"
    using pool_of_caller [OF ty v(1) f] by (simp add: caller_view_def)
  also have "\<dots> = set_caller j c ((pool_of s)\<lparr>chans := cs\<rparr>)"
    by (subst pool_of_eq [of s, symmetric]) (simp add: p set_caller_def)
  finally have "pool_of ?s = \<dots>" .
  moreover have "typed ?s" using typed_caller [OF ty v(1) f] by simp
  moreover have "monitor_of ?s = monitor_of s" by (simp add: p monitor_of_def set_caller_def)
  ultimately show ?thesis by blast
qed

lemma enter_view_plain:
  assumes "typed s" and "idle j (th_pool s)" and "s' = s\<lparr>th_pool := set_caller j c (th_pool s)\<rparr>"
  shows "typed s' \<and> pool_of s' = set_caller j c (pool_of s) \<and> monitor_moves s s'"
proof -
  have "(pool_of s)\<lparr>chans := chans (th_pool s)\<rparr> = pool_of s" unfolding pool_of_frame(7) [symmetric] by simp
  with enter_view [OF assms(1,2), of _ c "chans (th_pool s)"] assms(3) show ?thesis by (simp add: monitor_moves_def)
qed

lemma spurious_view:
  assumes ty: "typed s" and at: "at (monitor_of s) t p" and w: "wake_not_empty p = Some p' \<or> wake_not_full p = Some p'"
    and s': "s' = s\<lparr>th_pcs := (th_pcs s)[t := p']\<rparr>"
  shows "typed s' \<and> monitor_moves s s' \<and> pool_of s' = pool_of s"
proof -
  have p: "th_pcs s ! t = p" using at by (simp add: at_def)
  have "same_call p p'" "linearised p' = linearised p" using w same_call_wake linearised_wake by blast+
  then have "typed s'" "pool_of s' = pool_of s"
    using typed_calls [OF ty, of s'] calls_kept_update [of "th_pcs s" t p'] pool_of_silent [of s' s]
      linearised_update [of p' "th_pcs s" t] p s' by simp_all
  moreover have "call_step (monitor_of s) (goto t p' (monitor_of s))"
    using w at by (auto dest!: sleeps_wake intro: spurious_push spurious_pop)
  then have "monitor_moves s s'" by (auto simp: monitor_moves_def monitor_step_def goto_monitor s')
  ultimately show ?thesis by blast
qed

lemma threads_step_view:
  assumes inv: "threads_inv s" and st: "threads_step execute s s'"
  shows "typed s' \<and> monitor_moves s s' \<and> (pool_of s' = pool_of s \<or> pool_step execute (pool_of s) (pool_of s'))"
proof -
  have ty: "typed s" using inv by (simp add: threads_inv_def)
  show ?thesis using st
  proof cases
    case threads_go
    with threads_run_view [OF inv] step_run show ?thesis by blast
  next
    case (threads_submit j i task p)
    obtain c cs where p: "p = set_caller j c ((th_pool s)\<lparr>chans := cs\<rparr>)"
        "enter_submit j i task (pool_of s) = Some (set_caller j c ((pool_of s)\<lparr>chans := cs\<rparr>))"
      using threads_submit(3) by (auto simp: enter_submit_eq)
    note v = idle_view [OF ty threads_submit(2)]
    have "pool_step execute (pool_of s) (set_caller j c ((pool_of s)\<lparr>chans := cs\<rparr>))"
      by (rule step_submit [OF _ _ v(3) p(2)]) (use v ty in simp_all)
    with enter_view [OF ty threads_submit(2) p(1)] threads_submit(1) show ?thesis by (simp add: monitor_moves_def)
  next
    case (threads_shutdown j)
    note v = idle_view [OF ty threads_shutdown(2)]
    have "pool_step execute (pool_of s) (set_caller j CClose (pool_of s))"
      by (rule step_shutdown) (use v ty in simp_all)
    with enter_view_plain [OF ty threads_shutdown(2,1)] show ?thesis by simp
  next
    case (threads_shutdown_now j)
    note v = idle_view [OF ty threads_shutdown_now(2)]
    have "pool_step execute (pool_of s) (set_caller j CDrain (pool_of s))"
      by (rule step_shutdown_now) (use v ty in simp_all)
    with enter_view_plain [OF ty threads_shutdown_now(2,1)] show ?thesis by simp
  next
    case (threads_tick now)
    have "pool_of s' = (pool_of s)\<lparr>clock := now\<rparr>" by (simp add: threads_tick(1) pool_of_def Let_def)
    moreover have "typed s'" "monitor_of s' = monitor_of s" using ty by (simp_all add: threads_tick(1) typed_def monitor_of_def)
    ultimately show ?thesis using threads_tick(2) step_tick [of "pool_of s" now] by (simp add: monitor_moves_def)
  next
    case (threads_spurious t p p')
    with spurious_view [OF ty] show ?thesis by blast
  qed
qed

lemma threads_inv_init:
  assumes "threads_init s"
  shows "pool_of s = th_pool s" and "threads_inv s"
proof -
  have p: "pool_init (th_pool s)" and pcs: "th_pcs s = replicate (nworkers s + ncallers s) Idle"
    and mutex: "th_mutex s = None" using assms by (simp_all add: threads_init_def)
  have ty: "typed s" by (simp add: typed_def pcs nth_append)
  have "workers (pool_of s) = workers (th_pool s)" "callers (pool_of s) = callers (th_pool s)"
    using ty pool_of_nth [OF ty] by (auto intro!: nth_equalityI simp: pcs worker_view_def caller_view_def)
  then show v: "pool_of s = th_pool s" using pool_of_eq [of s] by simp
  have "\<exists>cap. make_queue cap = Inr (p_queue (th_pool s))"
    using pool_init_fresh [OF p] by (simp add: fresh_system_def)
  then have "monitor_init (monitor_of s)" by (auto simp: monitor_init_def pcs mutex)
  with ty v full.inv_init [OF p] show "threads_inv s" by (simp add: threads_inv_def monitor_inv_init)
qed

lemma threads_inv_step:
  assumes inv: "threads_inv s" and "threads_step execute s s'"
  shows "threads_inv s'"
proof -
  note v = threads_step_view [OF assms]
  have "monitor_inv (monitor_of s')"
    using v inv monitor_inv_step unfolding monitor_moves_def threads_inv_def by metis
  moreover have "full_inv (pool_of s')" using v inv full_inv_step unfolding threads_inv_def by metis
  ultimately show ?thesis using v by (simp add: threads_inv_def)
qed

interpretation thread_view: refinement threads_init "threads_step execute" threads_inv
  pool_init "pool_step execute" pool_of for execute
proof
  show "threads_inv s" and "pool_init (pool_of s)" if "threads_init s" for s :: "'a threads"
    using threads_inv_init [OF that] that by (simp_all add: threads_init_def)
  show "threads_inv t" if "threads_inv s" and "threads_step execute s t" for s t :: "'a threads"
    using that by (rule threads_inv_step)
  show "pool_of t = pool_of s \<or> pool_step execute (pool_of s) (pool_of t)"
    if "threads_inv s" and "threads_step execute s t" for s t :: "'a threads"
    using threads_step_view [OF that] by blast
qed

end
