(* ===== verification/Pool_Threads_Correct.thy ===== *)
theory Pool_Threads_Correct
  imports Pool_Threads
begin

text \<open>
  The pool with its locks and condition variables does its work: it is free of deadlock and of
  endless waiting, whatever the schedule of lock acquisitions, wake-ups and joins, and what the
  pool promises of its futures holds for the threads. Every run without new calls is bounded by
  \<open>threads_weight\<close>. A deterministic scheduler \<open>th_acts\<close> runs examples.
\<close>

section \<open>Every call returns\<close>

subsection \<open>Progress\<close>

text \<open>
  Nobody is inside the pool, and every worker has left its loop or sleeps in \<open>pop\<close> on a queue that
  is open and empty.
\<close>

definition at_rest :: "'t threads \<Rightarrow> bool" where
  "at_rest s \<longleftrightarrow> (\<forall>c \<in> set (callers (th_pool s)). c = CIdle)
     \<and> (\<forall>i < nworkers s. workers (th_pool s) ! i = WExit
          \<or> th_pcs s ! i = PopWait \<and> \<not> q_closed (p_queue (th_pool s)) \<and> q_items (p_queue (th_pool s)) = [])"

lemma stuck_quiet:
  assumes inv: "threads_inv s" and ok: "crashed (th_pool s) = None" and stuck: "\<And>t. \<not> threads_run execute s t"
  shows "quiet (monitor_of s)"
proof (rule ccontr)
  assume "\<not> quiet (monitor_of s)"
  then obtain ev m where "thread_step (monitor_of s) ev m"
    using inv monitor_progress [of "monitor_of s"] by (auto simp: threads_inv_def enabled_def)
  then consider t where "queue_step t (monitor_of s) ev m" | t r where "at (monitor_of s) t (Done r)"
    by (auto simp: queue_step_def elim!: thread_stepE return_stepE)
  then show False
  proof cases
    case 1
    with inside_queue [OF ok] stuck show False by blast
  next
    case (2 t r)
    have "typed s" using inv by (simp add: threads_inv_def)
    from this 2 show False
    proof (cases rule: thread_cases)
      case worker
      with return_worker [OF ok] 2 stuck show False by (auto simp: at_def)
    next
      case (caller j)
      with return_caller [OF ok] 2 stuck show False by (auto simp: at_def)
    qed
  qed
qed

lemma quiet_view:
  assumes ty: "typed s" and "quiet (monitor_of s)"
  shows "pool_of s = th_pool s"
proof -
  have "linearised (th_pcs s ! t) = None" if "t < nworkers s + ncallers s" for t
  proof -
    have "th_pcs s ! t \<in> set (th_pcs s)" using that typed_length [OF ty] by simp
    with assms(2) show ?thesis by (cases "th_pcs s ! t") (auto simp: quiet_def)
  qed
  then have "workers (pool_of s) = workers (th_pool s)" "callers (pool_of s) = callers (th_pool s)"
    using ty pool_of_nth [OF ty] by (auto intro!: nth_equalityI simp: worker_view_def caller_view_def)
  then show ?thesis using pool_of_eq [of s] by simp
qed

text \<open>A thread that is inside a queue function and cannot move sleeps, and it has to.\<close>

lemma stuck_waits:
  assumes inv: "threads_inv s" and quiet: "quiet (monitor_of s)" and t: "t < length (th_pcs s)" and "th_pcs s ! t \<noteq> Idle"
  shows "th_pcs s ! t = PopWait \<and> pop (p_queue (th_pool s)) = None
      \<and> \<not> q_closed (p_queue (th_pool s)) \<and> q_items (p_queue (th_pool s)) = []
    \<or> (\<exists>v. th_pcs s ! t = PushWait v) \<and> (\<forall>v. push v (p_queue (th_pool s)) = None)"
proof -
  have mem: "th_pcs s ! t \<in> set (th_pcs s)" using t by simp
  have mon: "monitor_inv (monitor_of s)" using inv by (simp add: threads_inv_def)
  from quiet mem assms(4) have "sleeps_pop (th_pcs s ! t) \<or> sleeps_push (th_pcs s ! t)" by (auto simp: quiet_def)
  with quiet_waits [OF mon quiet] mem show ?thesis
    by (cases "th_pcs s ! t") (auto simp: push_def can_push_def pop_def can_pop_def)
qed

lemma threads_progress:
  assumes inv: "threads_inv s" and notrest: "\<not> at_rest s"
  shows "\<exists>t. threads_run execute s t"
proof (rule ccontr)
  assume "\<nexists>t. threads_run execute s t"
  then have stuck: "\<not> threads_run execute s t" for t by blast
  have ty: "typed s" and full: "full_inv (pool_of s)" using inv by (simp_all add: threads_inv_def)
  then have ok: "crashed (th_pool s) = None"
    by (simp add: full_inv_def pool_inv_def book_inv_def own_inv_def)
  have quiet: "quiet (monitor_of s)" using stuck_quiet [OF inv ok stuck] .
  note waits = stuck_waits [OF inv quiet] and len = typed_length [OF ty] and view = quiet_view [OF ty quiet]
  have W: "worker_call (workers (th_pool s) ! i) \<noteq> None \<Longrightarrow>
      workers (th_pool s) ! i = WPop \<and> th_pcs s ! i = PopWait \<and> pop (p_queue (th_pool s)) = None"
    if "i < nworkers s" for i
    using enter_worker [OF ok that] stuck waits [of i] typed_nth(1) [OF ty that] len that
    by (cases "workers (th_pool s) ! i") (fastforce+)
  have C: "caller_call (callers (th_pool s) ! j) \<noteq> None \<Longrightarrow>
      \<exists>e. callers (th_pool s) ! j = CPush e \<and> push e (p_queue (th_pool s)) = None"
    if "j < ncallers s" for j
    using enter_caller [OF ok that] stuck waits [of "nworkers s + j"] typed_nth(2) [OF ty that] len that
    by (cases "callers (th_pool s) ! j") (fastforce+)
  have "\<not> pool_run execute (th_pool s) p" for p
  proof
    assume "pool_run execute (th_pool s) p"
    then show False
    proof cases
      case (run_worker i)
      with W [OF run_worker(2)] local_worker [OF ok] stuck show False
        by (cases "worker_call (workers (th_pool s) ! i)") (auto simp: worker_step_def)
    next
      case (run_caller j)
      with C [OF run_caller(2)] local_caller [OF ok] stuck show False
        by (cases "caller_call (callers (th_pool s) ! j)") (auto simp: caller_step_def submit_step_def)
    qed
  qed
  then have q: "quiescent (th_pool s)"
    using pool_progress [of "th_pool s" execute] full view by (auto simp: full_inv_def)
  have "workers (th_pool s) ! i = WExit
      \<or> th_pcs s ! i = PopWait \<and> \<not> q_closed (p_queue (th_pool s)) \<and> q_items (p_queue (th_pool s)) = []"
    if i: "i < nworkers s" for i
    using q W [OF i] nth_mem [OF i] unfolding quiescent_def by fastforce
  with q notrest show False by (simp add: at_rest_def quiescent_def)
qed

subsection \<open>A weight\<close>

text \<open>
  What a thread still has to do inside the queue. A thread that has not yet entered the function it
  is about to call counts more than any counter inside; one step of the pool outweighs a new call.
\<close>

definition thread_calls :: "'t threads \<Rightarrow> 't envelope pc option list" where
  "thread_calls s = map worker_call (workers (th_pool s)) @ map caller_call (callers (th_pool s))"

definition load :: "nat \<Rightarrow> 'a pc option \<times> 'a pc \<Rightarrow> nat" where
  "load n cp = pc_weight n (snd cp) + (if snd cp = Idle \<and> fst cp \<noteq> None then 4 * n + 6 else 0)"

definition loads :: "'t threads \<Rightarrow> nat" where
  "loads s = sum_list (map (load (length (th_pcs s))) (zip (thread_calls s) (th_pcs s)))"

definition threads_weight :: "'t threads \<Rightarrow> nat" where
  "threads_weight s = pool_weight (pool_of s) * (4 * length (th_pcs s) + 7) + loads s"

lemma loads_update:
  assumes "length (thread_calls s) = length (th_pcs s)" and "t < length (th_pcs s)"
    and "thread_calls s' = (thread_calls s)[t := c]" and "th_pcs s' = (th_pcs s)[t := p]"
  shows "loads s' + load (length (th_pcs s)) (thread_calls s ! t, th_pcs s ! t) = loads s + load (length (th_pcs s)) (c, p)"
  using assms sum_list_map_update [of t "zip (thread_calls s) (th_pcs s)" "load (length (th_pcs s))" "(c, p)"]
  by (simp add: loads_def update_zip)

lemma loads_split:
  assumes "length (thread_calls s) = length (th_pcs s)"
  shows "loads s = monitor_weight (monitor_of s)
     + (4 * length (th_pcs s) + 6) * tally (\<lambda>(c, p). p = Idle \<and> c \<noteq> None) (zip (thread_calls s) (th_pcs s))"
proof -
  have "sum_list (map (load n) (zip cs ps)) = sum_list (map (pc_weight n) ps)
      + (4 * n + 6) * tally (\<lambda>(c, p). p = Idle \<and> c \<noteq> None) (zip cs ps)"
    if "length cs = length ps" for n and cs :: "'a envelope pc option list" and ps
    using that by (induction rule: list_induct2) (auto simp: load_def algebra_simps)
  from this [OF assms] show ?thesis by (simp add: loads_def monitor_weight_def)
qed

lemma calls_length: "typed s \<Longrightarrow> length (thread_calls s) = length (th_pcs s)"
  by (simp add: typed_def thread_calls_def)

lemma calls_nth:
  "i < nworkers s \<Longrightarrow> thread_calls s ! i = worker_call (workers (th_pool s) ! i)"
  "j < ncallers s \<Longrightarrow> thread_calls s ! (nworkers s + j) = caller_call (callers (th_pool s) ! j)"
  by (simp_all add: thread_calls_def nth_append)

lemma calls_worker:
  "i < nworkers s \<Longrightarrow> workers (th_pool s') = (workers (th_pool s))[i := w] \<Longrightarrow> callers (th_pool s') = callers (th_pool s) \<Longrightarrow>
   thread_calls s' = (thread_calls s)[i := worker_call w]"
  by (simp add: thread_calls_def map_update list_update_append)

lemma calls_caller:
  "j < ncallers s \<Longrightarrow> callers (th_pool s') = (callers (th_pool s))[j := c] \<Longrightarrow> workers (th_pool s') = workers (th_pool s) \<Longrightarrow>
   thread_calls s' = (thread_calls s)[nworkers s + j := caller_call c]"
  by (simp add: thread_calls_def map_update list_update_append)

lemma tally_cong: "map P xs = map P ys \<Longrightarrow> tally P xs = tally P ys"
proof -
  have "tally P zs = length (filter id (map P zs))" for zs by (induction zs) auto
  then show "map P xs = map P ys \<Longrightarrow> tally P xs = tally P ys" by (simp only:)
qed

lemma queue_step_loads:
  assumes ty: "typed s" and st: "queue_step t (monitor_of s) ev m"
  shows "loads (with_monitor m s) < loads s" and "length (m_pcs m) = length (th_pcs s)"
proof -
  let ?s = "with_monitor m s"
  have k: "calls_kept (th_pcs s) (m_pcs m)" using queue_step_calls [OF st] by simp
  then show len: "length (m_pcs m) = length (th_pcs s)" by (simp add: calls_kept_def)
  have calls: "thread_calls ?s = thread_calls s" by (simp add: thread_calls_def)
  have eq: "length (thread_calls s) = length (th_pcs s)" using calls_length [OF ty] .
  have "map (\<lambda>(c, p). p = Idle \<and> c \<noteq> None) (zip (thread_calls s) (m_pcs m))
      = map (\<lambda>(c, p). p = Idle \<and> c \<noteq> None) (zip (thread_calls s) (th_pcs s))"
    using k eq by (intro nth_equalityI) (auto simp: calls_kept_def same_call_def)
  then have "tally (\<lambda>(c, p). p = Idle \<and> c \<noteq> None) (zip (thread_calls s) (m_pcs m))
      = tally (\<lambda>(c, p). p = Idle \<and> c \<noteq> None) (zip (thread_calls s) (th_pcs s))"
    by (rule tally_cong)
  moreover have "monitor_weight m < monitor_weight (monitor_of s)"
    using st by (intro thread_step_decreases) (auto simp: queue_step_def thread_step_def)
  ultimately show "loads ?s < loads s"
    using loads_split [OF eq] loads_split [of ?s] eq len by (simp add: calls)
qed

lemma weight_call:
  "pool_of s' = pool_of s \<Longrightarrow> length (th_pcs s') = length (th_pcs s) \<Longrightarrow> loads s' < loads s \<Longrightarrow> threads_weight s' < threads_weight s"
  by (simp add: threads_weight_def)

lemma weight_pool:
  assumes "pool_weight (pool_of s') < pool_weight (pool_of s)" and "length (th_pcs s') = length (th_pcs s)"
    and "loads s' \<le> loads s + (4 * length (th_pcs s) + 6)"
  shows "threads_weight s' < threads_weight s"
proof -
  let ?k = "4 * length (th_pcs s) + 7"
  have "Suc (pool_weight (pool_of s')) * ?k \<le> pool_weight (pool_of s) * ?k" using assms(1) by (intro mult_le_mono1) simp
  with assms(2,3) show ?thesis by (simp add: threads_weight_def)
qed

lemma worker_call_after: "worker_typed w (Done r) \<Longrightarrow> worker_call (worker_after w r) = None"
  by (cases "(w, r)" rule: worker_after.cases; cases w) auto

lemma caller_call_after: "caller_typed c (Done r) \<Longrightarrow> caller_call (caller_after c r) = None"
  by (cases c; cases r) auto

lemma call_weight:
  "worker_call w = Some p \<Longrightarrow> 0 < n \<Longrightarrow> pc_weight n p < 4 * n + 6"
  "caller_call c = Some p \<Longrightarrow> 0 < n \<Longrightarrow> pc_weight n p < 4 * n + 6"
  by (cases w; auto) (cases c; auto)

lemma threads_run_length: "threads_run execute s s' \<Longrightarrow> length (th_pcs s') = length (th_pcs s)"
  by (cases rule: threads_run.cases) (auto dest: queue_step_calls simp: calls_kept_def)

text \<open>A thread that only changes its call and its own counter.\<close>

lemma loads_worker:
  assumes ty: "typed s" and i: "i < nworkers s" and "workers (th_pool s') = (workers (th_pool s))[i := w]"
    and "callers (th_pool s') = callers (th_pool s)" and "th_pcs s' = (th_pcs s)[i := p]"
  shows "loads s' + load (length (th_pcs s)) (worker_call (workers (th_pool s) ! i), th_pcs s ! i)
     = loads s + load (length (th_pcs s)) (worker_call w, p)"
  using loads_update [OF calls_length [OF ty] _ calls_worker [OF i assms(3,4)] assms(5)] typed_length [OF ty] i
  by (simp add: calls_nth)

lemma loads_caller:
  assumes ty: "typed s" and j: "j < ncallers s" and "callers (th_pool s') = (callers (th_pool s))[j := c]"
    and "workers (th_pool s') = workers (th_pool s)" and "th_pcs s' = (th_pcs s)[nworkers s + j := p]"
  shows "loads s' + load (length (th_pcs s)) (caller_call (callers (th_pool s) ! j), th_pcs s ! (nworkers s + j))
     = loads s + load (length (th_pcs s)) (caller_call c, p)"
  using loads_update [OF calls_length [OF ty] _ calls_caller [OF j assms(3,4)] assms(5)] typed_length [OF ty] j
  by (simp add: calls_nth)

lemma load_simps:
  "load n (None, Idle) = 0" "load n (Some p, Idle) = 4 * n + 6" "p \<noteq> Idle \<Longrightarrow> load n (c, p) = pc_weight n p"
  by (simp_all add: load_def)

lemma load_Idle: "load n (c, Idle) \<le> 4 * n + 6"
  by (simp add: load_def)

lemma enter_loads:
  assumes ty: "typed s"
  shows "i < nworkers s \<Longrightarrow> th_pcs s ! i = Idle \<Longrightarrow> worker_call (workers (th_pool s) ! i) = Some p \<Longrightarrow>
      loads (s\<lparr>th_pcs := (th_pcs s)[i := p]\<rparr>) < loads s"
    and "j < ncallers s \<Longrightarrow> th_pcs s ! (nworkers s + j) = Idle \<Longrightarrow> caller_call (callers (th_pool s) ! j) = Some p \<Longrightarrow>
      loads (s\<lparr>th_pcs := (th_pcs s)[nworkers s + j := p]\<rparr>) < loads s"
proof -
  let ?n = "length (th_pcs s)"
  show "loads (s\<lparr>th_pcs := (th_pcs s)[i := p]\<rparr>) < loads s"
    if "i < nworkers s" "th_pcs s ! i = Idle" "worker_call (workers (th_pool s) ! i) = Some p"
  proof -
    have "0 < ?n" using typed_length [OF ty] that(1) by linarith
    moreover have "p \<noteq> Idle" using that(3) by (cases "workers (th_pool s) ! i") auto
    ultimately have "load ?n (Some p, p) < load ?n (Some p, Idle)"
      using call_weight(1) [OF that(3), of ?n] by (simp add: load_simps)
    with loads_worker [OF ty that(1), of "s\<lparr>th_pcs := (th_pcs s)[i := p]\<rparr>" "workers (th_pool s) ! i" p] that
    show ?thesis by simp
  qed
  show "loads (s\<lparr>th_pcs := (th_pcs s)[nworkers s + j := p]\<rparr>) < loads s"
    if "j < ncallers s" "th_pcs s ! (nworkers s + j) = Idle" "caller_call (callers (th_pool s) ! j) = Some p"
  proof -
    have "0 < ?n" using typed_length [OF ty] that(1) by linarith
    moreover have "p \<noteq> Idle" using that(3) by (cases "callers (th_pool s) ! j") auto
    ultimately have "load ?n (Some p, p) < load ?n (Some p, Idle)"
      using call_weight(2) [OF that(3), of ?n] by (simp add: load_simps)
    with loads_caller [OF ty that(1), of "s\<lparr>th_pcs := (th_pcs s)[nworkers s + j := p]\<rparr>" "callers (th_pool s) ! j" p] that
    show ?thesis by simp
  qed
qed

lemma return_worker_loads:
  assumes ty: "typed s" and i: "i < nworkers s" and pc: "th_pcs s ! i = Done r"
    and "s' = s\<lparr>th_pool := set_worker i (worker_after (workers (th_pool s) ! i) r) (th_pool s),
                th_pcs := (th_pcs s)[i := Idle]\<rparr>"
  shows "loads s' < loads s"
proof -
  let ?w = "worker_after (workers (th_pool s) ! i) r"
  have f: "workers (th_pool s') = (workers (th_pool s))[i := ?w]" "callers (th_pool s') = callers (th_pool s)"
    "th_pcs s' = (th_pcs s)[i := Idle]" by (simp_all add: assms(4) set_worker_def)
  have "worker_call ?w = None" using worker_call_after typed_nth(1) [OF ty i] pc by simp
  with loads_worker [OF ty i f] pc show ?thesis by (simp add: load_simps)
qed

lemma return_caller_loads:
  assumes ty: "typed s" and j: "j < ncallers s" and pc: "th_pcs s ! (nworkers s + j) = Done r"
    and "s' = s\<lparr>th_pool := set_caller j (caller_after (callers (th_pool s) ! j) r)
                  ((th_pool s)\<lparr>chans := chans_after (callers (th_pool s) ! j) r (chans (th_pool s))\<rparr>),
                th_pcs := (th_pcs s)[nworkers s + j := Idle]\<rparr>"
  shows "loads s' < loads s"
proof -
  let ?c = "caller_after (callers (th_pool s) ! j) r"
  have f: "callers (th_pool s') = (callers (th_pool s))[j := ?c]" "workers (th_pool s') = workers (th_pool s)"
    "th_pcs s' = (th_pcs s)[nworkers s + j := Idle]" by (simp_all add: assms(4) set_caller_def)
  have "caller_call ?c = None" using caller_call_after typed_nth(2) [OF ty j] pc by simp
  with loads_caller [OF ty j f] pc show ?thesis by (simp add: load_simps)
qed

lemma local_worker_loads:
  assumes ty: "typed s" and i: "i < nworkers s" and "worker_call (workers (th_pool s) ! i) = None"
    and "worker_step execute i (th_pool s) = Some p"
  shows "loads (s\<lparr>th_pool := p\<rparr>) \<le> loads s + (4 * length (th_pcs s) + 6)"
proof -
  have idle: "th_pcs s ! i = Idle" using typed_no_call(1) [OF typed_nth(1) [OF ty i] assms(3)] .
  obtain w where "workers p = (workers (th_pool s))[i := w]" "callers p = callers (th_pool s)"
    using worker_step_local [OF assms(4,3) i i refl] by blast
  with loads_worker [OF ty i, of "s\<lparr>th_pool := p\<rparr>" w Idle] load_Idle [of "length (th_pcs s)" "worker_call w"]
  show ?thesis by (simp add: idle [symmetric])
qed

lemma local_caller_loads:
  assumes ty: "typed s" and j: "j < ncallers s" and "caller_call (callers (th_pool s) ! j) = None"
    and "caller_step j (th_pool s) = Some p"
  shows "loads (s\<lparr>th_pool := p\<rparr>) \<le> loads s + (4 * length (th_pcs s) + 6)"
proof -
  have idle: "th_pcs s ! (nworkers s + j) = Idle" using typed_no_call(2) [OF typed_nth(2) [OF ty j] assms(3)] .
  obtain c where "callers p = (callers (th_pool s))[j := c]" "workers p = workers (th_pool s)"
    using caller_step_local [OF assms(4,3) j j refl, of "workers (th_pool s)"] by blast
  with loads_caller [OF ty j, of "s\<lparr>th_pool := p\<rparr>" c Idle] load_Idle [of "length (th_pcs s)" "caller_call c"]
  show ?thesis by (simp add: idle [symmetric])
qed

text \<open>A step of a thread: invisible progress inside the queue, or a step of the pool.\<close>

lemma threads_run_effect:
  assumes inv: "threads_inv s" and st: "threads_run execute s s'"
  shows "pool_of s' = pool_of s \<and> loads s' < loads s
     \<or> pool_run execute (pool_of s) (pool_of s') \<and> loads s' \<le> loads s + (4 * length (th_pcs s) + 6)"
proof -
  have ty: "typed s" using inv by (simp add: threads_inv_def)
  have loads: ?thesis if "loads s' < loads s" using threads_run_view [OF inv st] that by auto
  show ?thesis using st
  proof cases
    case (local_worker i p)
    with local_worker_run [OF ty local_worker(2-5)] local_worker_loads [OF ty local_worker(3-5)] show ?thesis by blast
  next
    case (local_caller j p)
    with local_caller_run [OF inv local_caller(2-5)] local_caller_loads [OF ty local_caller(3-5)] show ?thesis by blast
  next
    case (inside_queue t ev m)
    then show ?thesis using queue_step_loads(1) [OF ty] loads by blast
  qed (use enter_loads [OF ty] return_worker_loads [OF ty] return_caller_loads [OF ty] loads in \<open>blast+\<close>)
qed

lemma threads_run_decreases:
  assumes inv: "threads_inv s" and st: "threads_run execute s s'"
  shows "threads_weight s' < threads_weight s"
proof -
  note len = threads_run_length [OF st]
  have "pool_inv (pool_of s)" using inv by (simp add: threads_inv_def full_inv_def)
  from threads_run_effect [OF inv st] pool_run_decreases [OF this] show ?thesis
    using weight_call [OF _ len] weight_pool [OF _ len] by blast
qed

interpretation threads: terminating_system threads_init "threads_step execute" threads_inv
  "threads_run execute" threads_weight at_rest for execute
proof
  show "threads_step execute s t" if "threads_run execute s t" for s t :: "'a threads"
    using that by (rule threads_go)
  show "threads_weight t < threads_weight s" if "threads_inv s" and "threads_run execute s t" for s t :: "'a threads"
    using that by (rule threads_run_decreases)
  show "\<exists>t. threads_run execute s t" if "threads_inv s" and "\<not> at_rest s" for s :: "'a threads"
    using that by (rule threads_progress)
qed

section \<open>Schedules\<close>

text \<open>A choice for \<open>notify_one\<close>, and the move of a thread inside the queue.\<close>

fun wake_first :: "('p \<Rightarrow> 'p option) \<Rightarrow> 'p list \<Rightarrow> 'p list" where
  "wake_first wake [] = []"
| "wake_first wake (p # ps) = (case wake p of Some p' \<Rightarrow> p' # ps | None \<Rightarrow> p # wake_first wake ps)"

lemma wake_first_none: "\<forall>p \<in> set ps. wake p = None \<Longrightarrow> wake_first wake ps = ps"
  by (induction ps) auto

lemma notify_wake_first: "notify_one wake ps (wake_first wake ps)"
proof (induction ps)
  case Nil
  then show ?case by (simp add: notify_one_def)
next
  case (Cons p ps)
  show ?case
  proof (cases "wake p")
    case (Some p')
    then show ?thesis by (auto simp: notify_one_def intro!: exI [of _ 0])
  next
    case None
    from Cons.IH show ?thesis
    proof (cases rule: notify_oneE)
      case (1 j q)
      with None show ?thesis by (auto simp: notify_one_def intro!: exI [of _ "Suc j"])
    qed (use None in \<open>auto simp: notify_one_def\<close>)
  qed
qed

definition queue_act :: "nat \<Rightarrow> 'a monitor \<Rightarrow> 'a monitor option" where
  "queue_act t m =
     (let q = m_queue m; locked = (\<lambda>p. if m_mutex m = None then Some (acquire t p m) else None);
          wakes = (\<lambda>ps p. Some (m\<lparr>m_pcs := ps[t := p]\<rparr>)) in
      if t < length (m_pcs m) then
        case m_pcs m ! t of
          PushLock v \<Rightarrow> locked (PushTest v)
        | PushTest v \<Rightarrow> Some (if can_push q then goto t (PushBody v) m else leave t (PushWait v) q m)
        | PushBody v \<Rightarrow> (case push_locked v q of (b, q') \<Rightarrow> Some (leave t (if b then PushNotify else Done (Pushed False)) q' m))
        | PushNotify \<Rightarrow> wakes (wake_first wake_not_empty (m_pcs m)) (Done (Pushed True))
        | PopLock \<Rightarrow> locked PopTest
        | PopTest \<Rightarrow> Some (if can_pop q then goto t PopBody m else leave t PopWait q m)
        | PopBody \<Rightarrow> (case pop_locked q of (x, q') \<Rightarrow>
            Some (leave t (case x of None \<Rightarrow> Done (Popped None) | Some e \<Rightarrow> PopNotify e) q' m))
        | PopNotify x \<Rightarrow> wakes (wake_first wake_not_full (m_pcs m)) (Done (Popped (Some x)))
        | CloseLock \<Rightarrow> locked CloseBody
        | CloseBody \<Rightarrow> Some (leave t (if q_closed q then Done Closed else CloseNotifyEmpty) (close q) m)
        | CloseNotifyEmpty \<Rightarrow> wakes (notify_all wake_not_empty (m_pcs m)) CloseNotifyFull
        | CloseNotifyFull \<Rightarrow> wakes (notify_all wake_not_full (m_pcs m)) (Done Closed)
        | DrainLock \<Rightarrow> locked DrainBody
        | DrainBody \<Rightarrow> (case close_and_drain q of (ds, q') \<Rightarrow> Some (leave t (DrainNotifyEmpty ds) q' m))
        | DrainNotifyEmpty ds \<Rightarrow> wakes (notify_all wake_not_empty (m_pcs m)) (DrainNotifyFull ds)
        | DrainNotifyFull ds \<Rightarrow> wakes (notify_all wake_not_full (m_pcs m)) (Done (Drained ds))
        | _ \<Rightarrow> None
      else None)"

lemma queue_act_step:
  assumes "queue_act t m = Some m'"
  shows "\<exists>ev. queue_step t m ev m'"
proof -
  have at: "at m t (m_pcs m ! t)" using assms by (auto simp: queue_act_def at_def Let_def split: if_splits)
  note [intro] = push_step.intros pop_step.intros close_step.intros drain_step.intros notify_wake_first
  show ?thesis
    using assms at
    by (cases "m_pcs m ! t")
       (auto simp: queue_act_def queue_step_def Let_def split: if_splits prod.splits option.splits)
qed

definition thread_move :: "('t \<Rightarrow> exec_outcome) \<Rightarrow> nat \<Rightarrow> 't threads \<Rightarrow> 't threads option" where
  "thread_move execute t s =
     (let j = t - nworkers s in
      if crashed (th_pool s) \<noteq> None then None
      else if t < nworkers s then
        case th_pcs s ! t of
          Idle \<Rightarrow>
            (case worker_call (workers (th_pool s) ! t) of
               Some p \<Rightarrow> Some (s\<lparr>th_pcs := (th_pcs s)[t := p]\<rparr>)
             | None \<Rightarrow> map_option (\<lambda>p. s\<lparr>th_pool := p\<rparr>) (worker_step execute t (th_pool s)))
        | Done r \<Rightarrow>
            Some (s\<lparr>th_pool := set_worker t (worker_after (workers (th_pool s) ! t) r) (th_pool s),
                    th_pcs := (th_pcs s)[t := Idle]\<rparr>)
        | _ \<Rightarrow> map_option (\<lambda>m. with_monitor m s) (queue_act t (monitor_of s))
      else if j < ncallers s then
        case th_pcs s ! t of
          Idle \<Rightarrow>
            (case caller_call (callers (th_pool s) ! j) of
               Some p \<Rightarrow> Some (s\<lparr>th_pcs := (th_pcs s)[t := p]\<rparr>)
             | None \<Rightarrow> map_option (\<lambda>p. s\<lparr>th_pool := p\<rparr>) (caller_step j (th_pool s)))
        | Done r \<Rightarrow>
            Some (s\<lparr>th_pool := set_caller j (caller_after (callers (th_pool s) ! j) r)
                      ((th_pool s)\<lparr>chans := chans_after (callers (th_pool s) ! j) r (chans (th_pool s))\<rparr>),
                    th_pcs := (th_pcs s)[t := Idle]\<rparr>)
        | _ \<Rightarrow> map_option (\<lambda>m. with_monitor m s) (queue_act t (monitor_of s))
      else None)"

lemma inside_move:
  "crashed (th_pool s) = None \<Longrightarrow> map_option (\<lambda>m. with_monitor m s) (queue_act t (monitor_of s)) = Some s' \<Longrightarrow>
   threads_run execute s s'"
  using queue_act_step by (fastforce intro: inside_queue)

lemma worker_move:
  assumes "thread_move execute t s = Some s'" and "t < nworkers s"
  shows "threads_run execute s s'"
proof -
  have ok: "crashed (th_pool s) = None" using assms(1) by (auto simp: thread_move_def Let_def split: if_splits)
  show ?thesis
  proof (cases "th_pcs s ! t")
    case Idle
    then show ?thesis
      using assms ok enter_worker [OF ok assms(2)] local_worker [OF ok assms(2)]
      by (auto simp: thread_move_def split: option.splits)
  next
    case (Done r)
    then show ?thesis using assms ok return_worker [OF ok assms(2) Done] by (auto simp: thread_move_def)
  qed (use assms ok in \<open>auto simp: thread_move_def intro!: inside_move\<close>)
qed

lemma caller_move:
  assumes "thread_move execute t s = Some s'" and "\<not> t < nworkers s"
  shows "threads_run execute s s'"
proof -
  obtain j where t: "t = nworkers s + j" using assms(2) le_Suc_ex not_less by blast
  have ok: "crashed (th_pool s) = None" and j: "j < ncallers s"
    using assms t by (auto simp: thread_move_def Let_def split: if_splits)
  show ?thesis
  proof (cases "th_pcs s ! t")
    case Idle
    then show ?thesis
      using assms ok t j enter_caller [OF ok j] local_caller [OF ok j]
      by (auto simp: thread_move_def split: option.splits)
  next
    case (Done r)
    then show ?thesis using assms ok t j return_caller [OF ok j] by (auto simp: thread_move_def)
  qed (use assms ok t j in \<open>auto simp: thread_move_def intro!: inside_move\<close>)
qed

lemmas thread_move_run = worker_move caller_move

text \<open>A schedule: which thread moves, or which new call, clock change happens.\<close>

datatype 't th_action = Go nat | Submit nat task_id 't | Shutdown nat | Shutdown_now nat | Clock time_point

fun th_act :: "('t \<Rightarrow> exec_outcome) \<Rightarrow> 't th_action \<Rightarrow> 't threads \<Rightarrow> 't threads option" where
  "th_act execute (Go t) s = thread_move execute t s"
| "th_act execute (Submit j i task) s =
     (if idle j (th_pool s) then map_option (\<lambda>p. s\<lparr>th_pool := p\<rparr>) (enter_submit j i task (th_pool s)) else None)"
| "th_act execute (Shutdown j) s =
     (if idle j (th_pool s) then Some (s\<lparr>th_pool := set_caller j CClose (th_pool s)\<rparr>) else None)"
| "th_act execute (Shutdown_now j) s =
     (if idle j (th_pool s) then Some (s\<lparr>th_pool := set_caller j CDrain (th_pool s)\<rparr>) else None)"
| "th_act execute (Clock now) s =
     (if clock (th_pool s) \<le> now then Some (s\<lparr>th_pool := (th_pool s)\<lparr>clock := now\<rparr>\<rparr>) else None)"

fun th_acts :: "('t \<Rightarrow> exec_outcome) \<Rightarrow> 't th_action list \<Rightarrow> 't threads \<Rightarrow> 't threads option" where
  "th_acts execute [] s = Some s"
| "th_acts execute (a # as) s = (case th_act execute a s of None \<Rightarrow> None | Some s' \<Rightarrow> th_acts execute as s')"

lemma th_act_step: "th_act execute a s = Some s' \<Longrightarrow> threads_step execute s s'"
  by (cases a) (auto split: if_splits intro: threads_step.intros thread_move_run)

lemma th_acts_steps: "th_acts execute as s = Some t \<Longrightarrow> (threads_step execute)\<^sup>*\<^sup>* s t"
  by (induction as arbitrary: s)
     (auto split: option.splits dest: th_act_step intro: converse_rtranclp_into_rtranclp)

lemma th_acts_reach:
  "th_acts execute as s = Some t \<Longrightarrow> reach threads_init (threads_step execute) s \<Longrightarrow>
   reach threads_init (threads_step execute) t"
  by (drule th_acts_steps) (rule reach_steps)

lemma th_acts_run: "th_acts execute (map Go ts) s = Some t \<Longrightarrow> (threads_run execute ^^ length ts) s t"
proof (induction ts arbitrary: s)
  case (Cons t' ts)
  then obtain u where "thread_move execute t' s = Some u" and "th_acts execute (map Go ts) u = Some t"
    by (auto split: option.splits)
  with Cons.IH [of u] thread_move_run show ?case by (metis relpowp_Suc_I2 length_Cons)
qed simp

text \<open>The example pool: its worker goes to sleep, is woken by a submission and runs the task; a shutdown ends it.\<close>

definition demo_threads :: "bool threads" where
  "demo_threads = \<lparr>th_pool = start_system demo_pool 1 0, th_mutex = None, th_pcs = [Idle, Idle]\<rparr>"

lemma demo_threads_reach: "reach threads_init (threads_step demo_execute) demo_threads"
proof (rule reach_init)
  have "pool_init (start_system demo_pool 1 0)" by (rule demo_pool_init)
  then show "threads_init demo_threads"
    by (simp add: threads_init_def demo_threads_def) (simp add: start_system_def pool.defs demo_pool_def)
qed

lemmas demo_threads_simps =
  thread_move_def queue_act_def monitor_of_def with_monitor_def goto_def acquire_def leave_def
  notify_all_def start_system_def demo_threads_def demo_execute_def run_def core_defs

definition demo_asleep :: "bool threads" where
  "demo_asleep = demo_threads\<lparr>th_pcs := [PopWait, Idle]\<rparr>"

lemma demo_asleep_acts: "th_acts demo_execute (map Go [0, 0, 0]) demo_threads = Some demo_asleep"
  by (simp add: demo_asleep_def demo_threads_simps demo_run_simps Let_def)

lemma demo_asleep_reach: "reach threads_init (threads_step demo_execute) demo_asleep"
  using th_acts_reach [OF demo_asleep_acts demo_threads_reach] .

text \<open>From the sleeping worker to the end: a submission, its execution, a shutdown.\<close>

definition demo_schedule :: "bool th_action list" where
  "demo_schedule = [Submit 0 1 True, Go 1, Go 1, Go 1, Go 1, Go 1, Go 0, Go 1, Go 0, Go 0, Go 0, Go 0, Clock 3,
     Go 0, Clock 5, Go 0, Go 0, Go 0, Shutdown 0, Go 1, Go 1, Go 1, Go 0, Go 1, Go 1, Go 1,
     Go 0, Go 0, Go 0, Go 1, Go 1, Go 1, Go 1]"

definition demo_stopped :: "bool threads" where
  "demo_stopped = \<lparr>th_pool = pool.extend
     \<lparr>p_queue = \<lparr>q_items = [], q_closed = True, q_capacity = 1\<rparr>, p_samples = [[demo_sample]],
      p_rejected = 0, p_mutex = None, p_joined = True, p_joinable = [False]\<rparr>
     \<lparr>chans = [\<lparr>ch_value = Some (succeeded 1 \<lparr>submitted = 0, dequeued = 3, finished = 5\<rparr>),
                ch_retrieved = True, ch_broken = False\<rparr>],
      clock = 5, workers = [WExit], callers = [CIdle], crashed = None\<rparr>,
     th_mutex = None, th_pcs = [Idle, Idle]\<rparr>"

lemma demo_stopped_acts: "th_acts demo_execute demo_schedule demo_asleep = Some demo_stopped"
  by (simp add: demo_stopped_def demo_schedule_def demo_asleep_def demo_sample_def demo_threads_simps
      demo_run_simps Let_def)

lemma demo_stopped_reach: "reach threads_init (threads_step demo_execute) demo_stopped"
  using th_acts_reach [OF demo_stopped_acts demo_asleep_reach] .

section \<open>Properties\<close>

text \<open>
  C5: The pool whose threads run the queue's locks, waits and notifications refines the pool
  whose queue operations are atomic: in every interleaving of lock acquisitions, sleeping, notified and spuriously
  woken threads, the state in which the calls that have taken effect have returned is a reachable
  state of the atomic pool with the same futures, samples and counters, and it moves by its steps.
\<close>

theorem threads_refine_pool:
  assumes "reach threads_init (threads_step execute) s" and "(threads_step execute)\<^sup>*\<^sup>* s t"
  shows "reach pool_init (pool_step execute) (pool_of s) \<and> (pool_step execute)\<^sup>*\<^sup>* (pool_of s) (pool_of t)
     \<and> chans (pool_of s) = chans (th_pool s) \<and> p_queue (pool_of s) = p_queue (th_pool s)
     \<and> p_samples (pool_of s) = p_samples (th_pool s) \<and> p_rejected (pool_of s) = p_rejected (th_pool s)
     \<and> crashed (th_pool s) = None"
proof -
  note inv = thread_view.inv_reach [OF assms(1)]
  then have "crashed (pool_of s) = None" by (simp add: threads_inv_def full_inv_def pool_inv_def book_inv_def own_inv_def)
  with thread_view.view_reach [OF assms(1)] thread_view.view_steps [OF assms(2) inv] show ?thesis by simp
qed

theorem threads_refine_pool_witness:
  "(pool_step demo_execute)\<^sup>*\<^sup>* (pool_of demo_asleep) (pool_of demo_stopped)
     \<and> chans (pool_of demo_asleep) = []"
  using threads_refine_pool [OF demo_asleep_reach th_acts_steps [OF demo_stopped_acts]]
  by (simp add: demo_asleep_def demo_threads_def start_system_def pool.defs)

text \<open>
  C22: Every thread is where its program text says: a worker is inside \<open>pop\<close> only while its loop
  is at the pop, a caller inside \<open>push\<close> of its own envelope, \<open>close\<close> or \<open>close_and_drain\<close> only
  while it is at that call, everybody else is outside the queue; and no two threads are in a critical
  section of the queue at once.
\<close>

theorem threads_well_typed:
  assumes "reach threads_init (threads_step execute) s"
  shows "typed s \<and> (\<forall>t u p q. at (monitor_of s) t p \<longrightarrow> at (monitor_of s) u q \<longrightarrow> holds p \<longrightarrow> holds q \<longrightarrow> t = u)"
  using thread_view.inv_reach [OF assms] mutex_excludes [of "monitor_of s"]
  unfolding threads_inv_def monitor_inv_def by blast

theorem threads_well_typed_witness: "typed demo_asleep"
  using threads_well_typed [OF demo_asleep_reach] by blast

text \<open>
  C6: No deadlock, no lost wake-up and no endless waiting in the pool as a whole, with its queue mutex, both
  condition variables, the shutdown mutex and the joins: without new calls every schedule is bounded
  by \<open>threads_weight\<close>, it can only stop when every caller has returned and every worker has
  exited or sleeps on a queue that is open and empty, and such a state is always reached.
\<close>

theorem threads_never_deadlock:
  assumes "reach threads_init (threads_step execute) s"
  shows "(\<forall>n t. (threads_run execute ^^ n) s t \<longrightarrow> n \<le> threads_weight s)
     \<and> (\<forall>t. (threads_run execute)\<^sup>*\<^sup>* s t \<longrightarrow> (\<nexists>u. threads_run execute t u) \<longrightarrow> at_rest t)
     \<and> (\<exists>t. (threads_run execute)\<^sup>*\<^sup>* s t \<and> at_rest t)"
proof -
  note inv = thread_view.inv_reach [OF assms]
  show ?thesis
    using threads.run_bounded [OF inv] threads.run_stuck_is_final [OF inv] threads.run_reaches_final [OF inv]
    by (meson add_leD1)
qed

theorem threads_never_deadlock_witness:
  "3 \<le> threads_weight demo_threads \<and> (\<exists>t. (threads_run demo_execute)\<^sup>*\<^sup>* demo_asleep t \<and> at_rest t)"
proof -
  have "(threads_run demo_execute ^^ 3) demo_threads demo_asleep"
    using th_acts_run [OF demo_asleep_acts] by (simp add: numeral_3_eq_3)
  with threads_never_deadlock [OF demo_threads_reach] threads_never_deadlock [OF demo_asleep_reach]
  show ?thesis by blast
qed

lemma rest_quiescent:
  assumes "reach threads_init (threads_step execute) s" and "at_rest s"
  shows "pool_of s = th_pool s" and "quiescent (th_pool s)"
proof -
  have ty: "typed s" using thread_view.inv_reach [OF assms(1)] by (simp add: threads_inv_def)
  have W: "workers (th_pool s) ! i = WExit \<and> th_pcs s ! i = Idle
      \<or> workers (th_pool s) ! i = WPop \<and> th_pcs s ! i = PopWait
        \<and> \<not> q_closed (p_queue (th_pool s)) \<and> q_items (p_queue (th_pool s)) = []" if "i < nworkers s" for i
    using typed_nth(1) [OF ty that] assms(2) that
    by (cases "workers (th_pool s) ! i") (auto simp: at_rest_def)
  have C: "callers (th_pool s) ! j = CIdle \<and> th_pcs s ! (nworkers s + j) = Idle" if "j < ncallers s" for j
    using typed_nth(2) [OF ty that] assms(2) nth_mem [OF that] by (auto simp: at_rest_def)
  have "workers (pool_of s) = workers (th_pool s)"
    using ty pool_of_nth(1) [OF ty] W by (auto intro!: nth_equalityI simp: worker_view_def) (force dest!: W)+
  moreover have "callers (pool_of s) = callers (th_pool s)"
    using ty pool_of_nth(2) [OF ty] C by (auto intro!: nth_equalityI simp: caller_view_def)
  ultimately show "pool_of s = th_pool s" using pool_of_eq [of s] by simp
  show "quiescent (th_pool s)"
    unfolding quiescent_def by (intro conjI all_nthI) (use assms(2) W in \<open>auto simp: at_rest_def\<close>)
qed

text \<open>
  After a shutdown, once no thread moves any more, the worker threads have been joined, the
  queue is empty and every future ever handed out holds a terminal result: nobody is left waiting,
  at the level of locks and condition variables.
\<close>

theorem threads_shutdown_complete:
  assumes "reach threads_init (threads_step execute) s" and "at_rest s" and "is_shut_down (th_pool s)"
    and "p < length (chans (th_pool s))"
  shows "workers_joined (th_pool s)
     \<and> (\<exists>r. ch_value (chans (th_pool s) ! p) = Some r \<and> result_ok r \<and> is_terminal (res_state r))"
  using quiescent_fulfilled [OF thread_view.view_reach [OF assms(1)]] rest_quiescent [OF assms(1,2)] assms(3,4)
  by simp

theorem threads_shutdown_complete_witness:
  "workers_joined (th_pool demo_stopped)
     \<and> (\<exists>r. ch_value (chans (th_pool demo_stopped) ! 0) = Some r \<and> is_terminal (res_state r))"
proof -
  have "at_rest demo_stopped" "is_shut_down (th_pool demo_stopped)" "0 < length (chans (th_pool demo_stopped))"
    by (simp_all add: demo_stopped_def at_rest_def pool.defs is_shut_down_def is_closed_def)
  from threads_shutdown_complete [OF demo_stopped_reach this] show ?thesis by blast
qed

end
