(* ===== verification/Pool_Threads_Join.thy ===== *)
theory Pool_Threads_Join
  imports Pool_Threads_Correct
begin

text \<open>
  What \<open>join_workers\<close> waits for, at the level of the threads. In the view of Pool\_Threads a worker
  counts as exited as soon as its last \<open>pop\<close> has taken effect, while the thread itself still has to
  leave the queue; \<open>std::thread::join\<close> waits for the thread. So a pool whose workers have been
  joined has no thread left inside its queue, and the queue can be destroyed.
\<close>

section \<open>A joined thread has ended\<close>

definition gone_inv :: "'t threads \<Rightarrow> bool" where
  "gone_inv s \<longleftrightarrow> (\<forall>k < nworkers s. \<not> p_joinable (th_pool s) ! k \<longrightarrow> workers (th_pool s) ! k = WExit)
     \<and> (\<forall>c \<in> set (callers (th_pool s)). \<forall>k < joined_upto c. k < nworkers s \<longrightarrow> \<not> p_joinable (th_pool s) ! k)
     \<and> (p_joined (th_pool s) \<longrightarrow> (\<forall>k < nworkers s. \<not> p_joinable (th_pool s) ! k))"

lemma updated: "x \<in> set (xs[i := y]) \<Longrightarrow> x \<in> set xs \<or> x = y"
  using set_update_subset_insert by fastforce

lemma gone_same:
  assumes "gone_inv s" and "workers (th_pool s') = workers (th_pool s)" and "callers (th_pool s') = callers (th_pool s)"
    and "p_joinable (th_pool s') = p_joinable (th_pool s)" and "p_joined (th_pool s') = p_joined (th_pool s)"
  shows "gone_inv s'"
  using assms by (simp add: gone_inv_def)

lemma gone_worker:
  assumes "gone_inv s" and "workers (th_pool s) ! i \<noteq> WExit" and "workers (th_pool s') = (workers (th_pool s))[i := w]"
    and "callers (th_pool s') = callers (th_pool s)" and "p_joinable (th_pool s') = p_joinable (th_pool s)"
    and "p_joined (th_pool s') = p_joined (th_pool s)"
  shows "gone_inv s'"
  using assms unfolding gone_inv_def by (metis length_list_update nth_list_update_neq)

lemma gone_caller:
  assumes "gone_inv s" and "j < ncallers s" and "callers (th_pool s') = (callers (th_pool s))[j := c]" and "joined_upto c = 0"
    and "workers (th_pool s') = workers (th_pool s)" and "p_joinable (th_pool s') = p_joinable (th_pool s)"
    and "p_joined (th_pool s') = p_joined (th_pool s)"
  shows "gone_inv s'"
proof -
  have "\<forall>c \<in> set (callers (th_pool s')). \<forall>k < joined_upto c. k < nworkers s \<longrightarrow> \<not> p_joinable (th_pool s) ! k"
    using assms(1,4) unfolding assms(3) gone_inv_def by (fastforce dest!: updated)
  with assms(1,5-7) show ?thesis by (simp add: gone_inv_def)
qed

lemma caller_after_upto: "caller_typed c (Done r) \<Longrightarrow> joined_upto (caller_after c r) = 0"
  by (cases "(c, r)" rule: caller_after.cases; cases c) auto

lemma worker_step_keeps:
  assumes "worker_step execute i s = Some p"
  shows "workers s ! i \<noteq> WExit \<and> (\<exists>w. workers p = (workers s)[i := w]) \<and> callers p = callers s
     \<and> p_joinable p = p_joinable s \<and> p_joined p = p_joined s"
proof (cases "workers s ! i")
  case WPop
  with assms show ?thesis by (auto simp: worker_step_def set_worker_def split: option.splits) blast+
next
  case (WRun e d)
  show ?thesis
  proof (cases "run execute d (clock s) e (chans s)")
    case (Inl f)
    with assms WRun list_update_id [of "workers s" i] show ?thesis by (auto simp: worker_step_def crash_def) metis
  qed (use assms WRun in \<open>auto simp: worker_step_def set_worker_def split: prod.splits\<close>)
qed (use assms in \<open>auto simp: worker_step_def set_worker_def\<close>)

text \<open>Only \<open>join_workers\<close> marks a thread as joined, and only when that thread has ended.\<close>

lemma gone_join:
  assumes inv: "gone_inv s" and j: "j < ncallers s" and len: "length (p_joinable (th_pool s)) = nworkers s"
    and st: "join_step j (th_pool s) = Some p"
  shows "gone_inv (s\<lparr>th_pool := p\<rparr>)"
proof -
  have upto: "\<not> p_joinable (th_pool s) ! k"
    if "callers (th_pool s) ! j = c" "k < joined_upto c" "k < nworkers s" for c k
    using inv nth_mem [OF j] that unfolding gone_inv_def by blast
  show ?thesis
  proof (cases "callers (th_pool s) ! j")
    case (CJoining ds i)
    note before = upto [OF CJoining, simplified]
    show ?thesis
    proof (cases "i < length (p_joinable (th_pool s))")
      case True
      have "gone_inv (s\<lparr>th_pool := set_caller j (CJoining ds (Suc i))
          ((th_pool s)\<lparr>p_joinable := (p_joinable (th_pool s))[i := False]\<rparr>)\<rparr>)"
        if "workers (th_pool s) ! i = WExit"
        using inv that before True
        by (auto simp: gone_inv_def set_caller_def nth_list_update less_Suc_eq len dest!: updated)
      moreover have "workers (th_pool s) ! i = WExit" if "\<not> p_joinable (th_pool s) ! i"
        using inv that True by (simp add: gone_inv_def len)
      moreover have "(p_joinable (th_pool s))[i := False] = p_joinable (th_pool s)" if "\<not> p_joinable (th_pool s) ! i"
        using that by (metis (full_types) list_update_id)
      ultimately show ?thesis using st CJoining True by (auto simp: join_step_def split: if_splits)
    next
      case False
      then have "\<forall>k < nworkers s. \<not> p_joinable (th_pool s) ! k" using before by (simp add: len)
      with inv st CJoining False show ?thesis
        by (auto simp: join_step_def gone_inv_def set_caller_def dest!: updated)
    qed
  qed (use inv st in \<open>auto simp: join_step_def gone_inv_def set_caller_def split: if_splits dest!: updated\<close>)
qed

lemma gone_local_caller:
  assumes inv: "gone_inv s" and j: "j < ncallers s" and len: "length (p_joinable (th_pool s)) = nworkers s"
    and call: "caller_call (callers (th_pool s) ! j) = None" and st: "caller_step j (th_pool s) = Some p"
  shows "gone_inv (s\<lparr>th_pool := p\<rparr>)"
proof -
  have new: "gone_inv (s\<lparr>th_pool := set_caller j c q\<rparr>)"
    if "joined_upto c = 0" "callers q = callers (th_pool s)" "workers q = workers (th_pool s)"
      "p_joinable q = p_joinable (th_pool s)" "p_joined q = p_joined (th_pool s)" for c q
    using that by (intro gone_caller [OF inv j, of _ c]) (simp_all add: set_caller_def)
  have crash: "gone_inv (s\<lparr>th_pool := crash f (th_pool s)\<rparr>)" for f
    by (rule gone_same [OF inv]) (simp_all add: crash_def)
  show ?thesis
  proof (cases "callers (th_pool s) ! j")
    case (CReject e)
    with st new crash show ?thesis
      by (cases "reject (clock (th_pool s)) e (chans (th_pool s))") (auto simp: caller_step_def submit_step_def)
  next
    case (CDiscard f rs es)
    with st new crash show ?thesis
      by (cases es; cases "reject f (hd es) (chans (th_pool s))") (auto simp: caller_step_def shutdown_now_step_def)
  qed (use st call new gone_join [OF inv j len] in
        \<open>auto simp: caller_step_def submit_step_def shutdown_now_step_def\<close>)
qed

lemma gone_run:
  assumes inv: "threads_inv s" and gone: "gone_inv s" and st: "threads_run execute s s'"
  shows "gone_inv s'"
proof -
  have ty: "typed s" and "shut_inv (pool_of s)" using inv by (simp_all add: threads_inv_def full_inv_def pool_inv_def)
  then have len: "length (p_joinable (th_pool s)) = nworkers s" by (simp add: shut_inv_def)
  show ?thesis using st
  proof cases
    case (return_worker i r)
    then have "workers (th_pool s) ! i \<noteq> WExit" using typed_nth(1) [OF ty return_worker(3)] by auto
    with return_worker(1) show ?thesis by (intro gone_worker [OF gone]) (simp_all add: set_worker_def)
  next
    case (return_caller j r)
    then have "joined_upto (caller_after (callers (th_pool s) ! j) r) = 0"
      using typed_nth(2) [OF ty return_caller(3)] by (simp add: caller_after_upto)
    with return_caller(1) show ?thesis by (intro gone_caller [OF gone return_caller(3)]) (simp_all add: set_caller_def)
  next
    case (local_worker i p)
    with worker_step_keeps [OF local_worker(5)] gone_worker [OF gone, of i "s\<lparr>th_pool := p\<rparr>"] show ?thesis by auto
  next
    case (local_caller j p)
    with gone_local_caller [OF gone local_caller(3) len local_caller(4)] show ?thesis by blast
  qed (intro gone_same [OF gone]; simp add: with_monitor_def)+
qed

lemma gone_step:
  assumes inv: "threads_inv s" and gone: "gone_inv s" and st: "threads_step execute s s'"
  shows "gone_inv s'"
  using st
proof cases
  case threads_go
  with gone_run [OF inv gone] show ?thesis .
next
  case (threads_submit j i task p)
  then show ?thesis by (intro gone_caller [OF gone, of j]) (auto simp: idle_def enter_submit_eq set_caller_def)
qed (auto simp: idle_def set_caller_def intro: gone_same [OF gone] gone_caller [OF gone])

interpretation gone: invariant_system threads_init "threads_step execute" "\<lambda>s. threads_inv s \<and> gone_inv s" for execute
proof
  show "threads_inv s \<and> gone_inv s" if i: "threads_init s" for s :: "'a threads"
    using threads_inv_init(2) [OF i] pool_init_fresh [of "th_pool s"] i
    by (auto simp: threads_init_def fresh_system_def gone_inv_def)
  show "threads_inv t \<and> gone_inv t" if "threads_inv s \<and> gone_inv s" and "threads_step execute s t" for s t :: "'a threads"
    using that threads_inv_step gone_step by blast
qed

lemma gone_left:
  assumes inv: "threads_inv s" and gone: "gone_inv s" and "workers_joined (th_pool s)" and i: "i < nworkers s"
  shows "workers (th_pool s) ! i = WExit" and "th_pcs s ! i = Idle"
proof -
  show w: "workers (th_pool s) ! i = WExit" using assms by (simp add: gone_inv_def workers_joined_def)
  have "typed s" using inv by (simp add: threads_inv_def)
  from typed_nth(1) [OF this i] show "th_pcs s ! i = Idle" by (simp add: w)
qed

lemma gone_unlocked:
  assumes inv: "threads_inv s" and gone: "gone_inv s" and "workers_joined (th_pool s)"
    and "\<forall>c \<in> set (callers (th_pool s)). c = CIdle"
  shows "th_mutex s = None" and "\<forall>p \<in> set (th_pcs s). p = Idle"
proof -
  have ty: "typed s" and m: "mutex_inv (monitor_of s)" using inv by (simp_all add: threads_inv_def monitor_inv_def)
  have Idle: "th_pcs s ! k = Idle" if k: "k < length (th_pcs s)" for k
  proof (cases "k < nworkers s")
    case True
    with gone_left(2) [OF assms(1-3)] show ?thesis .
  next
    case False
    then have j: "k - nworkers s < ncallers s" using k typed_length [OF ty] by linarith
    with assms(4) have "callers (th_pool s) ! (k - nworkers s) = CIdle" by simp
    with typed_nth(2) [OF ty j] False show ?thesis by simp
  qed
  then show "\<forall>p \<in> set (th_pcs s). p = Idle" by (auto simp: in_set_conv_nth)
  show "th_mutex s = None"
  proof (cases "th_mutex s")
    case (Some t)
    with m Idle [of t] show ?thesis by (force simp: mutex_inv_def)
  qed
qed

section \<open>Properties\<close>

text \<open>
  C11: A joined pool can be destroyed. Once the workers have been joined, every worker thread has
  ended and none is inside the queue, even where its last \<open>pop\<close> had taken effect before; when no
  call on the pool is under way either, nobody is inside the queue and its mutex is free.
\<close>

theorem joined_threads_gone:
  assumes "reach threads_init (threads_step execute) s" and "workers_joined (th_pool s)"
  shows "(\<forall>i < nworkers s. workers (th_pool s) ! i = WExit \<and> th_pcs s ! i = Idle)
     \<and> ((\<forall>c \<in> set (callers (th_pool s)). c = CIdle) \<longrightarrow> th_mutex s = None \<and> (\<forall>p \<in> set (th_pcs s). p = Idle))"
  using gone.inv_reach [OF assms(1)] gone_left [OF _ _ assms(2)] gone_unlocked [OF _ _ assms(2)] by blast

theorem joined_threads_gone_witness:
  "workers (th_pool demo_stopped) ! 0 = WExit \<and> th_pcs demo_stopped ! 0 = Idle \<and> th_mutex demo_stopped = None"
proof -
  have "workers_joined (th_pool demo_stopped)" "0 < nworkers demo_stopped"
      "\<forall>c \<in> set (callers (th_pool demo_stopped)). c = CIdle"
    by (simp_all add: demo_stopped_def workers_joined_def pool.defs)
  with joined_threads_gone [OF demo_stopped_reach] show ?thesis by blast
qed

end
