(* ===== verification/Client_Threads.thy ===== *)
theory Client_Threads
  imports Batch Pool_Threads_Join
begin

text \<open>
  A program that is the only caller of an engine, with every lock of the code: the steps of its own
  thread, and the pool of Pool\_Threads, where submitting, shutting down and working go through the
  mutex, the condition variables and the notifications of the queue. The programs differ in what
  their thread does between two calls on the engine; what they have in common is the locale
  \<open>threaded_client\<close>. It says that the thread of the program looks at nothing of the pool but the clock,
  the results and whether its own call has returned, and it concludes that the program with its
  locks refines the program with atomic queue operations, terminates under every schedule and leaves no
  thread behind.
\<close>

section \<open>Calls on the pool\<close>

text \<open>A pool and a view of it, which differ in the places of the threads only.\<close>

definition agrees :: "'t system \<Rightarrow> 't system \<Rightarrow> bool" where
  "agrees p q \<longleftrightarrow> q = p\<lparr>workers := workers q, callers := callers q\<rparr> \<and> length (callers q) = length (callers p)
     \<and> (\<forall>j < length (callers p). callers p ! j = CIdle \<longrightarrow> callers q ! j = CIdle)"

lemma agrees_frame:
  assumes "agrees p q"
  shows "p_queue q = p_queue p" "p_samples q = p_samples p" "p_rejected q = p_rejected p" "p_joined q = p_joined p"
    "chans q = chans p" "clock q = clock p" "crashed q = crashed p"
proof -
  have q: "q = p\<lparr>workers := workers q, callers := callers q\<rparr>" using assms by (simp add: agrees_def)
  show "p_queue q = p_queue p" "p_samples q = p_samples p" "p_rejected q = p_rejected p" "p_joined q = p_joined p"
    "chans q = chans p" "clock q = clock p" "crashed q = crashed p" by (subst q, simp)+
qed

lemma agrees_idle: "agrees p q \<Longrightarrow> idle j p \<Longrightarrow> idle j q"
  using agrees_frame(7) [of p q] by (simp add: agrees_def idle_def)

lemma agrees_view:
  assumes ty: "typed t"
  shows "agrees (th_pool t) (pool_of t)"
proof -
  have "callers (pool_of t) ! j = CIdle" if "j < ncallers t" "callers (th_pool t) ! j = CIdle" for j
    using typed_nth(2) [OF ty that(1)] pool_of_nth(2) [OF ty that(1)] that(2) by (simp add: caller_view_def)
  then show ?thesis using pool_of_eq [of t] pool_of_length(2) [OF ty] by (simp add: agrees_def)
qed

lemma summary_agrees:
  "agrees (eng_pool g) q \<Longrightarrow> summary (g\<lparr>eng_pool := q\<rparr>) = summary g"
  using agrees_frame [of "eng_pool g" q]
  by (simp add: summary_def collect_samples_def rejected_count_def workers_joined_def)

lemma eng_idle_agrees: "agrees (eng_pool g) q \<Longrightarrow> eng_idle 0 g \<Longrightarrow> eng_idle 0 (g\<lparr>eng_pool := q\<rparr>)"
  by (simp add: eng_idle_def agrees_idle)

text \<open>What the thread of the program can call: \<open>submit\<close> and the two shutdowns.\<close>

datatype 't client_call = Submit_call task_id 't | Close_call | Drain_call

fun begin_call :: "'t client_call \<Rightarrow> 't system \<Rightarrow> 't system" where
  "begin_call (Submit_call i task) s = the (enter_submit 0 i task s)"
| "begin_call Close_call s = set_caller 0 CClose s"
| "begin_call Drain_call s = set_caller 0 CDrain s"

lemmas enter_submit_is = enter_submit_eq [THEN iffD2, OF refl]

lemma begin_call_eq:
  obtains c cs where "begin_call k p = set_caller 0 c (p\<lparr>chans := cs\<rparr>)"
    "\<And>q. agrees p q \<Longrightarrow> begin_call k q = set_caller 0 c (q\<lparr>chans := cs\<rparr>)"
proof (cases k)
  case (Submit_call i task)
  show thesis by (rule that) (simp_all add: Submit_call enter_submit_is agrees_frame)
next
  case Close_call
  have "q\<lparr>chans := chans p\<rparr> = q" if "agrees p q" for q
    using agrees_frame(5) [OF that] by (metis system.surjective system.update_convs(1))
  with that [of CClose "chans p"] show thesis by (simp add: Close_call)
next
  case Drain_call
  have "q\<lparr>chans := chans p\<rparr> = q" if "agrees p q" for q
    using agrees_frame(5) [OF that] by (metis system.surjective system.update_convs(1))
  with that [of CDrain "chans p"] show thesis by (simp add: Drain_call)
qed

lemma begin_call_step:
  assumes "idle 0 (th_pool t)"
  shows "threads_step execute t (t\<lparr>th_pool := begin_call k (th_pool t)\<rparr>)"
  using assms threads_submit [OF assms] threads_shutdown [OF assms] threads_shutdown_now [OF assms]
  by (cases k) (auto simp: enter_submit_is)

lemma begin_call_view:
  assumes ty: "typed t" and idle: "idle 0 (th_pool t)"
  shows "pool_of (t\<lparr>th_pool := begin_call k (th_pool t)\<rparr>) = begin_call k (pool_of t)"
    and "loads (t\<lparr>th_pool := begin_call k (th_pool t)\<rparr>) \<le> loads t + (4 * length (th_pcs t) + 6)"
proof -
  obtain c cs where c: "begin_call k (th_pool t) = set_caller 0 c ((th_pool t)\<lparr>chans := cs\<rparr>)"
      "begin_call k (pool_of t) = set_caller 0 c ((pool_of t)\<lparr>chans := cs\<rparr>)"
    using begin_call_eq [of k "th_pool t"] agrees_view [OF ty] by metis
  show "pool_of (t\<lparr>th_pool := begin_call k (th_pool t)\<rparr>) = begin_call k (pool_of t)"
    using enter_view [OF ty idle c(1)] by (simp add: c(2))
  let ?t = "t\<lparr>th_pool := begin_call k (th_pool t)\<rparr>"
  note v = idle_view(1,2) [OF ty idle]
  have f: "callers (th_pool ?t) = (callers (th_pool t))[0 := c]" "workers (th_pool ?t) = workers (th_pool t)"
    "th_pcs ?t = (th_pcs t)[nworkers t + 0 := Idle]"
    using v(2) by (simp_all add: c(1) set_caller_def) (metis list_update_id)
  have "loads ?t \<le> loads t + load (length (th_pcs t)) (caller_call c, Idle)"
    using loads_caller [OF ty v(1) f] by simp
  with load_Idle [of "length (th_pcs t)" "caller_call c"] show "loads ?t \<le> loads t + (4 * length (th_pcs t) + 6)" by simp
qed

section \<open>Programs\<close>

text \<open>
  The state of the program's thread is any type; \<open>en\<close> reads the engine in it and \<open>we\<close> replaces
  it. \<open>main\<close> is a step of the thread, \<open>env\<close> what the environment does to it, such as a signal.
\<close>

record ('c, 't) program =
  pg_client :: 'c
  pg_mutex :: "nat option"
  pg_pcs :: "'t envelope pc list"

definition set_pool :: "('c \<Rightarrow> 't engine) \<Rightarrow> ('t engine \<Rightarrow> 'c \<Rightarrow> 'c) \<Rightarrow> 't system \<Rightarrow> 'c \<Rightarrow> 'c" where
  "set_pool en we p c = we ((en c)\<lparr>eng_pool := p\<rparr>) c"

definition threads_of :: "('c \<Rightarrow> 't engine) \<Rightarrow> ('c, 't) program \<Rightarrow> 't threads" where
  "threads_of en s = \<lparr>th_pool = eng_pool (en (pg_client s)), th_mutex = pg_mutex s, th_pcs = pg_pcs s\<rparr>"

definition with_threads ::
    "('c \<Rightarrow> 't engine) \<Rightarrow> ('t engine \<Rightarrow> 'c \<Rightarrow> 'c) \<Rightarrow> 't threads \<Rightarrow> ('c, 't) program \<Rightarrow> ('c, 't) program" where
  "with_threads en we t s =
     \<lparr>pg_client = set_pool en we (th_pool t) (pg_client s), pg_mutex = th_mutex t, pg_pcs = th_pcs t\<rparr>"

definition client_init :: "('c \<Rightarrow> 't engine) \<Rightarrow> ('c \<Rightarrow> bool) \<Rightarrow> ('c, 't) program \<Rightarrow> bool" where
  "client_init en init s \<longleftrightarrow> init (pg_client s) \<and> pg_mutex s = None
     \<and> pg_pcs s = replicate (nworkers (threads_of en s) + ncallers (threads_of en s)) Idle"

inductive client_run ::
    "('t \<Rightarrow> exec_outcome) \<Rightarrow> ('c \<Rightarrow> 't engine) \<Rightarrow> ('t engine \<Rightarrow> 'c \<Rightarrow> 'c) \<Rightarrow> ('c \<Rightarrow> 'c option) \<Rightarrow>
     ('c, 't) program \<Rightarrow> ('c, 't) program \<Rightarrow> bool"
  for execute en we main where
  client_main: "main (pg_client s) = Some c \<Longrightarrow> client_run execute en we main s (s\<lparr>pg_client := c\<rparr>)"
| client_threads: "threads_run execute (threads_of en s) t \<Longrightarrow>
     client_run execute en we main s (with_threads en we t s)"

inductive client_step ::
    "('t \<Rightarrow> exec_outcome) \<Rightarrow> ('c \<Rightarrow> 't engine) \<Rightarrow> ('t engine \<Rightarrow> 'c \<Rightarrow> 'c) \<Rightarrow> ('c \<Rightarrow> 'c option) \<Rightarrow> ('c \<Rightarrow> 'c \<Rightarrow> bool) \<Rightarrow>
     ('c, 't) program \<Rightarrow> ('c, 't) program \<Rightarrow> bool"
  for execute en we main env where
  client_go: "client_run execute en we main s t \<Longrightarrow> client_step execute en we main env s t"
| client_env: "env (pg_client s) c \<Longrightarrow> client_step execute en we main env s (s\<lparr>pg_client := c\<rparr>)"
| client_tick: "clock (th_pool (threads_of en s)) \<le> now \<Longrightarrow>
     client_step execute en we main env s
       (s\<lparr>pg_client := set_pool en we ((th_pool (threads_of en s))\<lparr>clock := now\<rparr>) (pg_client s)\<rparr>)"
| client_spurious: "at (monitor_of (threads_of en s)) i p \<Longrightarrow>
     wake_not_empty p = Some p' \<or> wake_not_full p = Some p' \<Longrightarrow>
     client_step execute en we main env s (s\<lparr>pg_pcs := (pg_pcs s)[i := p']\<rparr>)"

text \<open>A schedule names the thread of the pool that moves; \<open>None\<close> is the program's own code.\<close>

fun client_acts ::
    "('t \<Rightarrow> exec_outcome) \<Rightarrow> ('c \<Rightarrow> 't engine) \<Rightarrow> ('t engine \<Rightarrow> 'c \<Rightarrow> 'c) \<Rightarrow> ('c \<Rightarrow> 'c option) \<Rightarrow> nat option list \<Rightarrow>
     ('c, 't) program \<Rightarrow> ('c, 't) program option" where
  "client_acts execute en we main [] s = Some s"
| "client_acts execute en we main (None # xs) s =
     (case main (pg_client s) of None \<Rightarrow> None | Some c \<Rightarrow> client_acts execute en we main xs (s\<lparr>pg_client := c\<rparr>))"
| "client_acts execute en we main (Some i # xs) s =
     (case thread_move execute i (threads_of en s) of None \<Rightarrow> None
      | Some t \<Rightarrow> client_acts execute en we main xs (with_threads en we t s))"

lemma client_acts_reach:
  "client_acts execute en we main xs s = Some t \<Longrightarrow> reach init (client_step execute en we main env) s \<Longrightarrow>
   reach init (client_step execute en we main env) t"
proof (induction execute en we main xs s rule: client_acts.induct)
  case (2 execute en we main xs s)
  then show ?case by (auto split: option.splits intro: reach_step client_go client_main)
next
  case (3 execute en we main i xs s)
  then obtain u where u: "thread_move execute i (threads_of en s) = Some u"
    and t: "client_acts execute en we main xs (with_threads en we u s) = Some t" by (auto split: option.splits)
  have "threads_run execute (threads_of en s) u" using thread_move_run [OF u] by blast
  from 3(1) [OF u t] reach_step [OF 3(3) client_go [OF client_threads [OF this]]] show ?case by blast
qed simp

text \<open>The program in which every queue operation that has taken effect has returned.\<close>

definition view_of :: "('c \<Rightarrow> 't engine) \<Rightarrow> ('t engine \<Rightarrow> 'c \<Rightarrow> 'c) \<Rightarrow> ('c, 't) program \<Rightarrow> 'c" where
  "view_of en we s = set_pool en we (pool_of (threads_of en s)) (pg_client s)"

text \<open>With nobody inside the queue there is nothing to be seen ahead of time.\<close>

lemma pool_of_idle:
  assumes "typed s" and "\<forall>p \<in> set (th_pcs s). p = Idle"
  shows "pool_of s = th_pool s"
proof -
  have "map linearised (th_pcs s) = map (\<lambda>x. None) (th_pcs s)" using assms(2) by auto
  then have pcs: "map linearised (th_pcs s) = replicate (nworkers s + ncallers s) None"
    using typed_length [OF assms(1)] by (simp add: map_replicate_const)
  have same: "map2 (\<lambda>x r. case r of None \<Rightarrow> x | Some r \<Rightarrow> f x r) xs (replicate (length xs) None) = xs" for f and xs :: "'b list"
    by (induction xs) auto
  show ?thesis
    unfolding pool_of_def Let_def pcs worker_view_def caller_view_def by (simp add: same)
qed

lemma threads_of_simps [simp]:
  "th_pool (threads_of en s) = eng_pool (en (pg_client s))" "th_mutex (threads_of en s) = pg_mutex s"
  "th_pcs (threads_of en s) = pg_pcs s" "pg_client (with_threads en we t s) = set_pool en we (th_pool t) (pg_client s)"
  "pg_mutex (with_threads en we t s) = th_mutex t" "pg_pcs (with_threads en we t s) = th_pcs t"
  by (simp_all add: threads_of_def with_threads_def)

lemma threads_of_client: "threads_of en (s\<lparr>pg_client := c\<rparr>) = (threads_of en s)\<lparr>th_pool := eng_pool (en c)\<rparr>"
  by (simp add: threads_of_def)

text \<open>
  What a step of the program's own thread does: nothing in the pool, or the beginning of a call. In
  both cases it depends on the pool only as far as the views of the pool agree. \<open>out\<close> says that the
  thread is not inside a call.
\<close>

definition main_local ::
    "('c \<Rightarrow> 't engine) \<Rightarrow> ('t engine \<Rightarrow> 'c \<Rightarrow> 'c) \<Rightarrow> ('c \<Rightarrow> 'c option) \<Rightarrow> ('c \<Rightarrow> bool) \<Rightarrow> 'c \<Rightarrow> 'c \<Rightarrow> bool" where
  "main_local en we main out c c' \<longleftrightarrow> eng_pool (en c') = eng_pool (en c)
     \<and> (out c' \<longrightarrow> callers (eng_pool (en c)) ! 0 = CIdle)
     \<and> (\<forall>q. agrees (eng_pool (en c)) q \<longrightarrow> main (set_pool en we q c) = Some (set_pool en we q c'))"

definition main_calls ::
    "('c \<Rightarrow> 't engine) \<Rightarrow> ('t engine \<Rightarrow> 'c \<Rightarrow> 'c) \<Rightarrow> ('c \<Rightarrow> 'c option) \<Rightarrow> ('c \<Rightarrow> bool) \<Rightarrow> 'c \<Rightarrow> 'c \<Rightarrow> bool" where
  "main_calls en we main out c c' \<longleftrightarrow> idle 0 (eng_pool (en c)) \<and> \<not> out c'
     \<and> (\<exists>k. eng_pool (en c') = begin_call k (eng_pool (en c))
          \<and> (\<forall>q. agrees (eng_pool (en c)) q \<longrightarrow>
               main (set_pool en we q c) = Some (set_pool en we (begin_call k q) c')))"

definition client_inv ::
    "('c \<Rightarrow> 't engine) \<Rightarrow> ('t engine \<Rightarrow> 'c \<Rightarrow> 'c) \<Rightarrow> ('c \<Rightarrow> bool) \<Rightarrow> ('c \<Rightarrow> bool) \<Rightarrow> ('c, 't) program \<Rightarrow> bool" where
  "client_inv en we cinv out s \<longleftrightarrow> threads_inv (threads_of en s) \<and> gone_inv (threads_of en s)
     \<and> cinv (view_of en we s) \<and> (out (pg_client s) \<longrightarrow> callers (eng_pool (en (pg_client s))) ! 0 = CIdle)"

text \<open>A step of the view outweighs whatever the threads still have to do inside the queue.\<close>

definition client_weight ::
    "('c \<Rightarrow> 't engine) \<Rightarrow> ('t engine \<Rightarrow> 'c \<Rightarrow> 'c) \<Rightarrow> ('c \<Rightarrow> nat) \<Rightarrow> ('c, 't) program \<Rightarrow> nat" where
  "client_weight en we weight s =
     weight (view_of en we s) * (4 * length (pg_pcs s) + 7) + loads (threads_of en s)"

text \<open>A thread of the pool does not move a caller that is outside the pool.\<close>

lemma threads_run_idle:
  assumes ty: "typed t" and j: "j < ncallers t" "callers (th_pool t) ! j = CIdle" and st: "threads_run execute t t'"
  shows "callers (th_pool t') ! j = CIdle"
  using st
proof cases
  case (return_caller k r)
  then have "k \<noteq> j" using typed_nth(2) [OF ty j(1)] j(2) by auto
  with return_caller j show ?thesis by (simp add: set_caller_def)
next
  case (local_worker i p)
  with worker_step_keeps [OF local_worker(5)] j show ?thesis by simp
next
  case (local_caller k p)
  have "\<exists>c. callers p = (callers (th_pool t))[k := c]"
    using caller_step_local [OF local_caller(5,4,3) local_caller(3) refl, of "workers (th_pool t)"] by blast
  moreover have "k \<noteq> j" using local_caller(5) j by (auto simp: caller_step_def)
  ultimately show ?thesis using local_caller j by (auto simp: nth_list_update)
qed (use j in \<open>auto simp: with_monitor_def set_worker_def\<close>)

lemma tick_view: "pool_of (t\<lparr>th_pool := (th_pool t)\<lparr>clock := now\<rparr>\<rparr>) = (pool_of t)\<lparr>clock := now\<rparr>"
  by (simp add: pool_of_def Let_def)

section \<open>The contract and what it gives\<close>

locale threaded_client = terminating_system init step inv run weight final
  for init :: "'c \<Rightarrow> bool" and step :: "'c \<Rightarrow> 'c \<Rightarrow> bool" and inv :: "'c \<Rightarrow> bool" and run :: "'c \<Rightarrow> 'c \<Rightarrow> bool"
    and weight :: "'c \<Rightarrow> nat" and final :: "'c \<Rightarrow> bool" +
  fixes execute :: "'t \<Rightarrow> exec_outcome" and en :: "'c \<Rightarrow> 't engine" and we :: "'t engine \<Rightarrow> 'c \<Rightarrow> 'c"
    and main :: "'c \<Rightarrow> 'c option" and env :: "'c \<Rightarrow> 'c \<Rightarrow> bool" and out :: "'c \<Rightarrow> bool"
  assumes en_we: "en (we g c) = g" and we_we: "we g (we h c) = we g c" and we_en: "we (en c) c = c"
    and init_engine: "init c \<Longrightarrow> engine_init (en c)"
    and inv_solo: "inv c \<Longrightarrow> solo (en c)"
    and run_main: "main c = Some c' \<Longrightarrow> run c c'"
    and run_pool: "pool_run execute (eng_pool (en c)) p \<Longrightarrow> run c (set_pool en we p c)"
    and step_env: "env c c' \<Longrightarrow> step (set_pool en we q c) (set_pool en we q c')"
    and step_tick: "clock (eng_pool (en c)) \<le> now \<Longrightarrow> step c (set_pool en we ((eng_pool (en c))\<lparr>clock := now\<rparr>) c)"
    and env_kept: "env c c' \<Longrightarrow> en c' = en c \<and> (out c' \<longrightarrow> out c)"
    and set_pool_kept: "out (set_pool en we q c) = out c" "final (set_pool en we q c) = final c"
    and main_law: "length (callers (eng_pool (en c))) = 1 \<Longrightarrow> length (eng_tickets (en c)) = 1 \<Longrightarrow>
      crashed (eng_pool (en c)) = None \<Longrightarrow> (out c \<Longrightarrow> callers (eng_pool (en c)) ! 0 = CIdle) \<Longrightarrow>
      main c = Some c' \<Longrightarrow> main_local en we main out c c' \<or> main_calls en we main out c c'"
    and main_free: "inv (set_pool en we q c) \<Longrightarrow> agrees (eng_pool (en c)) q \<Longrightarrow> idle 0 (eng_pool (en c)) \<Longrightarrow>
      \<not> final c \<Longrightarrow> main c \<noteq> None"
    and final_joined: "inv c \<Longrightarrow> final c \<Longrightarrow> out c \<and> p_joined (eng_pool (en c))"
begin

lemma set_pool_simps [simp]:
  "eng_pool (en (set_pool en we p c)) = p" "eng_tickets (en (set_pool en we p c)) = eng_tickets (en c)"
  "set_pool en we p (set_pool en we q c) = set_pool en we p c" "set_pool en we (eng_pool (en c)) c = c"
  by (simp_all add: set_pool_def en_we we_we we_en)

lemma threads_of_with [simp]: "threads_of en (with_threads en we t s) = t"
  by (simp add: threads_of_def)

lemma client_facts:
  assumes "client_inv en we inv out s"
  shows "typed (threads_of en s)" and "length (callers (eng_pool (en (pg_client s)))) = 1"
    and "crashed (eng_pool (en (pg_client s))) = None" and "length (eng_tickets (en (pg_client s))) = 1"
    and "agrees (eng_pool (en (pg_client s))) (pool_of (threads_of en s))"
proof -
  show ty: "typed (threads_of en s)" using assms by (simp add: client_inv_def threads_inv_def)
  have "solo (en (view_of en we s))" using assms inv_solo by (simp add: client_inv_def)
  then show "length (callers (eng_pool (en (pg_client s)))) = 1" "crashed (eng_pool (en (pg_client s))) = None"
      "length (eng_tickets (en (pg_client s))) = 1"
    using pool_of_length(2) [OF ty] by (simp_all add: solo_def view_of_def)
  show "agrees (eng_pool (en (pg_client s))) (pool_of (threads_of en s))" using agrees_view [OF ty] by simp
qed

text \<open>A step of the program's thread is the same step in the view.\<close>

lemma main_view:
  assumes inv: "client_inv en we inv out s" and st: "main (pg_client s) = Some c"
  defines "t \<equiv> threads_of en (s\<lparr>pg_client := c\<rparr>)"
  shows "main (view_of en we s) = Some (view_of en we (s\<lparr>pg_client := c\<rparr>))"
    and "t = threads_of en s \<or> threads_step execute (threads_of en s) t"
    and "loads t \<le> loads (threads_of en s) + (4 * length (pg_pcs s) + 6)"
    and "out c \<Longrightarrow> callers (eng_pool (en c)) ! 0 = CIdle"
proof -
  note facts = client_facts [OF inv] and t = threads_of_client [of en c s, folded t_def]
  have v: "view_of en we (s\<lparr>pg_client := c\<rparr>) = set_pool en we (pool_of t) c" by (simp add: view_of_def t_def)
  have "out (pg_client s) \<Longrightarrow> callers (eng_pool (en (pg_client s))) ! 0 = CIdle" using inv by (simp add: client_inv_def)
  from main_law [OF facts(2,4,3) this st]
  have "main (view_of en we s) = Some (view_of en we (s\<lparr>pg_client := c\<rparr>))
      \<and> (t = threads_of en s \<or> threads_step execute (threads_of en s) t)
      \<and> loads t \<le> loads (threads_of en s) + (4 * length (pg_pcs s) + 6)
      \<and> (out c \<longrightarrow> callers (eng_pool (en c)) ! 0 = CIdle)"
  proof
    assume l: "main_local en we main out (pg_client s) c"
    then have same: "t = threads_of en s" unfolding t by (simp add: main_local_def threads_of_def)
    show ?thesis unfolding v same using l facts(5) by (simp add: main_local_def view_of_def)
  next
    assume k: "main_calls en we main out (pg_client s) c"
    then obtain k where k': "eng_pool (en c) = begin_call k (th_pool (threads_of en s))"
        "main (view_of en we s) = Some (set_pool en we (begin_call k (pool_of (threads_of en s))) c)"
      using facts(5) by (auto simp: main_calls_def view_of_def)
    have idle: "idle 0 (th_pool (threads_of en s))" using k by (simp add: main_calls_def)
    have "pool_of t = begin_call k (pool_of (threads_of en s))"
      using begin_call_view(1) [OF facts(1) idle, of k] unfolding t k'(1) .
    with v k k' begin_call_view(2) [OF facts(1) idle, of k] begin_call_step [OF idle, of execute k] show ?thesis
      by (simp add: main_calls_def t)
  qed
  then show "main (view_of en we s) = Some (view_of en we (s\<lparr>pg_client := c\<rparr>))"
    "t = threads_of en s \<or> threads_step execute (threads_of en s) t"
    "loads t \<le> loads (threads_of en s) + (4 * length (pg_pcs s) + 6)"
    "out c \<Longrightarrow> callers (eng_pool (en c)) ! 0 = CIdle" by blast+
qed

lemma client_run_view:
  assumes inv: "client_inv en we inv out s" and st: "client_run execute en we main s t"
  shows "view_of en we t = view_of en we s \<and> loads (threads_of en t) < loads (threads_of en s)
     \<or> run (view_of en we s) (view_of en we t)
       \<and> loads (threads_of en t) \<le> loads (threads_of en s) + (4 * length (pg_pcs s) + 6)"
  using st
proof cases
  case (client_main c)
  with main_view [OF inv client_main(2)] run_main show ?thesis by simp
next
  case (client_threads u)
  have th: "threads_inv (threads_of en s)" using inv by (simp add: client_inv_def)
  have "run (view_of en we s) (set_pool en we p (pg_client s))" if "pool_run execute (pool_of (threads_of en s)) p" for p
    using run_pool [of "view_of en we s" p] that by (simp add: view_of_def)
  with threads_run_effect [OF th client_threads(2)] client_threads(1) show ?thesis by (auto simp: view_of_def)
qed

lemma client_step_view:
  assumes inv: "client_inv en we inv out s" and st: "client_step execute en we main env s t"
  shows "view_of en we t = view_of en we s \<or> step (view_of en we s) (view_of en we t)"
  using st
proof cases
  case client_go
  with client_run_view [OF inv] run_step show ?thesis by blast
next
  case (client_env c)
  then have "threads_of en t = threads_of en s" using env_kept by (simp add: threads_of_def)
  with step_env [OF client_env(2)] client_env(1) show ?thesis by (simp add: view_of_def)
next
  case (client_tick now)
  have "threads_of en t = (threads_of en s)\<lparr>th_pool := (th_pool (threads_of en s))\<lparr>clock := now\<rparr>\<rparr>"
    by (simp add: client_tick(1) threads_of_def)
  then have "view_of en we t = set_pool en we ((pool_of (threads_of en s))\<lparr>clock := now\<rparr>) (pg_client s)"
    unfolding view_of_def by (simp only: tick_view) (simp add: client_tick(1))
  with step_tick [of "view_of en we s" now] client_tick(2) show ?thesis by (simp add: view_of_def)
next
  case (client_spurious i p p')
  have "threads_of en t = (threads_of en s)\<lparr>th_pcs := (th_pcs (threads_of en s))[i := p']\<rparr>"
    by (simp add: client_spurious(1) threads_of_def)
  from spurious_view [OF client_facts(1) [OF inv] client_spurious(2,3) this]
  show ?thesis by (simp add: view_of_def client_spurious(1))
qed

lemma client_step_threads:
  assumes inv: "client_inv en we inv out s" and st: "client_step execute en we main env s t"
  shows "threads_inv (threads_of en t) \<and> gone_inv (threads_of en t)"
proof -
  have th: "threads_inv (threads_of en s)" "gone_inv (threads_of en s)" using inv by (simp_all add: client_inv_def)
  have "threads_of en t = threads_of en s \<or> threads_step execute (threads_of en s) (threads_of en t)" using st
  proof cases
    case client_go
    then show ?thesis
    proof cases
      case (client_main c)
      with main_view(2) [OF inv client_main(2)] show ?thesis by simp
    next
      case (client_threads u)
      with threads_go [OF client_threads(2)] show ?thesis by simp
    qed
  next
    case (client_env c)
    then show ?thesis using env_kept by (simp add: threads_of_def)
  next
    case (client_tick now)
    with threads_tick [of "threads_of en s" now execute] show ?thesis by (simp add: threads_of_def)
  next
    case (client_spurious i p p')
    with threads_spurious [of "threads_of en s" i p p' execute] show ?thesis by (simp add: threads_of_def)
  qed
  with th threads_inv_step gone_step show ?thesis by metis
qed

lemma client_step_out:
  assumes inv: "client_inv en we inv out s" and st: "client_step execute en we main env s t" and out: "out (pg_client t)"
  shows "callers (eng_pool (en (pg_client t))) ! 0 = CIdle"
proof -
  have kept: "callers (eng_pool (en (pg_client s))) ! 0 = CIdle" if "out (pg_client s)"
    using inv that by (simp add: client_inv_def)
  show ?thesis using st
  proof cases
    case client_go
    then show ?thesis
    proof cases
      case (client_main c)
      with main_view(4) [OF inv client_main(2)] out show ?thesis by simp
    next
      case (client_threads u)
      have "out (pg_client s)" using out by (simp add: client_threads(1) set_pool_kept)
      with threads_run_idle [OF client_facts(1) [OF inv] _ _ client_threads(2), of 0] client_facts(2) [OF inv] kept
      show ?thesis by (simp add: client_threads(1))
    qed
  next
    case (client_env c)
    with env_kept [OF client_env(2)] kept out show ?thesis by simp
  qed (use kept out in \<open>auto simp: set_pool_kept\<close>)
qed

lemma client_inv_step: "client_inv en we inv out s \<Longrightarrow> client_step execute en we main env s t \<Longrightarrow> client_inv en we inv out t"
  using client_step_threads client_step_out client_step_view inv_step
  unfolding client_inv_def [of en we inv out t] by (metis client_inv_def)

lemma client_init_threads:
  assumes "client_init en init s"
  shows "threads_init (threads_of en s)" and "view_of en we s = pg_client s"
proof -
  have "engine_init (en (pg_client s))" using assms init_engine by (simp add: client_init_def)
  then have "pool_init (eng_pool (en (pg_client s)))" by (auto elim!: engine_initE simp: start_engine_def)
  with assms show i: "threads_init (threads_of en s)" by (simp add: threads_init_def client_init_def)
  from threads_inv_init(1) [OF this] show "view_of en we s = pg_client s" by (simp add: view_of_def)
qed

lemma client_inv_init:
  assumes "client_init en init s"
  shows "client_inv en we inv out s"
proof -
  note i = client_init_threads [OF assms]
  have "inv (pg_client s)" using assms inv_init by (simp add: client_init_def)
  moreover from inv_solo [OF this] have "callers (eng_pool (en (pg_client s))) ! 0 = CIdle"
    using pool_init_fresh [of "eng_pool (en (pg_client s))"] i(1)
    by (auto simp: fresh_system_def threads_init_def solo_def)
  ultimately show ?thesis using gone.inv_init [OF i(1)] i(2) by (simp add: client_inv_def)
qed

text \<open>As long as the program has not ended, its thread can go on or some thread of the pool can.\<close>

lemma client_progress:
  assumes inv: "client_inv en we inv out s" and "\<not> final (pg_client s)"
  shows "\<exists>t. client_run execute en we main s t"
proof (cases "callers (eng_pool (en (pg_client s))) ! 0 = CIdle")
  case True
  then have "idle 0 (eng_pool (en (pg_client s)))" using client_facts [OF inv] by (simp add: idle_def)
  with main_free [OF _ client_facts(5) [OF inv] _ assms(2)] inv client_main show ?thesis
    by (fastforce simp: client_inv_def view_of_def)
next
  case False
  then have "\<not> at_rest (threads_of en s)"
    using client_facts(2) [OF inv] nth_mem [of 0 "callers (eng_pool (en (pg_client s)))"] by (auto simp: at_rest_def)
  with threads_progress inv client_threads show ?thesis unfolding client_inv_def by blast
qed

lemma client_run_length:
  assumes "client_run execute en we main s t"
  shows "length (pg_pcs t) = length (pg_pcs s)"
  using assms
proof cases
  case (client_threads u)
  with threads_run_length [OF client_threads(2)] show ?thesis by simp
qed simp

lemma client_run_decreases:
  assumes inv: "client_inv en we inv out s" and st: "client_run execute en we main s t"
  shows "client_weight en we weight t < client_weight en we weight s"
  using client_run_view [OF assms]
proof
  assume v: "run (view_of en we s) (view_of en we t)
    \<and> loads (threads_of en t) \<le> loads (threads_of en s) + (4 * length (pg_pcs s) + 6)"
  let ?k = "4 * length (pg_pcs s) + 7"
  have "weight (view_of en we t) < weight (view_of en we s)" using run_decreases inv v by (simp add: client_inv_def)
  then have "Suc (weight (view_of en we t)) * ?k \<le> weight (view_of en we s) * ?k" by (intro mult_le_mono1) simp
  with v client_run_length [OF st] show ?thesis by (simp add: client_weight_def)
qed (simp add: client_weight_def client_run_length [OF st])

sublocale program: refinement "client_init en init" "client_step execute en we main env" "client_inv en we inv out"
  init step "view_of en we"
  by unfold_locales
     (auto simp: client_init_threads(2) client_init_def intro: client_inv_init client_inv_step dest: client_step_view)

sublocale program_run: terminating_system "client_init en init" "client_step execute en we main env"
  "client_inv en we inv out" "client_run execute en we main" "client_weight en we weight" "\<lambda>s. final (pg_client s)"
  by unfold_locales (auto intro: client_go client_run_decreases client_progress)

text \<open>At the end every worker thread has ended, and nobody is inside the queue.\<close>

lemma client_end:
  assumes inv: "client_inv en we inv out s" and fin: "final (pg_client s)"
  shows "pg_mutex s = None" and "\<forall>p \<in> set (pg_pcs s). p = Idle"
    and "\<forall>w \<in> set (workers (eng_pool (en (pg_client s)))). w = WExit"
proof -
  have th: "threads_inv (threads_of en s)" "gone_inv (threads_of en s)" and v: "inv (view_of en we s)"
    using inv by (simp_all add: client_inv_def)
  have "final (view_of en we s)" using fin by (simp add: view_of_def set_pool_kept)
  from final_joined [OF v this] have j: "workers_joined (th_pool (threads_of en s))" and "out (pg_client s)"
    by (simp_all add: view_of_def set_pool_kept workers_joined_def)
  then have "callers (eng_pool (en (pg_client s))) ! 0 = CIdle" using inv by (simp add: client_inv_def)
  then have idle: "\<forall>c \<in> set (callers (th_pool (threads_of en s))). c = CIdle"
    using client_facts(2) [OF inv] by (auto simp: in_set_conv_nth)
  show "pg_mutex s = None" "\<forall>p \<in> set (pg_pcs s). p = Idle" using gone_unlocked [OF th j idle] by simp_all
  show "\<forall>w \<in> set (workers (eng_pool (en (pg_client s)))). w = WExit"
    using gone_left(1) [OF th j] by (auto simp: in_set_conv_nth)
qed

text \<open>
  The destructor of the engine calls \<open>shutdown\<close> once more when the program leaves the scope of the
  engine. By then the pool is joined: the call returns after its own steps and changes nothing.
\<close>

lemma client_destructor:
  assumes inv: "client_inv en we inv out s" and fin: "final (pg_client s)"
  shows "acts execute [Call_shutdown 0, Proceed 0, Proceed 0, Proceed 0] (eng_pool (en (pg_client s)))
     = Some (eng_pool (en (pg_client s)))"
proof -
  let ?s = "threads_of en s"
  have th: "threads_inv ?s" and v: "inv (view_of en we s)" using inv by (simp_all add: client_inv_def)
  have "pool_of ?s = th_pool ?s" using client_end(2) [OF inv fin] by (intro pool_of_idle client_facts [OF inv]) simp
  then have full: "full_inv (eng_pool (en (pg_client s)))" using th by (simp add: threads_inv_def)
  have "final (view_of en we s)" using fin by (simp add: view_of_def set_pool_kept)
  from final_joined [OF v this] have j: "p_joined (eng_pool (en (pg_client s)))" and "out (pg_client s)"
    by (simp_all add: view_of_def set_pool_kept)
  then have "callers (eng_pool (en (pg_client s))) ! 0 = CIdle" using inv by (simp add: client_inv_def)
  with joined_calls_return(1) [OF _ _ client_facts(3) [OF inv] j] full client_facts(2) [OF inv] show ?thesis
    by (simp add: full_inv_def pool_inv_def)
qed

lemma summary_view:
  assumes "client_inv en we inv out s"
  shows "summary (en (view_of en we s)) = summary (en (pg_client s))"
  using summary_agrees [OF client_facts(5) [OF assms]] by (simp add: view_of_def set_pool_def en_we)

end

end
