(* ===== verification/Application_Threads.thy ===== *)
theory Application_Threads
  imports Application_Correct Client_Threads
begin

text \<open>
  The whole program with its locks: the main thread of \<open>app/main.cpp\<close> and the signal handler on top
  of the pool of Pool\_Threads, as a client in the sense of Client\_Threads. It refines the program
  of the theory Application, so it has the same outcomes, and it terminates under every schedule.
\<close>

section \<open>State and steps\<close>

type_synonym app_program = "(app, app_task) program"

definition with_engine :: "app_task engine \<Rightarrow> app \<Rightarrow> app" where
  "with_engine g a = a\<lparr>app_engine := g\<rparr>"

text \<open>A signal arrives.\<close>

definition signalled :: "app \<Rightarrow> app \<Rightarrow> bool" where
  "signalled a a' \<longleftrightarrow> (\<exists>inherited sg flag.
     deliver (install_interrupt_handlers inherited) sg (app_interrupted a) = Some flag
     \<and> a' = a\<lparr>app_interrupted := flag\<rparr>)"

definition program_init :: "options \<Rightarrow> app_program \<Rightarrow> bool" where
  "program_init opts = client_init app_engine (app_init opts)"

definition program_run :: "options \<Rightarrow> app_program \<Rightarrow> app_program \<Rightarrow> bool" where
  "program_run opts = client_run app_execute app_engine with_engine (main_step opts)"

definition program_step :: "options \<Rightarrow> app_program \<Rightarrow> app_program \<Rightarrow> bool" where
  "program_step opts = client_step app_execute app_engine with_engine (main_step opts) signalled"

text \<open>Where the main thread is outside the engine.\<close>

definition outside :: "app \<Rightarrow> bool" where
  "outside a \<longleftrightarrow> app_pc a \<in> {Looping, Deciding} \<or> app_final a
     \<or> app_pc a = Submitting \<and> eng_tickets (app_engine a) ! 0 \<noteq> None"

section \<open>The main thread is a client\<close>

lemma app_set_pool: "set_pool app_engine with_engine p a = a\<lparr>app_engine := (app_engine a)\<lparr>eng_pool := p\<rparr>\<rparr>"
  by (simp add: set_pool_def with_engine_def)

abbreviation app_local :: "options \<Rightarrow> app \<Rightarrow> app \<Rightarrow> bool" where
  "app_local opts \<equiv> main_local app_engine with_engine (main_step opts) outside"

abbreviation app_calls :: "options \<Rightarrow> app \<Rightarrow> app \<Rightarrow> bool" where
  "app_calls opts \<equiv> main_calls app_engine with_engine (main_step opts) outside"

lemma main_submitting:
  assumes pc: "app_pc a = Submitting" and len: "length (callers (eng_pool (app_engine a))) = 1"
    "length (eng_tickets (app_engine a)) = 1" "crashed (eng_pool (app_engine a)) = None"
    and out: "outside a \<Longrightarrow> callers (eng_pool (app_engine a)) ! 0 = CIdle" and st: "main_step opts a = Some a'"
  shows "app_local opts a a' \<or> app_calls opts a a'"
proof (cases "eng_tickets (app_engine a) ! 0")
  case None
  then have idle: "eng_idle 0 (app_engine a)" and a': "a' = a\<lparr>app_submitted := app_submitted a + 1, app_pc := Looping\<rparr>"
    using st pc by (auto simp: main_step_def split: if_splits)
  have "app_local opts a a'"
    using None pc idle eng_idle_agrees [OF _ idle]
    by (auto simp: main_local_def app_set_pool a' main_step_def eng_idle_def idle_def)
  then show ?thesis ..
next
  case (Some ticket)
  then obtain i t where t: "eng_tickets (app_engine a) ! 0 = Some (i, t)" by (cases ticket) simp
  have "outside a" using pc t by (simp add: outside_def)
  with out len have idle: "idle 0 (eng_pool (app_engine a))" by (simp add: idle_def)
  have a': "a' = a\<lparr>app_engine := (app_engine a)\<lparr>eng_tickets := (eng_tickets (app_engine a))[0 := None],
      eng_pool := begin_call (Submit_call i t) (eng_pool (app_engine a))\<rparr>\<rparr>"
    using st pc t by (auto simp: main_step_def build_envelope_def enter_submit_is)
  have "app_calls opts a a'"
    unfolding main_calls_def
    by (intro conjI exI [of _ "Submit_call i t"])
       (use idle pc t len in \<open>auto simp: a' outside_def app_final_def app_set_pool main_step_def build_envelope_def enter_submit_is\<close>)
  then show ?thesis ..
qed

lemma main_deciding:
  assumes pc: "app_pc a = Deciding" and len: "length (callers (eng_pool (app_engine a))) = 1"
    "crashed (eng_pool (app_engine a)) = None"
    and out: "outside a \<Longrightarrow> callers (eng_pool (app_engine a)) ! 0 = CIdle" and st: "main_step opts a = Some a'"
  shows "app_calls opts a a'"
proof -
  let ?k = "if app_interrupted a then Drain_call else Close_call"
  have "outside a" using pc by (simp add: outside_def)
  with out len have idle: "idle 0 (eng_pool (app_engine a))" by (simp add: idle_def)
  have a': "a' = a\<lparr>app_flag := app_interrupted a,
      app_engine := (app_engine a)\<lparr>eng_pool := begin_call ?k (eng_pool (app_engine a))\<rparr>, app_pc := Stopping\<rparr>"
    using st pc by (cases "app_interrupted a") (auto simp: main_step_def)
  show ?thesis
    unfolding main_calls_def
    by (intro conjI exI [of _ ?k]) (use idle pc in \<open>auto simp: a' outside_def app_final_def app_set_pool main_step_def\<close>)
qed

lemma main_stopping:
  assumes pc: "app_pc a = Stopping" and st: "main_step opts a = Some a'"
  shows "app_local opts a a'"
proof -
  have idle: "eng_idle 0 (app_engine a)"
    and a': "a' = a\<lparr>app_wall := clock (eng_pool (app_engine a)) - app_start a,
        app_pc := Finished (run_outcome (app_flag a) (summary (app_engine a)))\<rparr>"
    using st pc by (auto simp: main_step_def split: if_splits)
  then show ?thesis
    using pc eng_idle_agrees [OF _ idle]
    by (auto simp: main_local_def app_set_pool main_step_def summary_agrees agrees_frame eng_idle_def idle_def)
qed

lemma app_main_law:
  assumes "length (callers (eng_pool (app_engine a))) = 1" "length (eng_tickets (app_engine a)) = 1"
    "crashed (eng_pool (app_engine a)) = None" and "outside a \<Longrightarrow> callers (eng_pool (app_engine a)) ! 0 = CIdle"
    and st: "main_step opts a = Some a'"
  shows "app_local opts a a' \<or> app_calls opts a a'"
proof (cases "app_pc a")
  case Looping
  then have "callers (eng_pool (app_engine a)) ! 0 = CIdle" using assms(4) by (simp add: outside_def)
  with Looping st have "app_local opts a a'"
    by (auto simp: main_local_def app_set_pool main_step_def take_id_def split: if_splits)
  then show ?thesis ..
next
  case (Finished r)
  with st show ?thesis by (simp add: main_step_def)
qed (use assms main_submitting main_deciding main_stopping in blast)+

lemma app_main_free:
  assumes "app_inv opts (set_pool app_engine with_engine q a)" and view: "agrees (eng_pool (app_engine a)) q"
    and idle: "idle 0 (eng_pool (app_engine a))" and "\<not> app_final a"
  shows "main_step opts a \<noteq> None"
proof -
  let ?b = "set_pool app_engine with_engine q a"
  have b: "batch_inv app_execute (make_task opts) (opt_tasks opts) (batch_of ?b)" using assms(1) by (simp add: app_inv_def)
  then have "solo (app_engine ?b)" by (simp add: batch_inv_def batch_of_def)
  then have len: "length (eng_tickets (app_engine a)) = 1" by (simp add: app_set_pool solo_def)
  have "callers q ! 0 = CIdle" using agrees_idle [OF view idle] by (simp add: idle_def)
  then have none: "eng_tickets (app_engine a) ! 0 = None" if "app_pc a = Stopping"
    using batch_ending [OF b, of "app_flag a"] that by (simp add: batch_of_def app_set_pool eng_idle_def)
  show ?thesis
    using assms(4) idle none len
    by (cases "app_pc a") (auto simp: main_step_def app_final_def eng_idle_def build_envelope_def enter_submit_is)
qed

lemma app_run_weight: "app_inv opts a \<Longrightarrow> app_run opts a a' \<Longrightarrow> app_weight opts a' < app_weight opts a"
  using app.run_decreases [of opts a a'] by (simp add: app_weight_def)

lemma app_final_joined:
  assumes "app_inv opts a" and "app_final a"
  shows "outside a \<and> p_joined (eng_pool (app_engine a))"
proof -
  have b: "batch_inv app_execute (make_task opts) (opt_tasks opts) (batch_of a)" using assms(1) by (simp add: app_inv_def)
  have "b_phase (batch_of a) = Ended (app_flag a)" using assms(2) by (auto simp: batch_of_def app_final_def)
  from batch_ended_facts(2) [OF b this] assms(2) show ?thesis by (simp add: outside_def batch_of_def workers_joined_def)
qed

lemma signalled_step:
  assumes "signalled a b"
  shows "app_step opts (set_pool app_engine with_engine q a) (set_pool app_engine with_engine q b)"
proof -
  obtain inherited sg flag where d: "deliver (install_interrupt_handlers inherited) sg (app_interrupted a) = Some flag"
    and b: "b = a\<lparr>app_interrupted := flag\<rparr>" using assms by (auto simp: signalled_def)
  have "set_pool app_engine with_engine q b = (set_pool app_engine with_engine q a)\<lparr>app_interrupted := flag\<rparr>"
    by (simp add: app_set_pool b)
  with d app_signal [of inherited sg "set_pool app_engine with_engine q a" flag opts] show ?thesis
    by (simp add: app_set_pool)
qed

interpretation prog: threaded_client "app_init opts" "app_step opts" "app_inv opts" "app_run opts" "app_weight opts"
  app_final app_execute app_engine with_engine "main_step opts" signalled outside for opts
proof
  show "engine_init (app_engine a)" if "app_init opts a" for a
    using that unfolding app_init_def engine_init_def start_app_def by fastforce
  show "solo (app_engine a)" if "app_inv opts a" for a using that by (simp add: app_inv_def batch_inv_def batch_of_def)
  show "app_step opts (set_pool app_engine with_engine q a) (set_pool app_engine with_engine q b)"
    if "signalled a b" for a b q
    using that by (rule signalled_step)
  show "app_engine b = app_engine a \<and> (outside b \<longrightarrow> outside a)" if "signalled a b" for a b
    using that by (auto simp: signalled_def outside_def app_final_def)
  show "app_local opts a b \<or> app_calls opts a b"
    if "length (callers (eng_pool (app_engine a))) = 1" "length (eng_tickets (app_engine a)) = 1"
      "crashed (eng_pool (app_engine a)) = None" "outside a \<Longrightarrow> callers (eng_pool (app_engine a)) ! 0 = CIdle"
      "main_step opts a = Some b" for a b
    using that by (rule app_main_law)
  show "main_step opts a \<noteq> None"
    if "app_inv opts (set_pool app_engine with_engine q a)" "agrees (eng_pool (app_engine a)) q"
      "idle 0 (eng_pool (app_engine a))" "\<not> app_final a" for a q
    using that by (rule app_main_free)
  show "outside a \<and> p_joined (eng_pool (app_engine a))" if "app_inv opts a" "app_final a" for a
    using that by (rule app_final_joined)
qed (auto simp: app.inv_init with_engine_def app_set_pool outside_def app_final_def app_run_weight
       intro: app_go app_main app_pool app_tick app_progress)

lemmas program_defs = program_init_def program_run_def program_step_def

section \<open>A run of the program with its locks\<close>

definition demo_program :: app_program where
  "demo_program = \<lparr>pg_client = demo_app, pg_mutex = None, pg_pcs = [Idle, Idle]\<rparr>"

lemma demo_program_reach: "reach (program_init (demo_opts f)) (program_step (demo_opts f)) demo_program"
proof (rule reach_init)
  have "app_init (demo_opts f) demo_app" by (rule demo_app_init)
  then show "program_init (demo_opts f) demo_program"
    by (simp add: program_init_def client_init_def demo_program_def demo_app_def start_app_def start_engine_def
        start_system_def app_pool1_def pool.defs numeral_2_eq_2)
qed

text \<open>The task is submitted, \<open>run\<close> closes the queue and waits, and only then the worker thread starts.\<close>

definition program_trace :: "nat option list" where
  "program_trace = [None, None, Some 1, Some 1, Some 1, Some 1, Some 1, Some 1, None, None, None, Some 1, Some 1,
     Some 1, Some 1, Some 1, Some 1, Some 1, Some 0, Some 0, Some 0, Some 0, Some 0, Some 0, Some 0,
     Some 0, Some 0, Some 0, Some 0, Some 0, Some 0, Some 0, Some 1, Some 1, Some 1, None]"

lemma program_trace_runs:
  "\<exists>s. client_acts app_execute app_engine with_engine (main_step (demo_opts 1)) program_trace demo_program = Some s \<and> app_pc (pg_client s) = Finished (Inr 1)
     \<and> \<not> app_flag (pg_client s)"
  by (simp add: program_trace_def demo_program_def threads_of_def with_threads_def set_pool_def with_engine_def
      demo_threads_simps app_run_simps failed_def no_error_def)

section \<open>Properties\<close>

text \<open>
  C3: The program with its locks terminates. From every reachable state of the main thread, the
  worker threads, the mutex and the condition variables of the queue, under every schedule, only
  finitely many steps remain; the program cannot get stuck before \<open>run\<close> has ended, so there is no
  deadlock and no lost wake-up; and an end is reached.
\<close>

theorem program_with_locks_terminates:
  assumes "reach (program_init opts) (program_step opts) s"
  shows "(\<forall>n t. (program_run opts ^^ n) s t \<longrightarrow> n \<le> client_weight app_engine with_engine (app_weight opts) s)
     \<and> (\<forall>t. (program_run opts)\<^sup>*\<^sup>* s t \<longrightarrow> (\<nexists>u. program_run opts t u) \<longrightarrow> (\<exists>r. app_pc (pg_client t) = Finished r))
     \<and> (\<exists>t r. (program_run opts)\<^sup>*\<^sup>* s t \<and> app_pc (pg_client t) = Finished r)"
proof -
  note inv = prog.program.inv_reach [OF assms [unfolded program_defs]]
  have "n \<le> client_weight app_engine with_engine (app_weight opts) s" if "(program_run opts ^^ n) s t" for n t
    using prog.program_run.run_bounded [OF inv that [unfolded program_defs]] by simp
  then show ?thesis
    using prog.program_run.run_stuck_is_final [OF inv] prog.program_run.run_reaches_final [OF inv]
    unfolding app_final_def program_defs by meson
qed

theorem program_with_locks_terminates_witness:
  "\<exists>t r. (program_run (demo_opts 1))\<^sup>*\<^sup>* demo_program t \<and> app_pc (pg_client t) = Finished r"
  using program_with_locks_terminates [OF demo_program_reach] by blast

text \<open>
  C10: The program with its locks refines the program whose queue operations are atomic: every
  reachable state corresponds to a reachable state of the latter, at the same point of \<open>run\<close>, with
  the same number of submitted tasks, the same value of the interrupt flag and the same summary.
\<close>

theorem program_with_locks_refines:
  assumes "reach (program_init opts) (program_step opts) s"
  shows "\<exists>a. reach (app_init opts) (app_step opts) a \<and> app_pc a = app_pc (pg_client s)
     \<and> app_submitted a = app_submitted (pg_client s) \<and> app_flag a = app_flag (pg_client s)
     \<and> summary (app_engine a) = summary (app_engine (pg_client s))"
proof -
  note inv = prog.program.inv_reach [OF assms [unfolded program_defs]]
  show ?thesis
    using prog.program.view_reach [OF assms [unfolded program_defs]] prog.summary_view [OF inv]
    by (intro exI [of _ "view_of app_engine with_engine s"]) (simp add: view_of_def app_set_pool)
qed

theorem program_with_locks_refines_witness:
  "\<exists>a. reach (app_init (demo_opts 1)) (app_step (demo_opts 1)) a \<and> app_pc a = app_pc (pg_client demo_program)"
  using program_with_locks_refines [OF demo_program_reach] by blast

text \<open>
  C2: How every run of the program with its locks ends. All worker threads have ended, nobody is
  inside the queue and its mutex is free; the summary accounts for every submitted task; and a run
  that is not interrupted has submitted all tasks, has rejected none, has exactly every
  \<open>fail_every\<close>-th one failed, and exits with 1 when one was and with 0 otherwise, whatever the schedule.
\<close>

theorem program_with_locks_outcome:
  assumes "reach (program_init opts) (program_step opts) s" and "app_pc (pg_client s) = Finished r"
  shows "pg_mutex s = None \<and> (\<forall>p \<in> set (pg_pcs s). p = Idle) \<and> (\<forall>w \<in> set (workers (eng_pool (app_engine (pg_client s)))). w = WExit)
     \<and> (\<exists>sm. summary (app_engine (pg_client s)) = Inr sm \<and> rs_total sm = app_submitted (pg_client s)
          \<and> rs_total sm = rs_succeeded sm + rs_failed sm + rs_rejected sm
          \<and> r = Inr (if app_flag (pg_client s) \<or> rs_failed sm \<noteq> 0 then 1 else 0)
          \<and> (\<not> app_flag (pg_client s) \<longrightarrow> rs_total sm = opt_tasks opts \<and> rs_rejected sm = 0
               \<and> unat (rs_failed sm) = (if opt_fail_every opts = 0 then 0
                                        else unat (opt_tasks opts) div unat (opt_fail_every opts))))"
proof -
  note inv = prog.program.inv_reach [OF assms(1) [unfolded program_defs]]
  have "app_inv opts (view_of app_engine with_engine s)" "app_pc (view_of app_engine with_engine s) = Finished r"
    using inv assms(2) by (simp_all add: client_inv_def view_of_def app_set_pool)
  then obtain sm where sm: "summary (app_engine (pg_client s)) = Inr sm" "rs_total sm = app_submitted (pg_client s)"
      "rs_total sm = rs_succeeded sm + rs_failed sm + rs_rejected sm" "r = run_outcome (app_flag (pg_client s)) (Inr sm)"
      "\<not> app_flag (pg_client s) \<Longrightarrow> rs_total sm = opt_tasks opts \<and> rs_rejected sm = 0
         \<and> unat (rs_failed sm) = (if opt_fail_every opts = 0 then 0 else unat (opt_tasks opts) div unat (opt_fail_every opts))"
    by (rule finished_summary) (simp add: prog.summary_view [OF inv], simp add: view_of_def app_set_pool)
  have "r = Inr (if app_flag (pg_client s) \<or> rs_failed sm \<noteq> 0 then 1 else 0)"
    using sm(4,5) by (auto simp: run_outcome_def exit_code_for_def k_exit_success_def k_exit_task_failure_def)
  moreover have "app_final (pg_client s)" using assms(2) by (simp add: app_final_def)
  ultimately show ?thesis using sm prog.client_end [OF inv] by blast
qed

theorem program_with_locks_outcome_witness:
  "\<exists>s sm. client_acts app_execute app_engine with_engine (main_step (demo_opts 1)) program_trace demo_program = Some s \<and> pg_mutex s = None
     \<and> summary (app_engine (pg_client s)) = Inr sm \<and> rs_total sm = 1 \<and> unat (rs_failed sm) = 1"
proof -
  from program_trace_runs obtain s where s: "client_acts app_execute app_engine with_engine (main_step (demo_opts 1)) program_trace demo_program = Some s"
      "app_pc (pg_client s) = Finished (Inr 1)" "\<not> app_flag (pg_client s)" by blast
  have "reach (program_init (demo_opts 1)) (program_step (demo_opts 1)) s"
    using client_acts_reach [OF s(1)] demo_program_reach unfolding program_defs by blast
  from program_with_locks_outcome [OF this s(2)] s(1,3) show ?thesis by (auto simp: demo_opts_def)
qed

end
