(* ===== verification/Application_Signals.thy ===== *)
theory Application_Signals
  imports Application_Threads
begin

text \<open>
  The program with its locks, together with the signals that reach it. A run carries the list of
  signals delivered so far, each with the place of the main thread and the number of tasks submitted
  at that moment. The flag the program reports is thereby tied to what happened outside of it: it is
  set exactly when a SIGINT or SIGTERM arrived before the flag was read, and the number of submitted
  tasks is fixed by the first such arrival.
\<close>

section \<open>Runs with a record of the signals\<close>

type_synonym arrival = "app_pc \<times> size_t \<times> signal"

definition arrival_at :: "app \<Rightarrow> signal \<Rightarrow> arrival" where
  "arrival_at a sg = (app_pc a, app_submitted a, sg)"

text \<open>
  The main thread, the workers, the clock and spurious wake-ups move without leaving a trace. The
  table of dispositions is inherited through \<open>exec\<close>, which leaves no handler installed.
\<close>

definition quiet_step :: "options \<Rightarrow> app_program \<Rightarrow> app_program \<Rightarrow> bool" where
  "quiet_step opts = client_step app_execute app_engine with_engine (main_step opts) (\<lambda>a b. False)"

inductive logged_run :: "options \<Rightarrow> app_program \<Rightarrow> arrival list \<Rightarrow> app_program \<Rightarrow> bool" for opts s0 where
  logged_start: "logged_run opts s0 [] s0"
| logged_quiet: "logged_run opts s0 log s \<Longrightarrow> quiet_step opts s t \<Longrightarrow> logged_run opts s0 log t"
| logged_signal: "logged_run opts s0 log s \<Longrightarrow> (\<And>sg. inherited sg \<noteq> Interrupt_handler) \<Longrightarrow>
     deliver (install_interrupt_handlers inherited) sg (app_interrupted (pg_client s)) = Some flag \<Longrightarrow>
     logged_run opts s0 (log @ [arrival_at (pg_client s) sg])
       (s\<lparr>pg_client := (pg_client s)\<lparr>app_interrupted := flag\<rparr>\<rparr>)"

lemma quiet_program_step:
  assumes "quiet_step opts s t"
  shows "program_step opts s t"
  using assms unfolding quiet_step_def program_step_def
  by cases (blast intro: client_step.intros)+

lemma logged_program_steps: "logged_run opts s0 log s \<Longrightarrow> (program_step opts)\<^sup>*\<^sup>* s0 s"
proof (induction rule: logged_run.induct)
  case (logged_quiet log s t)
  then show ?case using quiet_program_step by (meson rtranclp.rtrancl_into_rtrancl)
next
  case (logged_signal log s inherited sg flag)
  have "signalled (pg_client s) ((pg_client s)\<lparr>app_interrupted := flag\<rparr>)"
    using logged_signal(3) unfolding signalled_def by blast
  then have "program_step opts s (s\<lparr>pg_client := (pg_client s)\<lparr>app_interrupted := flag\<rparr>\<rparr>)"
    unfolding program_step_def by (rule client_env)
  with logged_signal(4) show ?case by (rule rtranclp.rtrancl_into_rtrancl)
qed simp

lemma run_logged:
  assumes "(program_run opts)\<^sup>*\<^sup>* s t" and "logged_run opts s0 log s"
  shows "logged_run opts s0 log t"
  using assms(1)
proof (induction rule: rtranclp_induct)
  case (step t u)
  then have "quiet_step opts t u" unfolding program_run_def quiet_step_def by (intro client_go)
  with step.IH show ?case by (rule logged_quiet)
qed (rule assms(2))

section \<open>What the record says\<close>

definition handled :: "signal \<Rightarrow> bool" where
  "handled sg \<longleftrightarrow> sg = SIGINT \<or> sg = SIGTERM"

text \<open>The places of the main thread before it has read the flag for good.\<close>

definition undecided :: "app_pc \<Rightarrow> bool" where
  "undecided pc \<longleftrightarrow> pc = Looping \<or> pc = Submitting \<or> pc = Deciding"

text \<open>Some handled signal arrived, and one arrived in time.\<close>

definition heard :: "arrival list \<Rightarrow> bool" where
  "heard log \<longleftrightarrow> (\<exists>(pc, n, sg) \<in> set log. handled sg)"

definition interrupted_by :: "arrival list \<Rightarrow> bool" where
  "interrupted_by log \<longleftrightarrow> (\<exists>(pc, n, sg) \<in> set log. handled sg \<and> undecided pc)"

text \<open>The tasks that are submitted after an arrival: the one being handed over, if there is one.\<close>

definition last_submitted :: "arrival list \<Rightarrow> size_t \<Rightarrow> bool" where
  "last_submitted log n' \<longleftrightarrow>
     (\<forall>(pc, n, sg) \<in> set log. handled sg \<longrightarrow> n' = (if pc = Submitting then n + 1 else n))"

text \<open>While the main thread is at \<open>pc'\<close> with \<open>n'\<close> tasks submitted, no arrival has let it start another.\<close>

definition tallied :: "app_pc \<Rightarrow> size_t \<Rightarrow> arrival list \<Rightarrow> bool" where
  "tallied pc' n' log \<longleftrightarrow>
     (\<forall>(pc, n, sg) \<in> set log. handled sg \<longrightarrow>
        (if pc' = Submitting then pc = Submitting \<and> n' = n else n' = (if pc = Submitting then n + 1 else n)))"

definition log_inv :: "arrival list \<Rightarrow> app \<Rightarrow> bool" where
  "log_inv log a \<longleftrightarrow> app_interrupted a = heard log
     \<and> app_flag a = (\<not> undecided (app_pc a) \<and> interrupted_by log)
     \<and> (undecided (app_pc a) \<longrightarrow> interrupted_by log = heard log)
     \<and> tallied (app_pc a) (app_submitted a) log"

lemma tallied_not_heard: "\<not> heard log \<Longrightarrow> tallied pc n log"
  by (auto simp: heard_def tallied_def)

lemma tallied_returned: "tallied Submitting n log \<Longrightarrow> tallied Looping (n + 1) log"
  by (auto simp: tallied_def)

lemma tallied_moved: "tallied pc n log \<Longrightarrow> pc \<noteq> Submitting \<Longrightarrow> pc' \<noteq> Submitting \<Longrightarrow> tallied pc' n log"
  by (simp add: tallied_def)

lemma tallied_arrival: "tallied (app_pc a) (app_submitted a) log \<Longrightarrow>
    tallied (app_pc a) (app_submitted a) (log @ [arrival_at a sg])"
  by (simp add: tallied_def arrival_at_def)

lemma main_step_log:
  assumes inv: "log_inv log a" and st: "main_step opts a = Some b"
  shows "log_inv log b"
proof (cases "app_pc a")
  case Looping
  with inv st show ?thesis
    by (auto simp: main_step_def log_inv_def undecided_def tallied_not_heard intro: tallied_moved split: if_splits)
next
  case Submitting
  with inv st show ?thesis
    by (auto simp: main_step_def log_inv_def undecided_def dest: tallied_returned split: if_splits)
next
  case Deciding
  with inv st show ?thesis by (auto simp: main_step_def log_inv_def undecided_def intro: tallied_moved)
next
  case Stopping
  with inv st show ?thesis
    by (auto simp: main_step_def log_inv_def undecided_def intro: tallied_moved split: if_splits)
qed (use st in \<open>simp add: main_step_def\<close>)

lemma log_inv_frame:
  assumes "log_inv log a" and "app_pc b = app_pc a" "app_submitted b = app_submitted a"
    "app_interrupted b = app_interrupted a" "app_flag b = app_flag a"
  shows "log_inv log b"
  using assms by (simp add: log_inv_def)

lemma quiet_step_log:
  assumes inv: "log_inv log (pg_client s)" and st: "quiet_step opts s t"
  shows "log_inv log (pg_client t)"
  using st unfolding quiet_step_def
proof cases
  case client_go
  then show ?thesis
  proof cases
    case (client_main c)
    with main_step_log [OF inv] show ?thesis by simp
  next
    case (client_threads u)
    then show ?thesis by (simp add: app_set_pool log_inv_frame [OF inv])
  qed
next
  case (client_tick now)
  then show ?thesis by (simp add: app_set_pool log_inv_frame [OF inv])
qed (use inv in simp_all)

lemma heard_snoc: "heard (log @ [arrival_at a sg]) \<longleftrightarrow> heard log \<or> handled sg"
  by (auto simp: heard_def arrival_at_def)

lemma interrupted_snoc:
  "interrupted_by (log @ [arrival_at a sg]) \<longleftrightarrow> interrupted_by log \<or> handled sg \<and> undecided (app_pc a)"
  by (auto simp: interrupted_by_def arrival_at_def)

lemma delivered_flag:
  assumes "\<And>sg. inherited sg \<noteq> Interrupt_handler"
    and "deliver (install_interrupt_handlers inherited) sg i = Some flag"
  shows "flag \<longleftrightarrow> i \<or> handled sg"
  using assms(2) assms(1) [of sg]
  by (auto simp: deliver_def install_interrupt_handlers_def handle_interrupt_def handled_def
      split: disposition.splits if_splits)

lemma signal_log:
  assumes inv: "log_inv log a" and flag: "flag \<longleftrightarrow> app_interrupted a \<or> handled sg"
  shows "log_inv (log @ [arrival_at a sg]) (a\<lparr>app_interrupted := flag\<rparr>)"
  using inv flag unfolding log_inv_def heard_snoc interrupted_snoc by (auto intro: tallied_arrival)

lemma logged_run_log:
  assumes "logged_run opts s0 log s" and "app_pc (pg_client s0) = Looping"
    and "\<not> app_interrupted (pg_client s0)" and "\<not> app_flag (pg_client s0)"
  shows "log_inv log (pg_client s)"
  using assms(1)
proof (induction rule: logged_run.induct)
  case logged_start
  with assms(2-4) show ?case by (simp add: log_inv_def heard_def interrupted_by_def undecided_def tallied_def)
next
  case (logged_quiet log s t)
  then show ?case by (blast intro: quiet_step_log)
next
  case (logged_signal log s inherited sg flag)
  from signal_log [OF logged_signal(4) delivered_flag [OF logged_signal(2,3)]] show ?case by simp
qed

lemma logged_end:
  assumes "log_inv log a" and "app_final a"
  shows "app_flag a = interrupted_by log" and "last_submitted log (app_submitted a)"
  using assms by (auto simp: log_inv_def app_final_def undecided_def last_submitted_def tallied_def)

section \<open>The wall time\<close>

definition app_clock :: "app_program \<Rightarrow> time_point" where
  "app_clock s = clock (eng_pool (app_engine (pg_client s)))"

lemma program_step_cases:
  assumes "program_step opts s t"
  obtains (main) "main_step opts (pg_client s) = Some (pg_client t)"
  | (other) "app_pc (pg_client t) = app_pc (pg_client s)" "app_start (pg_client t) = app_start (pg_client s)"
      "app_wall (pg_client t) = app_wall (pg_client s)"
  using assms unfolding program_step_def
proof cases
  case client_go
  then show thesis
  proof cases
    case (client_main c)
    with main show thesis by simp
  next
    case (client_threads u)
    with other show thesis by (simp add: app_set_pool)
  qed
next
  case (client_env c)
  with other show thesis by (auto simp: signalled_def)
next
  case (client_tick now)
  with other show thesis by (simp add: app_set_pool)
next
  case (client_spurious i p p')
  with other show thesis by simp
qed

lemma main_step_start: "main_step opts a = Some b \<Longrightarrow> app_start b = app_start a"
  by (auto simp: main_step_def split: app_pc.splits if_splits option.splits)

lemma program_start: "(program_step opts)\<^sup>*\<^sup>* s t \<Longrightarrow> app_start (pg_client t) = app_start (pg_client s)"
proof (induction rule: rtranclp_induct)
  case (step t u)
  from step(2) show ?case
    by (cases rule: program_step_cases) (simp_all add: step.IH main_step_start)
qed simp

lemma finishing_step:
  assumes "main_step opts a = Some b" and "app_final b"
  shows "app_pc a = Stopping \<and> eng_idle 0 (app_engine a) \<and> app_engine b = app_engine a
     \<and> app_wall b = clock (eng_pool (app_engine a)) - app_start a"
  using assms by (auto simp: main_step_def app_final_def split: app_pc.splits if_splits option.splits)

lemma main_step_ends: "main_step opts a = Some b \<Longrightarrow> \<not> app_final a"
  by (auto simp: main_step_def app_final_def)

text \<open>The main thread at the moment at which the shutdown had returned and the clock was read.\<close>

lemma finished_from:
  assumes origin: "reach (program_init opts) (program_step opts) s0" "\<not> app_final (pg_client s0)"
    and run: "(program_step opts)\<^sup>*\<^sup>* s0 s" and fin: "app_final (pg_client s)"
  obtains x where "(program_step opts)\<^sup>*\<^sup>* s0 x" "(program_step opts)\<^sup>*\<^sup>* x s"
    "app_pc (pg_client x) = Stopping" "eng_idle 0 (app_engine (pg_client x))"
    "workers_joined (eng_pool (app_engine (pg_client x)))"
    "app_wall (pg_client s) = app_clock x - app_start (pg_client x)"
proof -
  let ?P = "\<lambda>t. app_final (pg_client t) \<and> app_wall (pg_client t) = app_wall (pg_client s)"
  have "reach (\<lambda>t. t = s0) (program_step opts) s0" by (simp add: reach_init)
  with run have here: "reach (\<lambda>t. t = s0) (program_step opts) s" by (rule reach_steps)
  have start: "\<not> ?P t" if "t = s0" for t using that origin(2) by simp
  have now: "?P s" using fin by simp
  obtain x y where x: "reach (\<lambda>t. t = s0) (program_step opts) x" "\<not> ?P x"
    and xy: "program_step opts x y" and y: "?P y" "(program_step opts)\<^sup>*\<^sup>* y s"
    by (rule reach_crossing [where P = ?P, OF here now start])
  have s0x: "(program_step opts)\<^sup>*\<^sup>* s0 x" using reach_origin [OF x(1)] by blast
  then have rx: "reach (program_init opts) (program_step opts) x" using origin(1) by (rule reach_steps)
  have step: "main_step opts (pg_client x) = Some (pg_client y)"
    using xy by (cases rule: program_step_cases) (use x(2) y(1) in \<open>simp_all add: app_final_def\<close>)
  have st: "app_pc (pg_client x) = Stopping" "eng_idle 0 (app_engine (pg_client x))"
      "app_engine (pg_client y) = app_engine (pg_client x)"
      "app_wall (pg_client y) = app_clock x - app_start (pg_client x)"
    using finishing_step [OF step] y(1) by (simp_all add: app_clock_def)
  have inv: "client_inv app_engine with_engine (app_inv opts) outside y"
    using reach_step [OF rx xy] unfolding program_defs by (rule prog.program.inv_reach)
  have "app_inv opts (view_of app_engine with_engine y)" "app_final (view_of app_engine with_engine y)"
    using inv y(1) by (simp_all add: client_inv_def view_of_def app_set_pool app_final_def)
  from app_final_joined [OF this] have "p_joined (eng_pool (app_engine (pg_client y)))"
    by (simp add: view_of_def app_set_pool)
  moreover have "(program_step opts)\<^sup>*\<^sup>* x s" using xy y(2) by (rule converse_rtranclp_into_rtranclp)
  ultimately show thesis using that [OF s0x] st y(1) by (simp add: workers_joined_def)
qed

end
