(* ===== verification/Calendar.thy ===== *)
theory Calendar
  imports Options
begin

text \<open>
  The time stamp of a benchmark report, \<open>utc_now\<close> of \<open>benchmarks/bench_task_engine.cpp\<close>:
  \<open>std::gmtime\<close> on a count of seconds since the epoch, and \<open>std::put_time\<close> with the format
  \<open>%Y-%m-%dT%H:%M:%SZ\<close>. The reference is the formula by which POSIX defines the count of seconds
  from the broken-down time.
\<close>

section \<open>Broken-down time\<close>

text \<open>\<open>struct tm\<close>: years since 1900, months since January, days of the month from 1.\<close>

record tm =
  tm_year :: int
  tm_mon :: nat
  tm_mday :: nat
  tm_hour :: nat
  tm_min :: nat
  tm_sec :: nat

definition leap :: "int \<Rightarrow> bool" where
  "leap y \<longleftrightarrow> y mod 4 = 0 \<and> y mod 100 \<noteq> 0 \<or> y mod 400 = 0"

definition year_days :: "int \<Rightarrow> nat" where
  "year_days y = (if leap y then 366 else 365)"

definition month_lengths :: "int \<Rightarrow> nat list" where
  "month_lengths y = [31, if leap y then 29 else 28, 31, 30, 31, 30, 31, 31, 30, 31, 30, 31]"

text \<open>The year a day belongs to and its number in that year, and likewise for months.\<close>

function year_loop :: "int \<Rightarrow> nat \<Rightarrow> int \<times> nat" where
  "year_loop y d = (if d < year_days y then (y, d) else year_loop (y + 1) (d - year_days y))"
  by pat_completeness auto
termination
  by (relation "measure snd") (auto simp: year_days_def split: if_splits)

declare year_loop.simps [simp del]

fun month_loop :: "nat list \<Rightarrow> nat \<Rightarrow> nat \<times> nat" where
  "month_loop [] d = (0, d)"
| "month_loop (m # ms) d = (if d < m then (0, d) else apfst Suc (month_loop ms (d - m)))"

text \<open>Four centuries have 146097 days, whatever year they start with.\<close>

definition gmtime :: "int \<Rightarrow> tm" where
  "gmtime t =
     (let days = t div 86400;
          rest = nat (t mod 86400);
          (y, yday) = year_loop 1970 (nat (days mod 146097));
          year = y + 400 * (days div 146097);
          (mon, mday) = month_loop (month_lengths year) yday
      in \<lparr>tm_year = year - 1900, tm_mon = mon, tm_mday = Suc mday, tm_hour = rest div 3600,
          tm_min = rest div 60 mod 60, tm_sec = rest mod 60\<rparr>)"

definition two_digits :: "nat \<Rightarrow> string" where
  "two_digits n = (if n < 10 then ''0'' @ decimal n else decimal n)"

definition put_year :: "int \<Rightarrow> string" where
  "put_year i = (if i < 0 then ''-'' else '''') @ decimal (nat \<bar>i\<bar>)"

definition utc_now :: "int \<Rightarrow> string" where
  "utc_now now =
     (let tm = gmtime now
      in put_year (tm_year tm + 1900) @ ''-'' @ two_digits (tm_mon tm + 1) @ ''-'' @ two_digits (tm_mday tm)
         @ ''T'' @ two_digits (tm_hour tm) @ '':'' @ two_digits (tm_min tm) @ '':'' @ two_digits (tm_sec tm) @ ''Z'')"

section \<open>The reference\<close>

text \<open>POSIX, seconds since the epoch: the leap days before a year, and the seconds of a broken-down time.\<close>

definition tm_yday :: "tm \<Rightarrow> nat" where
  "tm_yday tm = sum_list (take (tm_mon tm) (month_lengths (tm_year tm + 1900))) + (tm_mday tm - 1)"

definition posix_days :: "int \<Rightarrow> int" where
  "posix_days y = (y - 70) * 365 + (y - 69) div 4 - (y - 1) div 100 + (y + 299) div 400"

definition posix_seconds :: "tm \<Rightarrow> int" where
  "posix_seconds tm = int (tm_sec tm) + int (tm_min tm) * 60 + int (tm_hour tm) * 3600
     + int (tm_yday tm) * 86400 + posix_days (tm_year tm) * 86400"

lemma div_succ:
  assumes "0 < (n :: int)"
  shows "(x + 1) div n = x div n + (if (x + 1) mod n = 0 then 1 else 0)"
proof -
  let ?q = "x div n" and ?r = "x mod n"
  have x: "x = n * ?q + ?r" by simp
  have r: "0 \<le> ?r" "?r < n" using assms by simp_all
  show ?thesis
  proof (cases "?r + 1 = n")
    case True
    with x have "x + 1 = n * (?q + 1)" unfolding distrib_left by linarith
    then have "(x + 1) div n = ?q + 1" "(x + 1) mod n = 0" using assms by simp_all
    then show ?thesis by simp
  next
    case False
    have e: "x + 1 = n * ?q + (?r + 1)" using x by simp
    have b: "0 \<le> ?r + 1" "?r + 1 < n" using r False by simp_all
    have "(x + 1) div n = ?q" "(x + 1) mod n = ?r + 1"
      using int_div_pos_eq [OF e b] int_mod_pos_eq [OF e b] by simp_all
    with r show ?thesis by simp
  qed
qed

lemma leap_civil: "leap (y + 1900) \<longleftrightarrow> y mod 4 = 0 \<and> y mod 100 \<noteq> 0 \<or> (y + 300) mod 400 = 0"
proof -
  have "(y + 475 * 4) mod 4 = y mod 4" "(y + 19 * 100) mod 100 = y mod 100"
    "((y + 300) + 4 * 400) mod 400 = (y + 300) mod 400" by (rule mod_mult_self1)+
  then show ?thesis by (simp add: leap_def add.commute)
qed

lemma mods_chain: "(y + 300) mod 400 = 0 \<Longrightarrow> y mod 100 = 0" "y mod 100 = 0 \<Longrightarrow> y mod 4 = 0" for y :: int
proof -
  assume "(y + 300) mod 400 = 0"
  then obtain k where "y + 300 = 400 * k" by (auto elim: dvdE simp: mod_eq_0_iff_dvd)
  then have "y = 100 * (4 * k - 3)" by simp
  then show "y mod 100 = 0" by (metis mod_mult_self1_is_0)
next
  assume "y mod 100 = 0"
  then obtain k where "y = 100 * k" by (auto elim: dvdE simp: mod_eq_0_iff_dvd)
  then have "y = 4 * (25 * k)" by simp
  then show "y mod 4 = 0" by (metis mod_mult_self1_is_0)
qed

lemma posix_days_Suc: "posix_days (y + 1) = posix_days y + int (year_days (y + 1900))"
proof -
  have "(y - 68) mod 4 = y mod 4" using mod_mult_self1 [of y "- 17" 4] by simp
  then have four: "(y - 68) div 4 = (y - 69) div 4 + (if y mod 4 = 0 then 1 else 0)"
    using div_succ [of 4 "y - 69"] by simp
  have hundred: "y div 100 = (y - 1) div 100 + (if y mod 100 = 0 then 1 else 0)"
    using div_succ [of 100 "y - 1"] by simp
  have more: "(y + 300) div 400 = (y + 299) div 400 + (if (y + 300) mod 400 = 0 then 1 else 0)"
    using div_succ [of 400 "y + 299"] by (simp add: add.commute)
  have sums: "(y - 69) * 365 + (p + a) - (q + b) + (u + c) = ((y - 70) * 365 + p - q + u) + 365 + a - b + c"
    for p q u a b c :: int by simp
  have "posix_days (y + 1) = (y - 69) * 365 + (y - 68) div 4 - y div 100 + (y + 300) div 400"
    by (simp add: posix_days_def add.commute)
  also have "\<dots> = posix_days y + 365 + (if y mod 4 = 0 then 1 else 0) - (if y mod 100 = 0 then 1 else 0)
      + (if (y + 300) mod 400 = 0 then 1 else 0)"
    unfolding four hundred more sums posix_days_def ..
  finally show ?thesis unfolding year_days_def leap_civil using mods_chain [of y] by simp
qed

lemma posix_days_period: "posix_days (y + 400 * k) = posix_days y + 146097 * k"
proof -
  have "((y - 69) + (100 * k) * 4) div 4 = 100 * k + (y - 69) div 4"
    "((y - 1) + (4 * k) * 100) div 100 = 4 * k + (y - 1) div 100"
    "((y + 299) + k * 400) div 400 = k + (y + 299) div 400"
    by (rule div_mult_self1; simp)+
  then show ?thesis by (simp add: posix_days_def algebra_simps)
qed

lemma leap_period: "leap (y + 400 * k) = leap y"
proof -
  have "(y + (100 * k) * 4) mod 4 = y mod 4" "(y + (4 * k) * 100) mod 100 = y mod 100"
    "(y + k * 400) mod 400 = y mod 400" by (rule mod_mult_self1)+
  then show ?thesis by (simp add: leap_def algebra_simps)
qed

lemma year_loop_days:
  "year_loop y d = (y', d') \<Longrightarrow>
     d' < year_days y' \<and> posix_days (y' - 1900) + int d' = posix_days (y - 1900) + int d"
proof (induction y d arbitrary: y' d' rule: year_loop.induct)
  case (1 y d)
  show ?case
  proof (cases "d < year_days y")
    case True
    with "1.prems" show ?thesis by (simp add: year_loop.simps [of y d])
  next
    case False
    with "1.prems" have "year_loop (y + 1) (d - year_days y) = (y', d')" by (simp add: year_loop.simps [of y d])
    from "1.IH" [OF False this] False posix_days_Suc [of "y - 1900"] show ?thesis by (simp add: algebra_simps)
  qed
qed

lemma month_loop_days:
  "month_loop ms d = (m, r) \<Longrightarrow> d < sum_list ms \<Longrightarrow>
     m < length ms \<and> r < ms ! m \<and> sum_list (take m ms) + r = d"
proof (induction ms d arbitrary: m r rule: month_loop.induct)
  case (2 l ms d)
  show ?case
  proof (cases "d < l")
    case False
    with "2.prems" obtain k where k: "month_loop ms (d - l) = (k, r)" "m = Suc k" by (auto simp: apfst_def map_prod_def split: prod.splits)
    have "d - l < sum_list ms" using False "2.prems"(2) by auto
    from "2.IH" [OF False k(1) this] k(2) False show ?thesis by auto
  qed (use "2.prems" in auto)
qed simp

lemma month_lengths_sum: "sum_list (month_lengths y) = year_days y"
  by (simp add: month_lengths_def year_days_def)

lemma clock_fields:
  assumes "0 \<le> (r :: int)" and "r < 86400"
  shows "int (nat r mod 60) + int (nat r div 60 mod 60) * 60 + int (nat r div 3600) * 3600 = r"
    and "nat r div 3600 < 24"
proof -
  have "nat r mod (60 * 60) = 60 * (nat r div 60 mod 60) + nat r mod 60" by (rule mod_mult2_eq)
  then have "nat r = nat r mod 60 + (nat r div 60 mod 60) * 60 + (nat r div 3600) * 3600"
    using div_mult_mod_eq [of "nat r" 3600] by simp
  then show "int (nat r mod 60) + int (nat r div 60 mod 60) * 60 + int (nat r div 3600) * 3600 = r"
    using assms(1) by linarith
  have "nat r < 24 * 3600" using assms by simp
  then show "nat r div 3600 < 24" by (simp add: less_mult_imp_div_less)
qed

lemma gmtime_posix:
  "posix_seconds (gmtime t) = t \<and> tm_yday (gmtime t) < year_days (tm_year (gmtime t) + 1900) \<and> tm_mon (gmtime t) < 12 \<and> 1 \<le> tm_mday (gmtime t)
     \<and> tm_mday (gmtime t) \<le> month_lengths (tm_year (gmtime t) + 1900) ! tm_mon (gmtime t)
     \<and> tm_hour (gmtime t) < 24 \<and> tm_min (gmtime t) < 60 \<and> tm_sec (gmtime t) < 60"
proof -
  define days where "days = t div 86400"
  define r where "r = t mod 86400"
  define doe where "doe = nat (days mod 146097)"
  have r: "0 \<le> r" "r < 86400" by (simp_all add: r_def)
  obtain y yd where y: "year_loop 1970 doe = (y, yd)" by fastforce
  define year where "year = y + 400 * (days div 146097)"
  obtain m md where m: "month_loop (month_lengths year) yd = (m, md)" by fastforce
  have g: "gmtime t = \<lparr>tm_year = year - 1900, tm_mon = m, tm_mday = Suc md, tm_hour = nat r div 3600,
      tm_min = nat r div 60 mod 60, tm_sec = nat r mod 60\<rparr>"
    using y m unfolding gmtime_def Let_def days_def r_def doe_def year_def by simp
  have yd: "yd < year_days y" "posix_days (y - 1900) + int yd = int doe"
    using year_loop_days [OF y] by (simp_all add: posix_days_def)
  have same: "year_days year = year_days y" by (simp add: year_days_def year_def leap_period)
  then have md: "m < 12" "md < month_lengths year ! m"
      "sum_list (take m (month_lengths year)) + md = yd"
    using month_loop_days [OF m] yd(1) by (simp_all add: month_lengths_sum) (simp add: month_lengths_def)
  have "posix_days (year - 1900) = posix_days (y - 1900) + 146097 * (days div 146097)"
    using posix_days_period [of "y - 1900" "days div 146097"] by (simp add: year_def algebra_simps)
  then have "posix_days (year - 1900) + int yd = int doe + 146097 * (days div 146097)" using yd(2) by simp
  then have "posix_days (year - 1900) + int yd = days" by (simp add: doe_def)
  then have "int yd * 86400 + posix_days (year - 1900) * 86400 = days * 86400" by (simp add: algebra_simps flip: distrib_right)
  moreover have "days * 86400 + r = t" by (simp add: days_def r_def)
  ultimately have "posix_seconds (gmtime t) = t"
    using clock_fields(1) [OF r] md(3) by (simp add: posix_seconds_def tm_yday_def g)
  with md clock_fields(2) [OF r] same yd(1) show ?thesis by (simp add: g tm_yday_def)
qed

section \<open>Reading a time stamp\<close>

text \<open>What a reader of the report makes of the twenty characters.\<close>

definition read_utc :: "string \<Rightarrow> tm" where
  "read_utc s =
     \<lparr>tm_year = int (digits_value (take 4 s)) - 1900, tm_mon = digits_value (take 2 (drop 5 s)) - 1,
      tm_mday = digits_value (take 2 (drop 8 s)), tm_hour = digits_value (take 2 (drop 11 s)),
      tm_min = digits_value (take 2 (drop 14 s)), tm_sec = digits_value (take 2 (drop 17 s))\<rparr>"

lemma decimal_length: "length (decimal n) = (if n < 10 then 1 else Suc (length (decimal (n div 10))))"
  by (subst decimal.simps) simp

lemma two_digits_facts:
  assumes "n < 100"
  shows "length (two_digits n) = 2" and "digits_value (two_digits n) = n"
proof -
  have "digits_value (CHR ''0'' # xs) = digits_value xs" for xs by (simp add: digits_value_def)
  then show "digits_value (two_digits n) = n" by (simp add: two_digits_def decimal_value)
  have "n div 10 < 10" using assms by (simp add: div_less_iff_less_mult)
  then show "length (two_digits n) = 2"
    by (simp add: two_digits_def decimal_length [of n] decimal_length [of "n div 10"])
qed

lemma decimal_four:
  assumes "1000 \<le> n" and "n < 10000"
  shows "length (decimal n) = 4"
proof -
  have "n div 10 div 10 div 10 < 10" "\<not> n div 10 div 10 < 10" "\<not> n div 10 < 10" "\<not> n < 10"
    using assms by (simp_all add: div_less_iff_less_mult)
  then show ?thesis
    by (simp add: decimal_length [of n] decimal_length [of "n div 10"] decimal_length [of "n div 10 div 10"]
        decimal_length [of "n div 10 div 10 div 10"] del: One_nat_def)
qed

lemma whole_days:
  "0 \<le> c \<Longrightarrow> c < 86400 \<Longrightarrow> t = c + x * 86400 \<Longrightarrow> 0 \<le> t \<Longrightarrow> 0 \<le> x"
  "0 \<le> c \<Longrightarrow> t = c + x * 86400 \<Longrightarrow> t < 253402300800 \<Longrightarrow> x < 2932897" for x t c :: int
  by linarith+

lemma posix_days_mono: "y \<le> z \<Longrightarrow> posix_days y \<le> posix_days z"
  by (induction z rule: int_ge_induct) (simp_all add: posix_days_Suc)

lemma gmtime_year:
  assumes "0 \<le> t" and "t < 253402300800"
  shows "1970 \<le> tm_year (gmtime t) + 1900 \<and> tm_year (gmtime t) + 1900 \<le> 9999"
proof -
  let ?y = "tm_year (gmtime t)" and ?d = "int (tm_yday (gmtime t))"
  note g = gmtime_posix [of t]
  have ends: "posix_days 70 = 0" "posix_days 8100 = 2932897" by (simp_all add: posix_days_def)
  define c where "c = int (tm_sec (gmtime t)) + int (tm_min (gmtime t)) * 60 + int (tm_hour (gmtime t)) * 3600"
  have c: "0 \<le> c" "c < 86400" using g by (auto simp: c_def)
  have t: "t = c + (?d + posix_days ?y) * 86400" using g by (simp add: posix_seconds_def c_def algebra_simps)
  have "?d < int (year_days (?y + 1900))" using g by simp
  then have next_year: "?d + posix_days ?y < posix_days (?y + 1)" by (simp add: posix_days_Suc)
  have "0 \<le> ?d + posix_days ?y" using whole_days(1) [OF c t assms(1)] .
  with next_year ends(1) have low: "posix_days 70 < posix_days (?y + 1)" by simp
  have "posix_days ?y < 2932897" using whole_days(2) [OF c(1) t assms(2)] by simp
  then have high: "posix_days ?y < posix_days 8100" by (simp add: ends(2))
  from low high posix_days_mono [of "?y + 1" 70] posix_days_mono [of 8100 ?y] show ?thesis by linarith
qed

lemma month_lengths_le:
  assumes "k < 12"
  shows "month_lengths z ! k \<le> 31"
proof -
  have "\<forall>x \<in> set (month_lengths z). x \<le> 31" by (simp add: month_lengths_def)
  moreover have "k < length (month_lengths z)" using assms by (simp add: month_lengths_def)
  ultimately show ?thesis by (meson nth_mem)
qed

section \<open>Properties\<close>

text \<open>
  C37: The time stamp of a report is right: until the end of the year 9999 it has twenty characters,
  the fields it shows are those of a real date and time of day, and the number of seconds that POSIX
  assigns to them is the one the clock returned; leap years, centuries and four-century cycles included.
\<close>

theorem utc_now_reads_back:
  assumes "0 \<le> now" and "now < 253402300800"
  shows "length (utc_now now) = 20 \<and> read_utc (utc_now now) = gmtime now
     \<and> posix_seconds (read_utc (utc_now now)) = now
     \<and> tm_mon (gmtime now) < 12 \<and> 1 \<le> tm_mday (gmtime now)
     \<and> tm_mday (gmtime now) \<le> month_lengths (tm_year (gmtime now) + 1900) ! tm_mon (gmtime now)
     \<and> tm_hour (gmtime now) < 24 \<and> tm_min (gmtime now) < 60 \<and> tm_sec (gmtime now) < 60"
proof -
  note g = gmtime_posix [of now]
  note y = gmtime_year [OF assms]
  let ?y = "nat (tm_year (gmtime now) + 1900)"
  have "tm_mday (gmtime now) < 100"
    using g month_lengths_le [of "tm_mon (gmtime now)" "tm_year (gmtime now) + 1900"] by linarith
  then have small: "Suc (tm_mon (gmtime now)) < 100" "tm_mday (gmtime now) < 100" "tm_hour (gmtime now) < 100"
      "tm_min (gmtime now) < 100" "tm_sec (gmtime now) < 100"
    using g by simp_all
  note len = small [THEN two_digits_facts(1)] and val = small [THEN two_digits_facts(2)]
  have four: "1000 \<le> ?y" "?y < 10000" using y by linarith+
  have year: "put_year (tm_year (gmtime now) + 1900) = decimal ?y" "length (decimal ?y) = 4"
      "int (digits_value (decimal ?y)) - 1900 = tm_year (gmtime now)"
    using y decimal_four [OF four] by (simp_all add: put_year_def decimal_value)
  have stamp: "utc_now now = decimal ?y @ ''-'' @ two_digits (Suc (tm_mon (gmtime now))) @ ''-'' @ two_digits (tm_mday (gmtime now))
      @ ''T'' @ two_digits (tm_hour (gmtime now)) @ '':'' @ two_digits (tm_min (gmtime now)) @ '':''
      @ two_digits (tm_sec (gmtime now)) @ ''Z''"
    by (simp add: utc_now_def Let_def year(1))
  have "read_utc (utc_now now) = gmtime now"
    by (rule tm.equality) (simp_all add: read_utc_def stamp len val year(2,3) del: decimal.simps)
  moreover have "length (utc_now now) = 20" by (simp add: stamp len year(2))
  ultimately show ?thesis using g by simp
qed

text \<open>The last second of February in a leap year that is a multiple of 400.\<close>

theorem utc_now_reads_back_witness:
  "read_utc (utc_now 951868799)
     = \<lparr>tm_year = 100, tm_mon = 1, tm_mday = 29, tm_hour = 23, tm_min = 59, tm_sec = 59\<rparr>
   \<and> length (utc_now 951868799) = 20 \<and> posix_seconds (read_utc (utc_now 951868799)) = 951868799"
proof -
  have date: "gmtime 951868799 = \<lparr>tm_year = 100, tm_mon = 1, tm_mday = 29, tm_hour = 23, tm_min = 59, tm_sec = 59\<rparr>"
    by (simp add: gmtime_def year_loop.simps year_days_def leap_def month_lengths_def)
  have "0 \<le> (951868799 :: int)" "951868799 < (253402300800 :: int)" by simp_all
  from utc_now_reads_back [OF this] date show ?thesis by metis
qed

end
