(* ===== verification/Benchmark.thy ===== *)
theory Benchmark
  imports Complex_Main Batch Tasks Console Calendar
begin

text \<open>
  The benchmark program \<open>benchmarks/bench_task_engine.cpp\<close>: the fixed matrix of profiles and
  worker counts, one timed run of the engine (\<open>measure_once\<close>, the second client of the engine
  beside the application), the repetitions of a configuration, the CSV table with its comment
  lines, and \<open>main\<close> with its refusals and exit codes. Strings that the build or the compiler
  supplies, the contents of the files it looks into and the time of day are parameters, collected
  in the record \<open>host\<close>.
\<close>

section \<open>Floating point\<close>

text \<open>The value of a double, its order, and the operations that the report did not need.\<close>

definition value_of :: "double \<Rightarrow> rat" where
  "value_of x = of_nat (fst x) / of_nat (snd x)"

definition double_mul :: "double \<Rightarrow> double \<Rightarrow> double" where
  "double_mul x y = to_double (fst x * fst y) (snd x * snd y)"

definition double_zero :: double where
  "double_zero = (0, 1)"

definition is_positive :: "double \<Rightarrow> bool" where
  "is_positive x \<longleftrightarrow> 0 < value_of x"

text \<open>The minimum and maximum of a vector; dereferencing the end of an empty one is undefined.\<close>

fun min_element :: "double list \<Rightarrow> double option" where
  "min_element [] = None"
| "min_element (x # xs) =
     (case min_element xs of None \<Rightarrow> Some x | Some m \<Rightarrow> Some (if value_of m < value_of x then m else x))"

fun max_element :: "double list \<Rightarrow> double option" where
  "max_element [] = None"
| "max_element (x # xs) =
     (case max_element xs of None \<Rightarrow> Some x | Some m \<Rightarrow> Some (if value_of x < value_of m then m else x))"

section \<open>Plans\<close>

definition k_queue_capacity :: size_t where "k_queue_capacity = 1024"
definition k_exit_ok :: int where "k_exit_ok = 0"
definition k_exit_lost_work :: int where "k_exit_lost_work = 1"
definition k_exit_refused :: int where "k_exit_refused = 2"

record profile =
  pr_name :: string
  pr_tasks :: size_t
  pr_work :: u64
  pr_sleep :: int
  pr_workers :: "size_t list"

record plan =
  pl_warmups :: int
  pl_repetitions :: int
  pl_profiles :: "profile list"

record measurement =
  ms_wall_seconds :: double
  ms_submit_seconds :: double
  ms_throughput :: double
  ms_summary :: run_summary

text \<open>\<open>hardware_concurrency\<close> is the argument; the cast of \<open>unsigned\<close> to \<open>size_t\<close> widens.\<close>

definition worker_sweep :: "32 word \<Rightarrow> size_t list" where
  "worker_sweep detected =
     (let counts = [1, 2, 4, 8, 12, 16]
      in if detected \<noteq> 0 \<and> ucast detected \<notin> set counts then sort (counts @ [ucast detected]) else counts)"

definition make_profile :: "string \<Rightarrow> size_t \<Rightarrow> u64 \<Rightarrow> int \<Rightarrow> size_t list \<Rightarrow> profile" where
  "make_profile name tasks work sleep ws =
     \<lparr>pr_name = name, pr_tasks = tasks, pr_work = work, pr_sleep = sleep, pr_workers = ws\<rparr>"

definition measurement_plan :: "32 word \<Rightarrow> plan" where
  "measurement_plan detected =
     (let sweep = worker_sweep detected
      in \<lparr>pl_warmups = 1, pl_repetitions = 5,
          pl_profiles =
            [make_profile ''overhead-floor'' 200000 0 0 [1],
             make_profile ''cpu-heavy'' 4000 200000 0 sweep,
             make_profile ''lightweight'' 200000 200 0 sweep,
             make_profile ''blocking'' 400 0 2000 sweep]\<rparr>)"

definition smoke_plan :: plan where
  "smoke_plan =
     \<lparr>pl_warmups = 1, pl_repetitions = 2,
      pl_profiles =
        [make_profile ''overhead-floor'' 2000 0 0 [1],
         make_profile ''cpu-heavy'' 50 2000 0 [1, 2],
         make_profile ''lightweight'' 2000 10 0 [1, 2],
         make_profile ''blocking'' 20 0 100 [1, 2]]\<rparr>"

section \<open>Quantities\<close>

text \<open>
  Durations in seconds and in microseconds. The durations that occur are not negative, which the
  theory Benchmark\_Correct shows of every measurement.
\<close>

definition seconds :: "duration \<Rightarrow> double" where
  "seconds d = double_div (double_of_nat (nat d)) (double_of_nat (10 ^ 9))"

definition microseconds :: "duration \<Rightarrow> double" where
  "microseconds d = double_div (double_of_nat (nat d)) (double_of_nat 1000)"

definition median :: "double list \<Rightarrow> double" where
  "median values =
     (if values = [] then double_zero
      else sort_key value_of values ! unat (nearest_rank_index 50 (of_nat (length values))))"

section \<open>One measurement\<close>

datatype bench_task = Sleeping sleep_task | Computing compute_task

text \<open>The virtual call: \<open>sleep_for\<close> returns, and so does the computing loop.\<close>

fun bench_execute :: "bench_task \<Rightarrow> exec_outcome" where
  "bench_execute (Sleeping t) = Returned"
| "bench_execute (Computing t) = fst (compute_call t)"

definition build_task :: "profile \<Rightarrow> size_t \<Rightarrow> bench_task" where
  "build_task pr i =
     (if 0 < pr_sleep pr then Sleeping (make_sleep_task (pr_sleep pr))
      else Computing (make_compute_task (pr_work pr) i))"

definition build_tasks :: "profile \<Rightarrow> bench_task list" where
  "build_tasks pr = map (\<lambda>i. build_task pr (of_nat i)) [0..<unat (pr_tasks pr)]"

text \<open>The last lines of \<open>measure_once\<close>, after the shutdown has returned.\<close>

definition finish_measurement ::
    "profile \<Rightarrow> time_point \<Rightarrow> time_point \<Rightarrow> time_point \<Rightarrow> fault + run_summary \<Rightarrow> fault + measurement" where
  "finish_measurement pr start submit_end stop sm =
     (case sm of
        Inl f \<Rightarrow> Inl f
      | Inr s \<Rightarrow>
          let wall = seconds (stop - start)
          in Inr \<lparr>ms_wall_seconds = wall, ms_submit_seconds = seconds (submit_end - start),
                  ms_throughput = (if is_positive wall then double_div (double_of_nat (unat (pr_tasks pr))) wall
                                   else double_zero),
                  ms_summary = s\<rparr>)"

datatype bench_pc = Feeding | Passing | Closing | Measured "fault + measurement"

record bench =
  bn_engine :: "bench_task engine"
  bn_next :: nat
  bn_start :: time_point
  bn_submitted :: time_point
  bn_pc :: bench_pc

text \<open>
  The measuring thread: the loop over the tasks with the start of \<open>submit\<close>; inside \<open>submit\<close>;
  the shutdown; the end. Reading the clock belongs to the step that follows it.
\<close>

definition measure_once :: "profile \<Rightarrow> bench \<Rightarrow> bench option" where
  "measure_once pr b =
     (case bn_pc b of
        Feeding \<Rightarrow>
          if bn_next b < length (build_tasks pr) then
            Some (b\<lparr>bn_engine := take_id 0 (build_tasks pr ! bn_next b) (bn_engine b), bn_pc := Passing\<rparr>)
          else
            Some (b\<lparr>bn_submitted := clock (eng_pool (bn_engine b)),
                    bn_engine := (bn_engine b)\<lparr>eng_pool := set_caller 0 CClose (eng_pool (bn_engine b))\<rparr>,
                    bn_pc := Closing\<rparr>)
      | Passing \<Rightarrow>
          if eng_tickets (bn_engine b) ! 0 \<noteq> None then
            map_option (\<lambda>g. b\<lparr>bn_engine := g\<rparr>) (build_envelope 0 (bn_engine b))
          else if eng_idle 0 (bn_engine b) then Some (b\<lparr>bn_next := Suc (bn_next b), bn_pc := Feeding\<rparr>)
          else None
      | Closing \<Rightarrow>
          if eng_idle 0 (bn_engine b) then
            Some (b\<lparr>bn_pc := Measured (finish_measurement pr (bn_start b) (bn_submitted b)
                              (clock (eng_pool (bn_engine b))) (summary (bn_engine b)))\<rparr>)
          else None
      | Measured r \<Rightarrow> None)"

definition start_bench :: "bench_task engine \<Rightarrow> bench" where
  "start_bench g = \<lparr>bn_engine = g, bn_next = 0, bn_start = clock (eng_pool g),
     bn_submitted = clock (eng_pool g), bn_pc = Feeding\<rparr>"

definition bench_init :: "size_t \<Rightarrow> bench \<Rightarrow> bool" where
  "bench_init ws b \<longleftrightarrow>
     (\<exists>spawn now g. make_engine spawn ws k_queue_capacity 1 now = Inr g \<and> b = start_bench g)"

inductive bench_run :: "profile \<Rightarrow> bench \<Rightarrow> bench \<Rightarrow> bool" for pr where
  bench_main: "measure_once pr b = Some b' \<Longrightarrow> bench_run pr b b'"
| bench_pool: "pool_run bench_execute (eng_pool (bn_engine b)) s \<Longrightarrow>
     bench_run pr b (b\<lparr>bn_engine := (bn_engine b)\<lparr>eng_pool := s\<rparr>\<rparr>)"

inductive bench_step :: "profile \<Rightarrow> bench \<Rightarrow> bench \<Rightarrow> bool" for pr where
  bench_go: "bench_run pr b b' \<Longrightarrow> bench_step pr b b'"
| bench_tick: "clock (eng_pool (bn_engine b)) \<le> now \<Longrightarrow>
     bench_step pr b (b\<lparr>bn_engine := (bn_engine b)\<lparr>eng_pool := (eng_pool (bn_engine b))\<lparr>clock := now\<rparr>\<rparr>\<rparr>)"

text \<open>The possible results of a call: a refused construction of the engine, or a measurement.\<close>

inductive measures :: "profile \<Rightarrow> size_t \<Rightarrow> fault + measurement \<Rightarrow> bool" for pr ws where
  not_constructed: "(make_engine spawn ws k_queue_capacity 1 now :: fault + bench_task engine) = Inl f \<Longrightarrow>
     measures pr ws (Inl f)"
| measured: "reach (bench_init ws) (bench_step pr) b \<Longrightarrow> bn_pc b = Measured r \<Longrightarrow> measures pr ws r"

section \<open>A profile\<close>

text \<open>Consecutive calls; an exception leaves the loop.\<close>

fun repeated :: "(nat \<Rightarrow> fault + measurement) \<Rightarrow> nat \<Rightarrow> nat \<Rightarrow> fault + measurement list" where
  "repeated call k 0 = Inr []"
| "repeated call k (Suc n) =
     (case call k of
        Inl f \<Rightarrow> Inl f
      | Inr m \<Rightarrow> map_sum id ((#) m) (repeated call (Suc k) n))"

definition inum :: "int \<Rightarrow> string" where
  "inum i = (if i < 0 then ''-'' else '''') @ decimal (nat \<bar>i\<bar>)"

definition csv :: "string list \<Rightarrow> string" where
  "csv cells = concat (map (\<lambda>c. c @ '','') (butlast cells)) @ last cells @ nl"

definition print_header :: string where
  "print_header =
     ''profile,workers,tasks,work,sleep_us,repetitions,''
     @ ''throughput_median,throughput_min,throughput_max,speedup_vs_1_worker,''
     @ ''wall_ms_median,submit_ms_median,''
     @ ''queue_wait_p50_us,queue_wait_p95_us,exec_p50_us,exec_p95_us,''
     @ ''latency_p50_us,latency_p95_us,failed,rejected'' @ nl"

text \<open>The row of a configuration, from its measured repetitions.\<close>

definition speedup :: "double \<Rightarrow> double \<Rightarrow> double" where
  "speedup single median_throughput =
     (if is_positive single then double_div median_throughput single else double_zero)"

definition median_of :: "(run_summary \<Rightarrow> duration) \<Rightarrow> measurement list \<Rightarrow> double" where
  "median_of f ms = median (map (\<lambda>m. microseconds (f (ms_summary m))) ms)"

definition print_row :: "plan \<Rightarrow> profile \<Rightarrow> size_t \<Rightarrow> double \<Rightarrow> measurement list \<Rightarrow> (double \<times> double) \<Rightarrow> string" where
  "print_row plan pr ws single ms bounds =
     csv [pr_name pr, num ws, num (pr_tasks pr), num (pr_work pr), inum (pr_sleep pr), inum (pl_repetitions plan),
          fixed 0 (median (map ms_throughput ms)), fixed 0 (fst bounds), fixed 0 (snd bounds),
          fixed 2 (speedup single (median (map ms_throughput ms))),
          fixed 3 (median (map (\<lambda>m. double_mul (ms_wall_seconds m) (double_of_nat 1000)) ms)),
          fixed 3 (median (map (\<lambda>m. double_mul (ms_submit_seconds m) (double_of_nat 1000)) ms)),
          fixed 3 (median_of (ds_p50 \<circ> rs_queue_wait) ms), fixed 3 (median_of (ds_p95 \<circ> rs_queue_wait) ms),
          fixed 3 (median_of (ds_p50 \<circ> rs_execution_time) ms), fixed 3 (median_of (ds_p95 \<circ> rs_execution_time) ms),
          fixed 3 (median_of (ds_p50 \<circ> rs_total_latency) ms), fixed 3 (median_of (ds_p95 \<circ> rs_total_latency) ms),
          num (sum_list (map (rs_failed \<circ> ms_summary) ms)), num (sum_list (map (rs_rejected \<circ> ms_summary) ms))]"

definition bounds_of :: "double list \<Rightarrow> fault + double \<times> double" where
  "bounds_of xs =
     (case (min_element xs, max_element xs) of (Some lo, Some hi) \<Rightarrow> Inr (lo, hi) | _ \<Rightarrow> Inl Past_the_end)"

text \<open>
  \<open>run_profile\<close>: what it writes to the two streams, and the number of lost tasks or the exception
  that leaves it. \<open>call w k\<close> is the result of the \<open>k\<close>-th call of \<open>measure_once\<close> with
  \<open>w\<close> workers.
\<close>

fun run_profile ::
    "plan \<Rightarrow> profile \<Rightarrow> (size_t \<Rightarrow> nat \<Rightarrow> fault + measurement) \<Rightarrow> size_t list \<Rightarrow> double \<Rightarrow> size_t \<Rightarrow>
     string \<times> string \<times> (fault + size_t)" where
  "run_profile plan pr call [] single lost = ('''', '''', Inr lost)"
| "run_profile plan pr call (w # ws) single lost =
     (let progress = ''  '' @ pr_name pr @ '' workers='' @ num w @ '' ...'';
          warmups = nat (pl_warmups plan)
      in case repeated (call w) 0 warmups of
           Inl f \<Rightarrow> ('''', progress, Inl f)
         | Inr _ \<Rightarrow>
             (case repeated (call w) warmups (nat (pl_repetitions plan)) of
                Inl f \<Rightarrow> ('''', progress, Inl f)
              | Inr ms \<Rightarrow>
                  let middle = median (map ms_throughput ms);
                      single' = (if w = 1 then middle else single)
                  in case bounds_of (map ms_throughput ms) of
                       Inl f \<Rightarrow> ('''', progress, Inl f)
                     | Inr bounds \<Rightarrow>
                         let (out, err, r) = run_profile plan pr call ws single'
                               (lost + sum_list (map (rs_failed \<circ> ms_summary) ms)
                                     + sum_list (map (rs_rejected \<circ> ms_summary) ms))
                         in (print_row plan pr w single' ms bounds @ out,
                             progress @ '' '' @ fixed 0 middle @ '' tasks/s'' @ nl @ err, r)))"

section \<open>The environment\<close>

text \<open>The predefined macros of the compiler the program was built with, and what is printed of them.\<close>

datatype compiler = Clang string | Gnu string | Other_compiler

fun compiler_identity :: "compiler \<Rightarrow> string" where
  "compiler_identity (Clang version) = ''clang '' @ version"
| "compiler_identity (Gnu version) = ''gcc '' @ version"
| "compiler_identity Other_compiler = ''unknown''"

text \<open>What the program finds: macros of the build, files of the system, and the value of \<open>std::time\<close>.\<close>

record host =
  h_version :: string
  h_build_type :: string
  h_sanitizer :: string
  h_flags :: string
  h_compiler :: compiler
  h_detected :: "32 word"
  h_cpuinfo :: string
  h_osrelease :: string
  h_os :: string
  h_time :: int

text \<open>\<open>std::getline\<close> until the end of the file; a file that cannot be opened counts as empty.\<close>

fun getlines :: "string \<Rightarrow> string list" where
  "getlines [] = []"
| "getlines (c # cs) =
     (let rest = getlines cs
      in if c = CHR 0x0A then [] # rest
         else case rest of [] \<Rightarrow> [[c]] | line # later \<Rightarrow> (c # line) # later)"

fun contains :: "string \<Rightarrow> string \<Rightarrow> bool" where
  "contains key [] \<longleftrightarrow> key = []"
| "contains key (c # cs) \<longleftrightarrow> take (length key) (c # cs) = key \<or> contains key cs"

definition first_line_containing :: "string \<Rightarrow> string \<Rightarrow> string" where
  "first_line_containing file key =
     (case filter (contains key) (getlines file) of [] \<Rightarrow> '''' | line # _ \<Rightarrow> line)"

definition read_first_line :: "string \<Rightarrow> string" where
  "read_first_line file =
     (let line = (case getlines file of [] \<Rightarrow> '''' | l # _ \<Rightarrow> l) in if line = '''' then ''unknown'' else line)"

definition is_blank :: "char \<Rightarrow> bool" where
  "is_blank c \<longleftrightarrow> c \<in> {CHR '' '', CHR 0x09, CHR 0x22}"

definition after_separator :: "string \<Rightarrow> char \<Rightarrow> string" where
  "after_separator line separator =
     (if separator \<notin> set line then ''unknown''
      else let val = tl (dropWhile (\<lambda>c. c \<noteq> separator) line);
               trimmed = rev (dropWhile is_blank (rev (dropWhile is_blank val)))
           in if trimmed = '''' then ''unknown'' else trimmed)"

definition print_environment :: "host \<Rightarrow> plan \<Rightarrow> bool \<Rightarrow> string" where
  "print_environment h plan smoke =
     (let kernel = read_first_line (h_osrelease h);
          wsl = contains ''microsoft'' kernel \<or> contains ''WSL'' kernel
      in ''# bench-task-engine '' @ h_version h @ nl
         @ (if smoke then ''# SMOKE RUN: proves the harness works end to end. Not a measurement.'' @ nl else '''')
         @ ''# methodology: '' @ inum (pl_warmups plan) @ '' warm-up run discarded, then '' @ inum (pl_repetitions plan)
         @ '' measured repetitions per configuration; median (min, max) reported'' @ nl
         @ ''# timed region: first submit to return of drain shutdown; task construction ''
         @ ''and engine/thread creation are setup and excluded'' @ nl
         @ ''# percentiles: nearest rank; latency columns are the median across repetitions ''
         @ ''of each repetition'' @ [CHR 0x27] @ ''s percentile'' @ nl
         @ ''# queue_capacity: '' @ num k_queue_capacity @ nl
         @ ''# submitters: 1'' @ nl
         @ ''# cpu: '' @ after_separator (first_line_containing (h_cpuinfo h) ''model name'') (CHR '':'') @ nl
         @ ''# logical_cpus: '' @ decimal (unat (h_detected h)) @ nl
         @ ''# kernel: '' @ kernel @ nl
         @ ''# os: '' @ after_separator (first_line_containing (h_os h) ''PRETTY_NAME'') (CHR ''='') @ nl
         @ ''# virtualisation: '' @ (if wsl then ''WSL2 (numbers are relative, not bare-metal)'' else ''no WSL marker detected'') @ nl
         @ ''# compiler: '' @ compiler_identity (h_compiler h) @ nl
         @ ''# build_type: '' @ h_build_type h @ nl
         @ ''# optimisation_flags: '' @ h_flags h @ nl
         @ ''# sanitizer: '' @ h_sanitizer h @ nl
         @ ''# utc_time: '' @ utc_now (h_time h) @ nl)"

section \<open>The program\<close>

definition bench_usage :: string where
  "bench_usage =
     ''bench-task-engine - repeatable worker-scaling benchmark for task-engine'' @ nl
     @ nl
     @ ''Usage:'' @ nl
     @ ''  bench-task-engine            run the full measurement matrix (Release only)'' @ nl
     @ ''  bench-task-engine --smoke    tiny matrix proving the harness runs; not a measurement'' @ nl
     @ ''  bench-task-engine --help     print this help'' @ nl
     @ nl
     @ ''Writes CSV to stdout, with the environment in '' @ [CHR 0x27] @ ''#'' @ [CHR 0x27] @ '' comment lines, and progress'' @ nl
     @ ''to stderr. The matrix is fixed on purpose: see ARCHITECTURE.md section 8.'' @ nl
     @ nl
     @ ''Exit codes: 0 completed, 1 a task failed or was rejected, 2 refused or misused.'' @ nl"

datatype bench_command = Bench_help | Bench_unknown string | Bench_go bool

fun bench_args :: "string list \<Rightarrow> bool \<Rightarrow> bench_command" where
  "bench_args [] smoke = Bench_go smoke"
| "bench_args (arg # args) smoke =
     (if arg = ''--help'' \<or> arg = ''-h'' then Bench_help
      else if arg = ''--smoke'' then bench_args args True
      else Bench_unknown arg)"

fun run_profiles ::
    "plan \<Rightarrow> (profile \<Rightarrow> size_t \<Rightarrow> nat \<Rightarrow> fault + measurement) \<Rightarrow> profile list \<Rightarrow> size_t \<Rightarrow>
     string \<times> string \<times> (fault + size_t)" where
  "run_profiles plan call [] lost = ('''', '''', Inr lost)"
| "run_profiles plan call (pr # prs) lost =
     (case run_profile plan pr (call pr) (pr_workers pr) double_zero 0 of
        (out, err, Inl f) \<Rightarrow> (out, err, Inl f)
      | (out, err, Inr l) \<Rightarrow>
          let (out', err', r) = run_profiles plan call prs (lost + l) in (out @ out', err @ err', r))"

text \<open>
  \<open>main\<close>: the two streams, and the exit code or the exception that ends the program, since nothing
  catches it.
\<close>

definition bench_main ::
    "host \<Rightarrow> string list \<Rightarrow> (profile \<Rightarrow> size_t \<Rightarrow> nat \<Rightarrow> fault + measurement) \<Rightarrow> string \<times> string \<times> (fault + int)" where
  "bench_main h argv call =
     (case bench_args (drop 1 argv) False of
        Bench_help \<Rightarrow> (bench_usage, '''', Inr k_exit_ok)
      | Bench_unknown arg \<Rightarrow>
          ('''', ''bench-task-engine: unrecognised argument '' @ [CHR 0x27] @ arg @ [CHR 0x27] @ nl @ nl @ bench_usage,
           Inr k_exit_refused)
      | Bench_go smoke \<Rightarrow>
          if \<not> smoke \<and> h_sanitizer h \<noteq> ''off'' then
            ('''', ''bench-task-engine: refusing to measure a sanitizer build ('' @ h_sanitizer h
               @ ''). A sanitized timing is not a timing. Build with ''
               @ ''-DCMAKE_BUILD_TYPE=Release and no TASKENGINE_SANITIZER.'' @ nl, Inr k_exit_refused)
          else if \<not> smoke \<and> h_build_type h \<noteq> ''Release'' then
            ('''', ''bench-task-engine: refusing to measure a '' @ h_build_type h
               @ '' build. Benchmarks are taken from Release builds only.'' @ nl, Inr k_exit_refused)
          else
            let plan = (if smoke then smoke_plan else measurement_plan (h_detected h));
                (out, err, r) = run_profiles plan call (pl_profiles plan) 0
            in (print_environment h plan smoke @ print_header @ out,
                err @ (case r of Inr lost \<Rightarrow>
                         if lost \<noteq> 0 then ''bench-task-engine: '' @ num lost
                           @ '' tasks failed or were rejected; these results are not valid'' @ nl
                         else '''' | Inl f \<Rightarrow> ''''),
                map_sum id (\<lambda>lost. if lost \<noteq> 0 then k_exit_lost_work else k_exit_ok) r))"

end
