(* ===== verification/Benchmark_Correct.thy ===== *)
theory Benchmark_Correct
  imports Benchmark
begin

text \<open>
  A call of \<open>measure_once\<close> refines a batch. It always ends, and then every task of the profile was
  executed, none was lost, and its times are those of the timed region.
\<close>

section \<open>A measurement is a batch\<close>

fun bench_phase :: "bench_pc \<Rightarrow> batch_phase" where
  "bench_phase Feeding = Filling"
| "bench_phase Passing = Handing"
| "bench_phase Closing = Ending False"
| "bench_phase (Measured r) = Ended False"

definition bench_batch :: "bench \<Rightarrow> bench_task batch" where
  "bench_batch b = \<lparr>b_engine = bn_engine b, b_count = of_nat (bn_next b), b_phase = bench_phase (bn_pc b)\<rparr>"

text \<open>The instants are in order, and a result comes from the summary of the engine.\<close>

definition bench_inv :: "profile \<Rightarrow> bench \<Rightarrow> bool" where
  "bench_inv pr b \<longleftrightarrow> batch_inv bench_execute (build_task pr) (pr_tasks pr) (bench_batch b)
     \<and> bn_next b \<le> unat (pr_tasks pr)
     \<and> bn_start b \<le> bn_submitted b \<and> bn_submitted b \<le> clock (eng_pool (bn_engine b))
     \<and> (\<forall>r. bn_pc b = Measured r \<longrightarrow>
          (\<exists>stop \<ge> bn_submitted b.
             r = finish_measurement pr (bn_start b) (bn_submitted b) stop (summary (bn_engine b))))"

definition bench_final :: "bench \<Rightarrow> bool" where
  "bench_final b \<longleftrightarrow> (\<exists>r. bn_pc b = Measured r)"

lemma build_tasks_nth: "i < length (build_tasks pr) \<Longrightarrow> build_tasks pr ! i = build_task pr (of_nat i)"
  by (simp add: build_tasks_def)

lemma length_build_tasks [simp]: "length (build_tasks pr) = unat (pr_tasks pr)"
  by (simp add: build_tasks_def)

lemma count_less: "k \<le> unat n \<Longrightarrow> (of_nat k :: u64) < n \<longleftrightarrow> k < unat n"
  using unat_of_nat_u64 [OF unat_le_u64, of k n] by (simp add: word_less_nat_alt)

lemma measure_once_batch:
  assumes inv: "bench_inv pr b" and st: "measure_once pr b = Some b'"
  shows "batch_run bench_execute (build_task pr) (pr_tasks pr) (bench_batch b) (bench_batch b')"
proof (cases "bn_pc b")
  case Feeding
  have le: "bn_next b \<le> unat (pr_tasks pr)" using inv by (simp add: bench_inv_def)
  show ?thesis
  proof (cases "bn_next b < unat (pr_tasks pr)")
    case True
    with Feeding st count_less [OF le] batch_take [of "bench_batch b"] show ?thesis
      by (auto simp: measure_once_def bench_batch_def build_tasks_nth)
  next
    case False
    with le have "bn_next b = unat (pr_tasks pr)" by simp
    then have "of_nat (bn_next b) = pr_tasks pr" by simp
    with False Feeding st batch_stop [of "bench_batch b" False] show ?thesis
      by (auto simp: measure_once_def bench_batch_def)
  qed
next
  case Passing
  with st batch_build [of "bench_batch b"] batch_return [of "bench_batch b"] show ?thesis
    by (auto simp: measure_once_def bench_batch_def add.commute split: if_splits)
next
  case Closing
  with st batch_end [of "bench_batch b" False] show ?thesis
    by (auto simp: measure_once_def bench_batch_def split: if_splits)
next
  case (Measured r)
  with st show ?thesis by (simp add: measure_once_def)
qed

lemma bench_run_batch:
  assumes "bench_inv pr b" and "bench_run pr b b'"
  shows "batch_run bench_execute (build_task pr) (pr_tasks pr) (bench_batch b) (bench_batch b')"
  using assms(2)
proof cases
  case bench_main
  with assms(1) show ?thesis by (rule measure_once_batch)
next
  case (bench_pool s)
  then have "pool_run bench_execute (eng_pool (b_engine (bench_batch b))) s" by (simp add: bench_batch_def)
  from batch_pool [OF this] show ?thesis by (simp add: bench_pool(1) bench_batch_def)
qed

lemma bench_step_batch:
  assumes "bench_inv pr b" and "bench_step pr b b'"
  shows "batch_step bench_execute (build_task pr) (pr_tasks pr) (bench_batch b) (bench_batch b')"
  using assms(2)
proof cases
  case bench_go
  with bench_run_batch [OF assms(1)] show ?thesis by (intro batch_go)
next
  case (bench_tick now)
  with batch_tick [of "bench_batch b" now] show ?thesis by (simp add: bench_batch_def)
qed

lemma passing_below:
  assumes "bench_inv pr b" and "bn_pc b = Passing"
  shows "bn_next b < unat (pr_tasks pr)"
proof -
  have le: "bn_next b \<le> unat (pr_tasks pr)" using assms by (simp add: bench_inv_def)
  moreover have "(of_nat (bn_next b) :: u64) < pr_tasks pr"
    using assms by (simp add: bench_inv_def batch_inv_def phase_inv_def bench_batch_def)
  ultimately show ?thesis using count_less by blast
qed

lemma measure_once_kept:
  assumes inv: "bench_inv pr b" and st: "measure_once pr b = Some b'"
  shows "bn_next b' \<le> unat (pr_tasks pr)
     \<and> bn_start b' \<le> bn_submitted b' \<and> bn_submitted b' \<le> clock (eng_pool (bn_engine b'))
     \<and> (\<forall>r. bn_pc b' = Measured r \<longrightarrow>
          (\<exists>stop \<ge> bn_submitted b'.
             r = finish_measurement pr (bn_start b') (bn_submitted b') stop (summary (bn_engine b'))))"
proof (cases "bn_pc b")
  case Feeding
  with inv st show ?thesis by (auto simp: measure_once_def take_id_def bench_inv_def split: if_splits)
next
  case Passing
  with passing_below [OF inv] inv st show ?thesis
    by (auto simp: measure_once_def bench_inv_def enter_submit_eq split: if_splits elim!: build_envelopeE)
next
  case Closing
  with inv st show ?thesis by (auto simp: measure_once_def bench_inv_def split: if_splits)
next
  case (Measured r)
  with st show ?thesis by (simp add: measure_once_def)
qed

lemma bench_inv_step:
  assumes inv: "bench_inv pr b" and st: "bench_step pr b b'"
  shows "bench_inv pr b'"
proof -
  have bi: "batch_inv bench_execute (build_task pr) (pr_tasks pr) (bench_batch b)" using inv by (simp add: bench_inv_def)
  note bi' = batch_inv_step [OF bi bench_step_batch [OF inv st]]
  from st show ?thesis
  proof cases
    case bench_go
    then show ?thesis
    proof cases
      case bench_main
      with bi' measure_once_kept [OF inv] show ?thesis unfolding bench_inv_def by blast
    next
      case (bench_pool s)
      have own: "own_inv (eng_pool (bn_engine b))" using batch_inv_pool(1) [OF bi] by (simp add: bench_batch_def)
      have "bn_pc b \<noteq> Measured r" for r
        using batch_ended_facts(5) [OF bi, of False] bench_pool(2) by (auto simp: bench_batch_def)
      with bi' inv bench_pool pool_run_frame(1) [OF own bench_pool(2)] show ?thesis by (auto simp: bench_inv_def)
    qed
  next
    case (bench_tick now)
    have "summary (bn_engine b') = summary (bn_engine b)"
      by (simp add: bench_tick(1) summary_def collect_samples_def rejected_count_def workers_joined_def)
    with bi' inv bench_tick show ?thesis by (auto simp: bench_inv_def)
  qed
qed

lemma bench_init_batch: "bench_init ws b \<Longrightarrow> batch_init (bench_batch b)"
  by (clarsimp simp: bench_init_def batch_init_def bench_batch_def start_bench_def) blast

lemma bench_progress:
  assumes inv: "bench_inv pr b" and "\<not> bench_final b"
  shows "\<exists>b'. bench_run pr b b'"
proof -
  have bi: "batch_inv bench_execute (build_task pr) (pr_tasks pr) (bench_batch b)" using inv by (simp add: bench_inv_def)
  show ?thesis
  proof (cases "b_caller (bench_batch b) = CIdle")
    case False
    with batch_busy [OF bi] bench_pool show ?thesis by (metis bench_batch_def batch.select_convs(1))
  next
    case True
    have "measure_once pr b \<noteq> None"
      using batch_handing [OF bi _ True] batch_ending [OF bi _ True] assms(2)
      by (cases "bn_pc b") (auto simp: measure_once_def bench_batch_def bench_final_def elim: build_envelopeE)
    then show ?thesis using bench_main by blast
  qed
qed

text \<open>There are no invisible steps, so the weight is that of the batch.\<close>

interpretation bench: terminating_refinement "bench_init ws" "bench_step pr" "bench_inv pr"
  batch_init "batch_step bench_execute (build_task pr) (pr_tasks pr)" bench_batch
  "bench_run pr" "batch_weight (pr_tasks pr)" "\<lambda>_. 0" 0 bench_final for ws pr
proof
  show "bench_inv pr b" if "bench_init ws b" for b
    using batch_inv_init [OF bench_init_batch [OF that]] that
    by (auto simp: bench_inv_def bench_init_def start_bench_def)
  show "bench_inv pr b'" if "bench_inv pr b" and "bench_step pr b b'" for b b'
    using that by (rule bench_inv_step)
  show "batch_init (bench_batch b)" if "bench_init ws b" for b using that by (rule bench_init_batch)
  show "bench_batch b' = bench_batch b \<or> batch_step bench_execute (build_task pr) (pr_tasks pr) (bench_batch b) (bench_batch b')"
    if "bench_inv pr b" and "bench_step pr b b'" for b b'
    using bench_step_batch [OF that] by (rule disjI2)
  show "bench_step pr b b'" if "bench_run pr b b'" for b b' using that by (rule bench_go)
  show "batch_weight (pr_tasks pr) (bench_batch b') < batch_weight (pr_tasks pr) (bench_batch b)
      \<or> bench_batch b' = bench_batch b \<and> (0 :: nat) < 0"
    if "bench_inv pr b" and "bench_run pr b b'" for b b'
    using bench_run_batch [OF that] that(1) batch_run_decreases by (auto simp: bench_inv_def)
  show "\<exists>b'. bench_run pr b b'" if "bench_inv pr b" and "\<not> bench_final b" for b
    using that by (rule bench_progress)
qed simp

lemma bench_failures: "failures bench_execute (build_task pr) n = 0"
proof -
  have "bench_execute t = Returned" for t by (cases t) simp_all
  then show ?thesis by (simp add: failures_def)
qed

text \<open>What a finished call has measured.\<close>

definition lossless :: "profile \<Rightarrow> measurement \<Rightarrow> bool" where
  "lossless pr m \<longleftrightarrow> rs_total (ms_summary m) = pr_tasks pr \<and> rs_succeeded (ms_summary m) = pr_tasks pr
     \<and> rs_failed (ms_summary m) = 0 \<and> rs_rejected (ms_summary m) = 0"

lemma measured_complete:
  assumes inv: "bench_inv pr b" and pc: "bn_pc b = Measured r"
  obtains m stop where "r = Inr m" "lossless pr m" "bn_start b \<le> bn_submitted b" "bn_submitted b \<le> stop"
    "ms_wall_seconds m = seconds (stop - bn_start b)" "ms_submit_seconds m = seconds (bn_submitted b - bn_start b)"
    "\<And>st. st \<in> {rs_queue_wait (ms_summary m), rs_execution_time (ms_summary m), rs_total_latency (ms_summary m)} \<Longrightarrow>
       0 \<le> ds_p50 st \<and> 0 \<le> ds_p95 st"
proof -
  have bi: "batch_inv bench_execute (build_task pr) (pr_tasks pr) (bench_batch b)" using inv by (simp add: bench_inv_def)
  have ph: "b_phase (bench_batch b) = Ended False" "b_engine (bench_batch b) = bn_engine b"
    using pc by (simp_all add: bench_batch_def)
  obtain s where s: "summary (bn_engine b) = Inr s" "rs_total s = b_count (bench_batch b)"
      "rs_total s = rs_succeeded s + rs_failed s + rs_rejected s" "b_count (bench_batch b) = pr_tasks pr"
      "rs_rejected s = 0" "unat (rs_failed s) = 0"
    using batch_summary [OF bi ph(1)] ph(2) bench_failures by metis
  then have "rs_failed s = 0" by (simp add: unat_eq_zero)
  moreover note fin = batch_ended_facts [OF bi ph(1)]
  moreover have "issued (bn_engine b) < 2 ^ 64"
    using fin(4) unsigned_less [of "b_count (bench_batch b)", where ?'a = nat] ph(2) by simp
  moreover have "reach engine_init (engine_step bench_execute) (bn_engine b)" using bi ph(2) by (simp add: batch_inv_def)
  ultimately have "0 \<le> ds_p50 st \<and> 0 \<le> ds_p95 st"
    if "st \<in> {rs_queue_wait s, rs_execution_time s, rs_total_latency s}" for st
    using summary_durations [OF _ _ _ s(1) that] ph(2) by metis
  moreover obtain stop where "bn_submitted b \<le> stop"
      "r = finish_measurement pr (bn_start b) (bn_submitted b) stop (summary (bn_engine b))"
    using inv pc by (auto simp: bench_inv_def)
  moreover have "bn_start b \<le> bn_submitted b" using inv by (simp add: bench_inv_def)
  ultimately show thesis
    using that [of _ stop] s \<open>rs_failed s = 0\<close> by (simp add: finish_measurement_def Let_def lossless_def)
qed

section \<open>Results of a call\<close>

lemma measures_Inl:
  assumes "measures pr ws (Inl f)" and "ws \<noteq> 0"
  shows "f = System_error"
  using assms(1)
proof cases
  case (not_constructed spawn now)
  with assms(2) show ?thesis
    by (auto simp: make_engine_def make_pool_eq make_queue_def k_queue_capacity_def split: if_splits sum.splits)
next
  case (measured b)
  with measured_complete [OF bench.inv_reach [OF measured(1)] measured(2)] show ?thesis by blast
qed

lemma measures_complete:
  assumes "measures pr ws (Inr m)"
  shows "lossless pr m"
  using assms
proof cases
  case (measured b)
  with measured_complete [OF bench.inv_reach [OF measured(1)] measured(2)] show ?thesis by blast
qed

lemma bench_constructed:
  assumes "ws \<noteq> 0"
  shows "\<exists>b. bench_init ws b"
proof -
  have "\<exists>g. (make_engine (\<lambda>_. True) ws k_queue_capacity 1 0 :: fault + bench_task engine) = Inr g"
    using assms by (simp add: make_engine_def make_pool_eq make_queue_def k_queue_capacity_def)
  then show ?thesis unfolding bench_init_def by blast
qed

lemma measures_exists:
  assumes "ws \<noteq> 0"
  shows "\<exists>m. measures pr ws (Inr m)"
proof -
  obtain b where "bench_init ws b" using bench_constructed [OF assms] by blast
  then have reach: "reach (bench_init ws) (bench_step pr) b" by (rule reach_init)
  from bench.run_reaches_final [OF bench.inv_reach [OF this]] obtain b' r where
    b': "(bench_run pr)\<^sup>*\<^sup>* b b'" "bn_pc b' = Measured r" "bench_inv pr b'" by (auto simp: bench_final_def)
  have "(bench_step pr)\<^sup>*\<^sup>* b b'" using b'(1) by (rule mono_rtranclp [rule_format, rotated]) (rule bench_go)
  then have "measures pr ws r" using reach b'(2) by (intro measured) (rule reach_steps)
  with measured_complete [OF b'(3,2)] show ?thesis by blast
qed

section \<open>A schedule\<close>

datatype bench_action = Bench_main | Bench_inside | Bench_worker nat | Bench_clock time_point

fun bench_act :: "profile \<Rightarrow> bench_action \<Rightarrow> bench \<Rightarrow> bench option" where
  "bench_act pr Bench_main b = measure_once pr b"
| "bench_act pr Bench_inside b =
     map_option (\<lambda>s. b\<lparr>bn_engine := (bn_engine b)\<lparr>eng_pool := s\<rparr>\<rparr>)
       (act bench_execute (Proceed 0) (eng_pool (bn_engine b)))"
| "bench_act pr (Bench_worker i) b =
     map_option (\<lambda>s. b\<lparr>bn_engine := (bn_engine b)\<lparr>eng_pool := s\<rparr>\<rparr>)
       (act bench_execute (Work i) (eng_pool (bn_engine b)))"
| "bench_act pr (Bench_clock now) b =
     (if clock (eng_pool (bn_engine b)) \<le> now then
        Some (b\<lparr>bn_engine := (bn_engine b)\<lparr>eng_pool := (eng_pool (bn_engine b))\<lparr>clock := now\<rparr>\<rparr>\<rparr>) else None)"

fun bench_acts :: "profile \<Rightarrow> bench_action list \<Rightarrow> bench \<Rightarrow> bench option" where
  "bench_acts pr [] b = Some b"
| "bench_acts pr (x # xs) b = (case bench_act pr x b of None \<Rightarrow> None | Some b' \<Rightarrow> bench_acts pr xs b')"

lemma bench_act_step: "bench_act pr x b = Some b' \<Longrightarrow> bench_step pr b b'"
  by (cases x) (auto split: if_splits intro: bench_step.intros bench_run.intros pool_run.intros)

lemma bench_acts_reach:
  "bench_acts pr xs b = Some b' \<Longrightarrow> reach init (bench_step pr) b \<Longrightarrow> reach init (bench_step pr) b'"
proof (induction xs arbitrary: b)
  case (Cons x xs)
  then obtain u where "bench_act pr x b = Some u" and "bench_acts pr xs u = Some b'"
    by (auto split: option.splits)
  with Cons bench_act_step reach_step show ?case by metis
qed simp

text \<open>One task, one worker: submission and execution, and the shutdown.\<close>

definition demo_profile :: profile where
  "demo_profile = make_profile ''demo'' 1 3 0 [1]"

definition demo_bench :: bench where
  "demo_bench = start_bench (start_engine
     ((empty_pool \<lparr>q_items = [], q_closed = False, q_capacity = 1024\<rparr> 1)\<lparr>p_joinable := [True]\<rparr>) 1 0)"

definition demo_trace :: "bench_action list" where
  "demo_trace = [Bench_main, Bench_main, Bench_inside, Bench_main, Bench_clock 4, Bench_main,
     Bench_worker 0, Bench_worker 0, Bench_worker 0, Bench_clock 9, Bench_worker 0, Bench_inside, Bench_worker 0,
     Bench_inside, Bench_inside, Bench_inside, Bench_inside, Bench_main]"

lemma demo_bench_init: "bench_init 1 demo_bench"
proof -
  have "make_engine (\<lambda>_. True) 1 k_queue_capacity 1 0 = Inr (start_engine
     ((empty_pool \<lparr>q_items = [], q_closed = False, q_capacity = 1024\<rparr> 1)\<lparr>p_joinable := [True]\<rparr>) 1 0)"
    by (simp add: make_engine_def make_pool_eq make_queue_def k_queue_capacity_def)
  then show ?thesis unfolding bench_init_def demo_bench_def by blast
qed

lemma demo_bench_reach: "reach (bench_init 1) (bench_step demo_profile) demo_bench"
  using demo_bench_init by (rule reach_init)

lemmas bench_run_simps =
  demo_bench_def demo_profile_def make_profile_def start_bench_def start_engine_def
  start_system_def empty_pool_def measure_once_def build_tasks_def build_task_def make_compute_task_def
  take_id_def build_envelope_def eng_idle_def run_def moved_from_def Let_def demo_run_simps

lemma demo_trace_runs:
  "\<exists>b r. bench_acts demo_profile demo_trace demo_bench = Some b \<and> bn_pc b = Measured r
     \<and> bn_start b = 0 \<and> bn_submitted b = 4"
  by (simp add: demo_trace_def bench_run_simps)

section \<open>Properties\<close>

text \<open>
  \<open>measure_once\<close> always returns: whatever the profile and the number of workers, under every
  schedule of the measuring thread and the workers only boundedly many steps remain, it cannot get
  stuck before it has its measurement, and it reaches that end.
\<close>

theorem measure_once_terminates:
  assumes "reach (bench_init ws) (bench_step pr) b"
  shows "(\<forall>n b'. (bench_run pr ^^ n) b b' \<longrightarrow> n \<le> batch_weight (pr_tasks pr) (bench_batch b))
     \<and> (\<forall>b'. (bench_run pr)\<^sup>*\<^sup>* b b' \<longrightarrow> (\<nexists>u. bench_run pr b' u) \<longrightarrow> (\<exists>m. bn_pc b' = Measured (Inr m)))
     \<and> (\<exists>b' m. (bench_run pr)\<^sup>*\<^sup>* b b' \<and> bn_pc b' = Measured (Inr m))"
proof -
  note inv = bench.inv_reach [OF assms]
  have ok: "\<exists>m. bn_pc b' = Measured (Inr m)" if "bench_final b'" "bench_inv pr b'" for b'
    using that measured_complete by (metis bench_final_def)
  have kept: "bench_inv pr b'" if "(bench_run pr)\<^sup>*\<^sup>* b b'" for b'
    using that inv by (induction rule: rtranclp_induct) (auto intro: bench_inv_step bench_go)
  have "n \<le> batch_weight (pr_tasks pr) (bench_batch b)" if "(bench_run pr ^^ n) b b'" for n b'
    using bench.run_bounded [OF inv that] by simp
  with bench.run_stuck_is_final [OF inv] bench.run_reaches_final [OF inv] ok kept show ?thesis by meson
qed

theorem measure_once_terminates_witness:
  "\<exists>b m. (bench_run demo_profile)\<^sup>*\<^sup>* demo_bench b \<and> bn_pc b = Measured (Inr m)"
  using measure_once_terminates [OF demo_bench_reach] by blast

text \<open>
  A measurement loses nothing and its times make sense: when \<open>measure_once\<close> has its result,
  every task of the profile was submitted and has succeeded, none failed or was rejected; the wall
  time runs from the start to the end of the shutdown and the submission time is a part of it; and
  no percentile of the summary is negative.
\<close>

theorem measurement_complete:
  assumes "reach (bench_init ws) (bench_step pr) b" and "bn_pc b = Measured r"
  shows "\<exists>m stop. r = Inr m \<and> rs_total (ms_summary m) = pr_tasks pr \<and> rs_succeeded (ms_summary m) = pr_tasks pr
     \<and> rs_failed (ms_summary m) = 0 \<and> rs_rejected (ms_summary m) = 0
     \<and> ms_wall_seconds m = seconds (stop - bn_start b) \<and> ms_submit_seconds m = seconds (bn_submitted b - bn_start b)
     \<and> bn_start b \<le> bn_submitted b \<and> bn_submitted b \<le> stop
     \<and> 0 \<le> ds_p50 (rs_queue_wait (ms_summary m)) \<and> 0 \<le> ds_p95 (rs_queue_wait (ms_summary m))
     \<and> 0 \<le> ds_p50 (rs_execution_time (ms_summary m)) \<and> 0 \<le> ds_p95 (rs_execution_time (ms_summary m))
     \<and> 0 \<le> ds_p50 (rs_total_latency (ms_summary m)) \<and> 0 \<le> ds_p95 (rs_total_latency (ms_summary m))"
  using measured_complete [OF bench.inv_reach [OF assms(1)] assms(2)] unfolding lossless_def
  by (metis insertCI)

theorem measurement_complete_witness:
  "\<exists>b m stop. bench_acts demo_profile demo_trace demo_bench = Some b \<and> bn_pc b = Measured (Inr m)
     \<and> rs_succeeded (ms_summary m) = 1 \<and> ms_submit_seconds m = seconds 4 \<and> ms_wall_seconds m = seconds stop \<and> 4 \<le> stop"
proof -
  from demo_trace_runs obtain b r where b: "bench_acts demo_profile demo_trace demo_bench = Some b"
      "bn_pc b = Measured r" "bn_start b = 0" "bn_submitted b = 4" by blast
  have "reach (bench_init 1) (bench_step demo_profile) b" using b(1) demo_bench_reach by (rule bench_acts_reach)
  from measurement_complete [OF this b(2)] b show ?thesis by (auto simp: demo_profile_def make_profile_def)
qed

end
