(* ===== verification/Benchmark_Threads.thy ===== *)
theory Benchmark_Threads
  imports Benchmark_Correct Client_Threads
begin

text \<open>
  A measurement with its locks: \<open>measure_once\<close> of \<open>benchmarks/bench_task_engine.cpp\<close> on top of the
  pool of Pool\_Threads, as the second client in the sense of Client\_Threads.
\<close>

section \<open>State and steps\<close>

type_synonym bench_program = "(bench, bench_task) program"

definition bench_with_engine :: "bench_task engine \<Rightarrow> bench \<Rightarrow> bench" where
  "bench_with_engine g b = b\<lparr>bn_engine := g\<rparr>"

text \<open>Nothing but the clock disturbs the measuring thread.\<close>

definition undisturbed :: "bench \<Rightarrow> bench \<Rightarrow> bool" where
  "undisturbed b b' \<longleftrightarrow> False"

definition measurement_init :: "size_t \<Rightarrow> bench_program \<Rightarrow> bool" where
  "measurement_init ws = client_init bn_engine (bench_init ws)"

definition measurement_run :: "profile \<Rightarrow> bench_program \<Rightarrow> bench_program \<Rightarrow> bool" where
  "measurement_run pr = client_run bench_execute bn_engine bench_with_engine (measure_once pr)"

definition measurement_step :: "profile \<Rightarrow> bench_program \<Rightarrow> bench_program \<Rightarrow> bool" where
  "measurement_step pr = client_step bench_execute bn_engine bench_with_engine (measure_once pr) undisturbed"

lemmas measurement_defs = measurement_init_def measurement_run_def measurement_step_def

section \<open>The measuring thread is a client\<close>

definition bench_outside :: "bench \<Rightarrow> bool" where
  "bench_outside b \<longleftrightarrow> bn_pc b = Feeding \<or> bench_final b \<or> bn_pc b = Passing \<and> eng_tickets (bn_engine b) ! 0 \<noteq> None"

lemma bench_set_pool: "set_pool bn_engine bench_with_engine p b = b\<lparr>bn_engine := (bn_engine b)\<lparr>eng_pool := p\<rparr>\<rparr>"
  by (simp add: set_pool_def bench_with_engine_def)

abbreviation bench_local :: "profile \<Rightarrow> bench \<Rightarrow> bench \<Rightarrow> bool" where
  "bench_local pr \<equiv> main_local bn_engine bench_with_engine (measure_once pr) bench_outside"

abbreviation bench_calls :: "profile \<Rightarrow> bench \<Rightarrow> bench \<Rightarrow> bool" where
  "bench_calls pr \<equiv> main_calls bn_engine bench_with_engine (measure_once pr) bench_outside"

lemma bench_feeding:
  assumes pc: "bn_pc b = Feeding" and idle: "idle 0 (eng_pool (bn_engine b))" and st: "measure_once pr b = Some b'"
  shows "bench_local pr b b' \<or> bench_calls pr b b'"
proof (cases "bn_next b < length (build_tasks pr)")
  case True
  with pc idle st have "bench_local pr b b'"
    by (auto simp: main_local_def bench_set_pool measure_once_def take_id_def idle_def)
  then show ?thesis ..
next
  case False
  with pc st have b': "b' = b\<lparr>bn_submitted := clock (eng_pool (bn_engine b)),
      bn_engine := (bn_engine b)\<lparr>eng_pool := begin_call Close_call (eng_pool (bn_engine b))\<rparr>, bn_pc := Closing\<rparr>"
    by (simp add: measure_once_def)
  have "bench_calls pr b b'"
    unfolding main_calls_def
    by (intro conjI exI [of _ Close_call])
       (use idle pc False in \<open>auto simp: b' bench_outside_def bench_final_def bench_set_pool measure_once_def agrees_frame\<close>)
  then show ?thesis ..
qed

lemma bench_passing:
  assumes pc: "bn_pc b = Passing" and len: "length (callers (eng_pool (bn_engine b))) = 1"
    "length (eng_tickets (bn_engine b)) = 1" "crashed (eng_pool (bn_engine b)) = None"
    and out: "bench_outside b \<Longrightarrow> callers (eng_pool (bn_engine b)) ! 0 = CIdle" and st: "measure_once pr b = Some b'"
  shows "bench_local pr b b' \<or> bench_calls pr b b'"
proof (cases "eng_tickets (bn_engine b) ! 0")
  case None
  then have idle: "eng_idle 0 (bn_engine b)" and b': "b' = b\<lparr>bn_next := Suc (bn_next b), bn_pc := Feeding\<rparr>"
    using st pc by (auto simp: measure_once_def split: if_splits)
  have "bench_local pr b b'"
    using None pc idle eng_idle_agrees [OF _ idle]
    by (auto simp: main_local_def bench_set_pool b' measure_once_def eng_idle_def idle_def)
  then show ?thesis ..
next
  case (Some ticket)
  then obtain i t where t: "eng_tickets (bn_engine b) ! 0 = Some (i, t)" by (cases ticket) simp
  have "bench_outside b" using pc t by (simp add: bench_outside_def)
  with out len have idle: "idle 0 (eng_pool (bn_engine b))" by (simp add: idle_def)
  have b': "b' = b\<lparr>bn_engine := (bn_engine b)\<lparr>eng_tickets := (eng_tickets (bn_engine b))[0 := None],
      eng_pool := begin_call (Submit_call i t) (eng_pool (bn_engine b))\<rparr>\<rparr>"
    using st pc t by (auto simp: measure_once_def build_envelope_def enter_submit_is)
  have "bench_calls pr b b'"
    unfolding main_calls_def
    by (intro conjI exI [of _ "Submit_call i t"])
       (use idle pc t len in \<open>auto simp: b' bench_outside_def bench_final_def bench_set_pool measure_once_def
          build_envelope_def enter_submit_is\<close>)
  then show ?thesis ..
qed

lemma bench_closing:
  assumes pc: "bn_pc b = Closing" and st: "measure_once pr b = Some b'"
  shows "bench_local pr b b'"
proof -
  have idle: "eng_idle 0 (bn_engine b)"
    and b': "b' = b\<lparr>bn_pc := Measured (finish_measurement pr (bn_start b) (bn_submitted b)
        (clock (eng_pool (bn_engine b))) (summary (bn_engine b)))\<rparr>"
    using st pc by (auto simp: measure_once_def split: if_splits)
  then show ?thesis
    using pc eng_idle_agrees [OF _ idle]
    by (auto simp: main_local_def bench_set_pool measure_once_def summary_agrees agrees_frame eng_idle_def idle_def)
qed

lemma bench_main_law:
  assumes len: "length (callers (eng_pool (bn_engine b))) = 1" "length (eng_tickets (bn_engine b)) = 1"
    "crashed (eng_pool (bn_engine b)) = None"
    and out: "bench_outside b \<Longrightarrow> callers (eng_pool (bn_engine b)) ! 0 = CIdle" and st: "measure_once pr b = Some b'"
  shows "bench_local pr b b' \<or> bench_calls pr b b'"
proof (cases "bn_pc b")
  case Feeding
  then have "idle 0 (eng_pool (bn_engine b))" using out len by (simp add: bench_outside_def idle_def)
  with Feeding st show ?thesis by (intro bench_feeding)
next
  case (Measured r)
  with st show ?thesis by (simp add: measure_once_def)
qed (use assms bench_passing bench_closing in blast)+

lemma bench_main_free:
  assumes "bench_inv pr (set_pool bn_engine bench_with_engine q b)" and view: "agrees (eng_pool (bn_engine b)) q"
    and idle: "idle 0 (eng_pool (bn_engine b))" and "\<not> bench_final b"
  shows "measure_once pr b \<noteq> None"
proof -
  let ?b = "set_pool bn_engine bench_with_engine q b"
  have bi: "batch_inv bench_execute (build_task pr) (pr_tasks pr) (bench_batch ?b)" using assms(1) by (simp add: bench_inv_def)
  then have "solo (bn_engine ?b)" by (simp add: batch_inv_def bench_batch_def)
  then have len: "length (eng_tickets (bn_engine b)) = 1" by (simp add: bench_set_pool solo_def)
  have "callers q ! 0 = CIdle" using agrees_idle [OF view idle] by (simp add: idle_def)
  then have none: "eng_tickets (bn_engine b) ! 0 = None" if "bn_pc b = Closing"
    using batch_ending [OF bi, of False] that by (simp add: bench_batch_def bench_set_pool eng_idle_def)
  show ?thesis
    using assms(4) idle none len
    by (cases "bn_pc b") (auto simp: measure_once_def bench_final_def eng_idle_def build_envelope_def enter_submit_is)
qed

lemma bench_final_joined:
  assumes "bench_inv pr b" and "bench_final b"
  shows "bench_outside b \<and> p_joined (eng_pool (bn_engine b))"
proof -
  have bi: "batch_inv bench_execute (build_task pr) (pr_tasks pr) (bench_batch b)" using assms(1) by (simp add: bench_inv_def)
  have "b_phase (bench_batch b) = Ended False" using assms(2) by (auto simp: bench_batch_def bench_final_def)
  from batch_ended_facts(2) [OF bi this] assms(2) show ?thesis
    by (simp add: bench_outside_def bench_batch_def workers_joined_def)
qed

lemma bench_run_weight:
  "bench_inv pr b \<Longrightarrow> bench_run pr b b' \<Longrightarrow>
   batch_weight (pr_tasks pr) (bench_batch b') < batch_weight (pr_tasks pr) (bench_batch b)"
  by (rule batch_run_decreases [OF _ bench_run_batch]) (simp_all add: bench_inv_def)

interpretation meas: threaded_client "bench_init ws" "bench_step pr" "bench_inv pr" "bench_run pr"
  "\<lambda>b. batch_weight (pr_tasks pr) (bench_batch b)" bench_final
  bench_execute bn_engine bench_with_engine "measure_once pr" undisturbed bench_outside for ws pr
proof
  show "engine_init (bn_engine b)" if "bench_init ws b" for b
    using that unfolding bench_init_def engine_init_def start_bench_def by fastforce
  show "solo (bn_engine b)" if "bench_inv pr b" for b using that by (simp add: bench_inv_def batch_inv_def bench_batch_def)
  show "bench_local pr b b' \<or> bench_calls pr b b'"
    if "length (callers (eng_pool (bn_engine b))) = 1" "length (eng_tickets (bn_engine b)) = 1"
      "crashed (eng_pool (bn_engine b)) = None" "bench_outside b \<Longrightarrow> callers (eng_pool (bn_engine b)) ! 0 = CIdle"
      "measure_once pr b = Some b'" for b b'
    using that by (rule bench_main_law)
  show "measure_once pr b \<noteq> None"
    if "bench_inv pr (set_pool bn_engine bench_with_engine q b)" "agrees (eng_pool (bn_engine b)) q"
      "idle 0 (eng_pool (bn_engine b))" "\<not> bench_final b" for b q
    using that by (rule bench_main_free)
  show "bench_outside b \<and> p_joined (eng_pool (bn_engine b))" if "bench_inv pr b" "bench_final b" for b
    using that by (rule bench_final_joined)
qed (auto simp: bench_with_engine_def bench_set_pool bench_outside_def bench_final_def bench_run_weight undisturbed_def
       intro: bench_go bench_main bench_pool bench_tick bench_progress)

section \<open>A measurement with its locks\<close>

definition demo_measuring :: bench_program where
  "demo_measuring = \<lparr>pg_client = demo_bench, pg_mutex = None, pg_pcs = [Idle, Idle]\<rparr>"

lemma demo_measuring_reach: "reach (measurement_init 1) (measurement_step demo_profile) demo_measuring"
proof (rule reach_init)
  show "measurement_init 1 demo_measuring"
    using demo_bench_init
    by (simp add: measurement_init_def client_init_def demo_measuring_def demo_bench_def start_bench_def start_engine_def
        start_system_def empty_pool_def pool.defs numeral_2_eq_2)
qed

text \<open>The task is submitted, the measuring thread closes the queue and waits, then the worker starts.\<close>

definition measuring_trace :: "nat option list" where
  "measuring_trace = [None, None, Some 1, Some 1, Some 1, Some 1, Some 1, Some 1, None, None, Some 1, Some 1, Some 1,
     Some 1, Some 1, Some 1, Some 1, Some 0, Some 0, Some 0, Some 0, Some 0, Some 0, Some 0, Some 0,
     Some 0, Some 0, Some 0, Some 0, Some 0, Some 0, Some 1, Some 1, Some 1, None]"

abbreviation measuring_acts :: "profile \<Rightarrow> nat option list \<Rightarrow> bench_program \<Rightarrow> bench_program option" where
  "measuring_acts pr \<equiv> client_acts bench_execute bn_engine bench_with_engine (measure_once pr)"

lemma measuring_trace_runs:
  "\<exists>s r. measuring_acts demo_profile measuring_trace demo_measuring = Some s \<and> bn_pc (pg_client s) = Measured r"
  by (simp add: measuring_trace_def demo_measuring_def threads_of_def with_threads_def set_pool_def bench_with_engine_def
      demo_threads_simps bench_run_simps)

section \<open>The timed region\<close>

definition bench_clock :: "bench_program \<Rightarrow> time_point" where
  "bench_clock s = clock (eng_pool (bn_engine (pg_client s)))"

text \<open>What the other threads and the clock leave alone.\<close>

lemma measurement_step_cases:
  assumes "measurement_step pr s t"
  obtains (main) "measure_once pr (pg_client s) = Some (pg_client t)"
  | (other) "bn_pc (pg_client t) = bn_pc (pg_client s)" "bn_start (pg_client t) = bn_start (pg_client s)"
      "bn_submitted (pg_client t) = bn_submitted (pg_client s)"
  using assms unfolding measurement_step_def
proof cases
  case client_go
  then show thesis
  proof cases
    case (client_main c)
    with main show thesis by simp
  next
    case (client_threads u)
    with other show thesis by (simp add: bench_set_pool)
  qed
next
  case (client_tick now)
  with other show thesis by (simp add: bench_set_pool)
next
  case (client_spurious i p p')
  with other show thesis by simp
qed (simp add: undisturbed_def)

lemma measure_once_start: "measure_once pr b = Some b' \<Longrightarrow> bn_start b' = bn_start b"
  by (auto simp: measure_once_def split: bench_pc.splits if_splits option.splits)

lemma measured_step:
  assumes "measure_once pr b = Some b'" and "bn_pc b' = Measured r"
  shows "bn_pc b = Closing \<and> eng_idle 0 (bn_engine b) \<and> bn_engine b' = bn_engine b
     \<and> r = finish_measurement pr (bn_start b) (bn_submitted b) (clock (eng_pool (bn_engine b)))
         (summary (bn_engine b))"
  using assms by (auto simp: measure_once_def split: bench_pc.splits if_splits option.splits)

lemma closing_step:
  assumes "measure_once pr b = Some b'" and "bn_pc b' = Closing"
  shows "bn_pc b = Feeding \<and> \<not> bn_next b < length (build_tasks pr)
     \<and> bn_submitted b' = clock (eng_pool (bn_engine b))"
  using assms by (auto simp: measure_once_def split: bench_pc.splits if_splits option.splits)

lemma measurement_start:
  "(measurement_step pr)\<^sup>*\<^sup>* s t \<Longrightarrow> bn_start (pg_client t) = bn_start (pg_client s)"
proof (induction rule: rtranclp_induct)
  case (step t u)
  from step(2) show ?case
    by (cases rule: measurement_step_cases) (simp_all add: step.IH measure_once_start)
qed simp

text \<open>The measuring thread at the moment at which it has its result.\<close>

lemma measured_from:
  assumes "reach (measurement_init ws) (measurement_step pr) s" and "bn_pc (pg_client s) = Measured r"
  obtains x where "reach (measurement_init ws) (measurement_step pr) x" "(measurement_step pr)\<^sup>*\<^sup>* x s"
    "bn_pc (pg_client x) = Closing" "eng_idle 0 (bn_engine (pg_client x))"
    "workers_joined (eng_pool (bn_engine (pg_client x)))"
    "\<forall>w \<in> set (workers (eng_pool (bn_engine (pg_client x)))). w = WExit"
    "r = finish_measurement pr (bn_start (pg_client x)) (bn_submitted (pg_client x)) (bench_clock x)
           (summary (bn_engine (pg_client x)))"
proof -
  have "bn_pc (pg_client x) \<noteq> Measured r" if "measurement_init ws x" for x
    using that by (auto simp: measurement_init_def client_init_def bench_init_def start_bench_def)
  with assms obtain x y where x: "reach (measurement_init ws) (measurement_step pr) x" "bn_pc (pg_client x) \<noteq> Measured r"
    and xy: "measurement_step pr x y" and y: "bn_pc (pg_client y) = Measured r" "(measurement_step pr)\<^sup>*\<^sup>* y s"
    by (rule reach_crossing [where P = "\<lambda>s. bn_pc (pg_client s) = Measured r"]) blast
  have "measure_once pr (pg_client x) = Some (pg_client y)"
    using xy by (cases rule: measurement_step_cases) (use x(2) y(1) in simp_all)
  then have st: "bn_pc (pg_client x) = Closing" "eng_idle 0 (bn_engine (pg_client x))"
      "bn_engine (pg_client y) = bn_engine (pg_client x)"
      "r = finish_measurement pr (bn_start (pg_client x)) (bn_submitted (pg_client x)) (bench_clock x)
         (summary (bn_engine (pg_client x)))"
    using measured_step [OF _ y(1)] by (simp_all add: bench_clock_def)
  have inv: "client_inv bn_engine bench_with_engine (bench_inv pr) bench_outside y"
    using reach_step [OF x(1) xy] unfolding measurement_defs by (rule meas.program.inv_reach)
  have fin: "bench_final (pg_client y)" using y(1) by (simp add: bench_final_def)
  have "bench_inv pr (view_of bn_engine bench_with_engine y)" "bench_final (view_of bn_engine bench_with_engine y)"
    using inv fin by (simp_all add: client_inv_def view_of_def bench_set_pool bench_final_def)
  from bench_final_joined [OF this] have "p_joined (eng_pool (bn_engine (pg_client y)))"
    by (simp add: view_of_def bench_set_pool)
  moreover note meas.client_end(3) [OF inv fin]
  moreover have "(measurement_step pr)\<^sup>*\<^sup>* x s" using xy y(2) by (rule converse_rtranclp_into_rtranclp)
  ultimately show thesis using that [OF x(1)] st by (simp add: workers_joined_def)
qed

text \<open>The moment at which the last submission has returned and the shutdown begins.\<close>

lemma closing_from:
  assumes "reach (measurement_init ws) (measurement_step pr) x" and "bn_pc (pg_client x) = Closing"
  obtains v where "reach (measurement_init ws) (measurement_step pr) v" "(measurement_step pr)\<^sup>*\<^sup>* v x"
    "bn_pc (pg_client v) = Feeding" "bn_next (pg_client v) = length (build_tasks pr)"
    "bn_submitted (pg_client x) = bench_clock v"
proof -
  let ?P = "\<lambda>s. bn_pc (pg_client s) = Closing \<and> bn_submitted (pg_client s) = bn_submitted (pg_client x)"
  have start: "\<not> ?P v" if "measurement_init ws v" for v
    using that by (auto simp: measurement_init_def client_init_def bench_init_def start_bench_def)
  have here: "?P x" using assms(2) by simp
  obtain v w where v: "reach (measurement_init ws) (measurement_step pr) v" "\<not> ?P v"
    and vw: "measurement_step pr v w" and w: "?P w" "(measurement_step pr)\<^sup>*\<^sup>* w x"
    by (rule reach_crossing [where P = ?P, OF assms(1) here start])
  have "measure_once pr (pg_client v) = Some (pg_client w)"
    using vw by (cases rule: measurement_step_cases) (use v(2) w(1) in simp_all)
  then have st: "bn_pc (pg_client v) = Feeding" "\<not> bn_next (pg_client v) < length (build_tasks pr)"
      "bn_submitted (pg_client w) = bench_clock v"
    using closing_step [of pr "pg_client v" "pg_client w"] w(1) by (simp_all add: bench_clock_def)
  have "client_inv bn_engine bench_with_engine (bench_inv pr) bench_outside v"
    using v(1) unfolding measurement_defs by (rule meas.program.inv_reach)
  then have "bn_next (pg_client v) \<le> unat (pr_tasks pr)"
    by (simp add: client_inv_def bench_inv_def view_of_def bench_set_pool)
  with st(2) have "bn_next (pg_client v) = length (build_tasks pr)" by (simp add: length_build_tasks)
  moreover have "(measurement_step pr)\<^sup>*\<^sup>* v x" using vw w(2) by (rule converse_rtranclp_into_rtranclp)
  ultimately show thesis using that [OF v(1)] st(1,3) w(1) by simp
qed

section \<open>Properties\<close>

text \<open>
  C26: A measurement with its locks terminates: from every reachable state of the measuring thread, the
  worker threads, the mutex and the condition variables, under every schedule, only finitely many steps
  remain; the measurement cannot get stuck before it has its result; and it reaches one.
\<close>

theorem measurement_with_locks_terminates:
  assumes "reach (measurement_init ws) (measurement_step pr) s"
  shows "(\<forall>n t. (measurement_run pr ^^ n) s t \<longrightarrow>
            n \<le> client_weight bn_engine bench_with_engine (\<lambda>b. batch_weight (pr_tasks pr) (bench_batch b)) s)
     \<and> (\<forall>t. (measurement_run pr)\<^sup>*\<^sup>* s t \<longrightarrow> (\<nexists>u. measurement_run pr t u) \<longrightarrow> (\<exists>r. bn_pc (pg_client t) = Measured r))
     \<and> (\<exists>t r. (measurement_run pr)\<^sup>*\<^sup>* s t \<and> bn_pc (pg_client t) = Measured r)"
proof -
  note inv = meas.program.inv_reach [OF assms [unfolded measurement_defs]]
  have "n \<le> client_weight bn_engine bench_with_engine (\<lambda>b. batch_weight (pr_tasks pr) (bench_batch b)) s"
    if "(measurement_run pr ^^ n) s t" for n t
    using meas.program_run.run_bounded [OF inv that [unfolded measurement_defs]] by simp
  then show ?thesis
    using meas.program_run.run_stuck_is_final [OF inv] meas.program_run.run_reaches_final [OF inv]
    unfolding bench_final_def measurement_defs by meson
qed

theorem measurement_with_locks_terminates_witness:
  "\<exists>t r. (measurement_run demo_profile)\<^sup>*\<^sup>* demo_measuring t \<and> bn_pc (pg_client t) = Measured r"
  using measurement_with_locks_terminates [OF demo_measuring_reach] by blast

text \<open>
  C24: A measurement loses nothing and its times are those of the timed region, also where its threads
  go through the locks of the code in any order. When \<open>measure_once\<close> has its result, the run has
  passed through three states: \<open>u\<close>, where the engine had just been built; \<open>v\<close>, where every task had
  been handed over and the shutdown was about to begin; and \<open>x\<close>, where the shutdown had returned, all
  workers joined and ended. The wall time is what the clock advanced from \<open>u\<close> to \<open>x\<close>, the submission
  time what it advanced from \<open>u\<close> to \<open>v\<close>. Every task of the profile has succeeded, none failed or was
  rejected, no percentile of the summary is negative, the mutex of the queue is free, and the second
  shutdown, by the destructor of the engine, returns at once and changes nothing.
\<close>

theorem measurement_with_locks_complete:
  assumes "reach (measurement_init ws) (measurement_step pr) s" and "bn_pc (pg_client s) = Measured r"
  shows "\<exists>m u v x. r = Inr m
     \<and> measurement_init ws u \<and> (measurement_step pr)\<^sup>*\<^sup>* u v \<and> (measurement_step pr)\<^sup>*\<^sup>* v x
     \<and> (measurement_step pr)\<^sup>*\<^sup>* x s
     \<and> bn_pc (pg_client v) = Feeding \<and> bn_next (pg_client v) = length (build_tasks pr)
     \<and> bn_pc (pg_client x) = Closing \<and> eng_idle 0 (bn_engine (pg_client x))
     \<and> workers_joined (eng_pool (bn_engine (pg_client x)))
     \<and> (\<forall>w \<in> set (workers (eng_pool (bn_engine (pg_client x)))). w = WExit)
     \<and> ms_wall_seconds m = seconds (bench_clock x - bench_clock u)
     \<and> ms_submit_seconds m = seconds (bench_clock v - bench_clock u)
     \<and> bench_clock u \<le> bench_clock v \<and> bench_clock v \<le> bench_clock x
     \<and> rs_total (ms_summary m) = pr_tasks pr \<and> rs_succeeded (ms_summary m) = pr_tasks pr
     \<and> rs_failed (ms_summary m) = 0 \<and> rs_rejected (ms_summary m) = 0
     \<and> 0 \<le> ds_p50 (rs_queue_wait (ms_summary m)) \<and> 0 \<le> ds_p95 (rs_queue_wait (ms_summary m))
     \<and> 0 \<le> ds_p50 (rs_execution_time (ms_summary m)) \<and> 0 \<le> ds_p95 (rs_execution_time (ms_summary m))
     \<and> 0 \<le> ds_p50 (rs_total_latency (ms_summary m)) \<and> 0 \<le> ds_p95 (rs_total_latency (ms_summary m))
     \<and> pg_mutex s = None \<and> (\<forall>w \<in> set (workers (eng_pool (bn_engine (pg_client s)))). w = WExit)
     \<and> acts bench_execute [Call_shutdown 0, Proceed 0, Proceed 0, Proceed 0] (eng_pool (bn_engine (pg_client s)))
         = Some (eng_pool (bn_engine (pg_client s)))"
proof -
  have inv: "client_inv bn_engine bench_with_engine (bench_inv pr) bench_outside s"
    using assms(1) unfolding measurement_defs by (rule meas.program.inv_reach)
  let ?b = "view_of bn_engine bench_with_engine s"
  have "bench_final (pg_client s)" using assms(2) by (simp add: bench_final_def)
  note rest = meas.client_end(1,3) [OF inv this] meas.client_destructor [OF inv this]
  have "bench_inv pr ?b" "bn_pc ?b = Measured r"
    using inv assms(2) by (simp_all add: client_inv_def view_of_def bench_set_pool)
  then obtain m where m: "r = Inr m" "lossless pr m"
      "\<And>st. st \<in> {rs_queue_wait (ms_summary m), rs_execution_time (ms_summary m), rs_total_latency (ms_summary m)} \<Longrightarrow>
         0 \<le> ds_p50 st \<and> 0 \<le> ds_p95 st"
    by (rule measured_complete) blast
  from measured_from [OF assms] obtain x where x: "reach (measurement_init ws) (measurement_step pr) x"
      "(measurement_step pr)\<^sup>*\<^sup>* x s" "bn_pc (pg_client x) = Closing" "eng_idle 0 (bn_engine (pg_client x))"
      "workers_joined (eng_pool (bn_engine (pg_client x)))"
      "\<forall>w \<in> set (workers (eng_pool (bn_engine (pg_client x)))). w = WExit"
    and r: "r = finish_measurement pr (bn_start (pg_client x)) (bn_submitted (pg_client x)) (bench_clock x)
           (summary (bn_engine (pg_client x)))" .
  from closing_from [OF x(1,3)] obtain v where v: "reach (measurement_init ws) (measurement_step pr) v"
      "(measurement_step pr)\<^sup>*\<^sup>* v x" "bn_pc (pg_client v) = Feeding"
      "bn_next (pg_client v) = length (build_tasks pr)" "bn_submitted (pg_client x) = bench_clock v" .
  from reach_origin [OF v(1)] obtain u where u: "measurement_init ws u" "(measurement_step pr)\<^sup>*\<^sup>* u v" by blast
  have "bn_start (pg_client u) = bench_clock u"
    using u(1) by (auto simp: measurement_init_def client_init_def bench_init_def start_bench_def bench_clock_def)
  then have start: "bn_start (pg_client x) = bench_clock u"
    using measurement_start [OF u(2)] measurement_start [OF v(2)] by simp
  have "client_inv bn_engine bench_with_engine (bench_inv pr) bench_outside x"
    using x(1) unfolding measurement_defs by (rule meas.program.inv_reach)
  then have order: "bench_clock u \<le> bench_clock v" "bench_clock v \<le> bench_clock x"
    using start v(5) by (simp_all add: client_inv_def bench_inv_def view_of_def bench_set_pool bench_clock_def)
  have times: "ms_wall_seconds m = seconds (bench_clock x - bench_clock u)"
      "ms_submit_seconds m = seconds (bench_clock v - bench_clock u)"
    using r m(1) start v(5)
    by (auto simp: finish_measurement_def Let_def split: sum.splits if_splits)
  show ?thesis
    using m(1) u v(2-4) x(2-6) times order m(2) m(3) rest unfolding lossless_def
    by (intro exI [of _ m] exI [of _ u] exI [of _ v] exI [of _ x]) simp
qed

theorem measurement_with_locks_complete_witness:
  "\<exists>s m. measuring_acts demo_profile measuring_trace demo_measuring = Some s \<and> bn_pc (pg_client s) = Measured (Inr m)
     \<and> rs_succeeded (ms_summary m) = 1 \<and> pg_mutex s = None"
proof -
  from measuring_trace_runs obtain s r where s: "measuring_acts demo_profile measuring_trace demo_measuring = Some s"
      "bn_pc (pg_client s) = Measured r" by blast
  have "reach (measurement_init 1) (measurement_step demo_profile) s"
    using client_acts_reach [OF s(1)] demo_measuring_reach unfolding measurement_defs by blast
  from measurement_with_locks_complete [OF this s(2)] s show ?thesis by (auto simp: demo_profile_def make_profile_def)
qed

end
