(* ===== verification/Benchmark_Report.thy ===== *)
theory Benchmark_Report
  imports Benchmark_Correct
begin

text \<open>
  The reporting side of the benchmark: medians and extreme values, the matrix, the CSV table, and
  the whole program.
\<close>

section \<open>Medians\<close>

lemma length_filter_sort_key: "length (filter P (sort_key f xs)) = length (filter P xs)"
  by (metis mset_filter mset_sort size_mset)

lemma median_index:
  assumes "values \<noteq> []" and "50 * length values + 99 < 2 ^ 64"
  shows "median values = sort_key value_of values ! rank_of 50 (length values)" and "rank_of 50 (length values) < length values"
proof -
  have "unat (of_nat (length values) :: u64) = length values" using assms(2) by simp
  with unat_nearest_rank [of 50 "of_nat (length values)"] assms(2)
  show "median values = sort_key value_of values ! rank_of 50 (length values)"
    using assms(1) by (simp add: median_def)
  show "rank_of 50 (length values) < length values" using assms(1) by (intro rank_of_le) simp
qed

lemma half_covered: "50 * n \<le> 100 * Suc k \<Longrightarrow> Suc k \<le> c \<Longrightarrow> n \<le> 2 * (c :: nat)"
proof -
  assume "50 * n \<le> 100 * Suc k" and "Suc k \<le> c"
  then have "50 * n \<le> 50 * (2 * c)" by simp
  then show ?thesis by simp
qed

lemma half_missed: "100 * k < 50 * n \<Longrightarrow> c \<le> k \<Longrightarrow> 2 * c < (n :: nat)"
proof -
  assume "100 * k < 50 * n" and "c \<le> k"
  then have "50 * (2 * c) < 50 * n" by simp
  then show ?thesis by simp
qed

lemma min_element_spec:
  "min_element xs = Some m \<Longrightarrow> m \<in> set xs \<and> (\<forall>x \<in> set xs. value_of m \<le> value_of x)"
proof (induction xs arbitrary: m)
  case (Cons x xs)
  then show ?case by (cases "min_element xs"; cases xs) (fastforce split: if_splits option.splits)+
qed simp

lemma max_element_spec:
  "max_element xs = Some m \<Longrightarrow> m \<in> set xs \<and> (\<forall>x \<in> set xs. value_of x \<le> value_of m)"
proof (induction xs arbitrary: m)
  case (Cons x xs)
  then show ?case by (cases "max_element xs"; cases xs) (fastforce split: if_splits option.splits)+
qed simp

lemma extreme_elements: "xs \<noteq> [] \<Longrightarrow> \<exists>lo hi. min_element xs = Some lo \<and> max_element xs = Some hi"
proof (induction xs)
  case (Cons x xs)
  then show ?case by (cases xs) (auto split: option.splits)
qed simp

section \<open>The matrix\<close>

lemma ucast_nonzero: "(w :: 32 word) \<noteq> 0 \<Longrightarrow> (ucast w :: u64) \<noteq> 0"
  by (metis unat_ucast_32 unat_0 unat_eq_zero)

definition base_counts :: "size_t list" where
  "base_counts = [1, 2, 4, 8, 12, 16]"

lemma base_counts: "sorted base_counts" "distinct base_counts" "set base_counts = {1, 2, 4, 8, 12, 16}"
  by (simp_all add: base_counts_def)

lemma sweep_eq:
  "worker_sweep detected =
     (if detected \<noteq> 0 \<and> ucast detected \<notin> set base_counts then sort (base_counts @ [ucast detected]) else base_counts)"
  by (simp only: worker_sweep_def Let_def base_counts_def)

lemma sweep_set:
  "set (worker_sweep detected) = {1, 2, 4, 8, 12, 16} \<union> (if detected = 0 then {} else {ucast detected})"
  unfolding base_counts(3) [symmetric] sweep_eq by auto

lemma sweep_sorted: "sorted (worker_sweep detected) \<and> distinct (worker_sweep detected)"
  unfolding sweep_eq using base_counts(1,2) by (simp add: distinct_sort)

lemma sweep_nonzero: "0 \<notin> set (worker_sweep detected)"
  using ucast_nonzero [of detected] by (auto simp: sweep_set)

lemma sweep_first: "\<exists>ws. worker_sweep detected = 1 # ws \<and> 1 \<notin> set ws"
proof (cases "worker_sweep detected")
  case Nil
  with sweep_set [of detected] show ?thesis by auto
next
  case (Cons w ws)
  have "1 \<in> set (worker_sweep detected)" by (simp add: sweep_set)
  then have "w \<le> 1" using sweep_sorted [of detected] by (auto simp: Cons)
  moreover have "w \<noteq> 0" using sweep_nonzero [of detected] by (auto simp: Cons)
  ultimately have "w = 1" by (metis word_le_less_eq word_less_1)
  with sweep_sorted [of detected] show ?thesis by (simp add: Cons)
qed

definition plan_ok :: "plan \<Rightarrow> bool" where
  "plan_ok plan \<longleftrightarrow> 0 < pl_repetitions plan
     \<and> (\<forall>pr \<in> set (pl_profiles plan). 0 \<notin> set (pr_workers pr) \<and> (\<exists>ws. pr_workers pr = 1 # ws \<and> 1 \<notin> set ws)
          \<and> CHR '','' \<notin> set (pr_name pr) \<and> CHR 0x0A \<notin> set (pr_name pr))"

lemma plans_ok: "plan_ok smoke_plan" "plan_ok (measurement_plan detected)"
  using sweep_nonzero [of detected] sweep_first [of detected]
  by (auto simp: plan_ok_def smoke_plan_def measurement_plan_def make_profile_def Let_def)

section \<open>Repetitions\<close>

lemma repeated_Inr: "repeated call k n = Inr ms \<Longrightarrow> length ms = n \<and> (\<forall>m \<in> set ms. \<exists>i. call i = Inr m)"
proof (induction n arbitrary: k ms)
  case (Suc n)
  then obtain m ms' where "call k = Inr m" "repeated call (Suc k) n = Inr ms'" "ms = m # ms'"
    by (cases "call k"; cases "repeated call (Suc k) n") auto
  with Suc.IH show ?case by auto
qed simp

lemma repeated_Inl: "repeated call k n = Inl f \<Longrightarrow> \<exists>i. call i = Inl f"
proof (induction n arbitrary: k)
  case (Suc n)
  then show ?case by (cases "call k"; cases "repeated call (Suc k) n") auto
qed simp

lemma bounds_of_nonempty: "xs \<noteq> [] \<Longrightarrow> \<exists>bs. bounds_of xs = Inr bs"
  using extreme_elements [of xs] by (auto simp: bounds_of_def)

text \<open>The measured repetitions of a configuration.\<close>

definition runs :: "plan \<Rightarrow> (size_t \<Rightarrow> nat \<Rightarrow> fault + measurement) \<Rightarrow> size_t \<Rightarrow> measurement list" where
  "runs plan call w = projr (repeated (call w) (nat (pl_warmups plan)) (nat (pl_repetitions plan)))"

definition row_of :: "plan \<Rightarrow> profile \<Rightarrow> (size_t \<Rightarrow> nat \<Rightarrow> fault + measurement) \<Rightarrow> double \<Rightarrow> size_t \<Rightarrow> string" where
  "row_of plan pr call single w =
     print_row plan pr w single (runs plan call w) (projr (bounds_of (map ms_throughput (runs plan call w))))"

definition base_throughput :: "plan \<Rightarrow> (size_t \<Rightarrow> nat \<Rightarrow> fault + measurement) \<Rightarrow> double" where
  "base_throughput plan call = median (map ms_throughput (runs plan call 1))"

lemma run_profile_step:
  assumes "run_profile plan pr call (w # ws) single lost = (out, err, Inr l)"
  obtains out' err' where
    "run_profile plan pr call ws (if w = 1 then base_throughput plan call else single)
       (lost + sum_list (map (rs_failed \<circ> ms_summary) (runs plan call w))
             + sum_list (map (rs_rejected \<circ> ms_summary) (runs plan call w))) = (out', err', Inr l)"
    "out = row_of plan pr call (if w = 1 then base_throughput plan call else single) w @ out'"
  using assms
  by (auto simp: Let_def runs_def row_of_def base_throughput_def split: sum.splits prod.splits if_splits)

lemma run_profile_later_rows:
  "run_profile plan pr call ws single lost = (out, err, Inr l) \<Longrightarrow> 1 \<notin> set ws \<Longrightarrow>
     out = concat (map (row_of plan pr call single) ws)"
proof (induction ws arbitrary: lost out err)
  case (Cons w ws)
  from Cons.prems(1) obtain out' err' lost' where
    "run_profile plan pr call ws (if w = 1 then base_throughput plan call else single) lost' = (out', err', Inr l)"
    "out = row_of plan pr call (if w = 1 then base_throughput plan call else single) w @ out'"
    by (rule run_profile_step)
  with Cons show ?case by auto
qed simp

lemma run_profile_rows:
  assumes "run_profile plan pr call (1 # ws) single lost = (out, err, Inr l)" and "1 \<notin> set ws"
  shows "out = concat (map (row_of plan pr call (base_throughput plan call)) (1 # ws))"
proof -
  from assms(1) obtain out' err' lost' where
    "run_profile plan pr call ws (base_throughput plan call) lost' = (out', err', Inr l)"
    "out = row_of plan pr call (base_throughput plan call) 1 @ out'"
    by (rule run_profile_step) simp
  with run_profile_later_rows [OF this(1) assms(2)] show ?thesis by simp
qed

section \<open>Speed-up\<close>

lemma value_of_positive: "is_positive x \<longleftrightarrow> 0 < fst x \<and> 0 < snd x"
  by (auto simp: is_positive_def value_of_def zero_less_divide_iff)

lemma to_double_one: "0 < c \<Longrightarrow> to_double c c = (2 ^ 52, 2 ^ 52)"
  using rne_exact [of c "2 ^ 52"] by (simp add: to_double_def scaled_up_def mult.commute)

lemma speedup_of_base: "is_positive x \<Longrightarrow> fixed 2 (speedup x x) = ''1.00''"
proof -
  assume x: "is_positive x"
  then have "speedup x x = (2 ^ 52, 2 ^ 52)"
    by (simp add: speedup_def double_div_def value_of_positive mult.commute to_double_one)
  moreover have "rne (2 ^ 52 * 100) (2 ^ 52) = 100" using rne_exact [of "2 ^ 52" 100] by (simp add: mult.commute)
  moreover have "decimal 1 = ''1''" "decimal 0 = ''0''" by (simp_all add: decimal.simps, code_simp+)
  ultimately show ?thesis by (simp add: fixed_def Let_def)
qed

section \<open>The table\<close>

definition commas :: "string \<Rightarrow> nat" where
  "commas s = length (filter (\<lambda>c. c = CHR '','') s)"

lemma commas_simps [simp]:
  "commas [] = 0" "commas (c # s) = (if c = CHR '','' then 1 else 0) + commas s" "commas (s @ t) = commas s + commas t"
  "commas nl = 0"
  by (simp_all add: commas_def nl_def)

text \<open>A cell without separators.\<close>

definition plain :: "string \<Rightarrow> bool" where
  "plain s \<longleftrightarrow> CHR '','' \<notin> set s \<and> CHR 0x0A \<notin> set s"

lemma plain_decimal [simp]: "plain (decimal n)"
  using decimal_digits [of n] by (auto simp: plain_def list_all_iff is_digit_def)

lemma plain_append: "plain (s @ t) \<longleftrightarrow> plain s \<and> plain t"
  by (auto simp: plain_def)

lemma plain_symbols [simp]: "plain ''''" "plain ''.''" "plain ''-''" "plain (replicate n (CHR ''0''))"
  by (simp_all add: plain_def)

lemma plain_numbers [simp]: "plain (num w)" "plain (inum i)" "plain (fixed k x)"
  by (simp_all only: num_def inum_def fixed_def Let_def plain_append plain_decimal plain_symbols if_cancel simp_thms split: if_split)

lemma plain_counts: "plain s \<Longrightarrow> commas s = 0 \<and> count_lines s = 0"
  by (auto simp: plain_def commas_def count_lines_def filter_empty_conv)

text \<open>A line of the table: the separators of the header, and one newline, at its end.\<close>

definition table_line :: "string \<Rightarrow> bool" where
  "table_line row \<longleftrightarrow> commas row = commas print_header \<and> count_lines row = 1 \<and> row \<noteq> '''' \<and> last row = CHR 0x0A"

lemma csv_counts:
  assumes "cells \<noteq> []" and "list_all plain cells"
  shows "commas (csv cells) = length cells - 1 \<and> count_lines (csv cells) = 1 \<and> last (csv cells) = CHR 0x0A"
proof -
  have "commas (concat (map (\<lambda>c. c @ '','') xs)) = length xs \<and> count_lines (concat (map (\<lambda>c. c @ '','') xs)) = 0"
    if "list_all plain xs" for xs
    using that by (induction xs) (auto simp: plain_counts)
  moreover have "list_all plain (butlast cells)" using assms(2) by (auto simp: list_all_iff dest: in_set_butlastD)
  moreover have "plain (last cells)" using assms by (auto simp: list_all_iff)
  ultimately show ?thesis by (simp add: csv_def plain_counts) (simp add: nl_def)
qed

lemma commas_header: "commas print_header = 19"
  by (simp add: print_header_def)

lemma row_is_line:
  assumes "plain (pr_name pr)"
  shows "table_line (print_row plan pr ws single ms bounds)"
proof -
  let ?row = "print_row plan pr ws single ms bounds"
  have "commas ?row = 19 \<and> count_lines ?row = 1 \<and> last ?row = CHR 0x0A"
    using assms csv_counts [of "[pr_name pr, _, _, _, _, _, _, _, _, _, _, _, _, _, _, _, _, _, _, _]"]
    by (simp add: print_row_def)
  moreover from this have "?row \<noteq> ''''" by (metis count_lines_simps(1) zero_neq_one)
  ultimately show ?thesis by (simp add: table_line_def commas_header)
qed

section \<open>The whole matrix\<close>

text \<open>What \<open>measure_once\<close> guarantees of the results of its calls, in the terms of this theory.\<close>

definition genuine :: "profile \<Rightarrow> (size_t \<Rightarrow> nat \<Rightarrow> fault + measurement) \<Rightarrow> size_t list \<Rightarrow> bool" where
  "genuine pr call ws \<longleftrightarrow> (\<forall>w \<in> set ws. \<forall>k. case call w k of Inl f \<Rightarrow> f = System_error | Inr m \<Rightarrow> lossless pr m)"

lemma genuine_measures:
  assumes "\<And>w k. w \<noteq> 0 \<Longrightarrow> measures pr w (call w k)" and "0 \<notin> set ws"
  shows "genuine pr call ws"
  unfolding genuine_def
proof (intro ballI allI)
  fix w k
  assume "w \<in> set ws"
  then have w: "w \<noteq> 0" using assms(2) by blast
  from assms(1) [OF w, of k] measures_Inl measures_complete w
  show "case call w k of Inl f \<Rightarrow> f = System_error | Inr m \<Rightarrow> lossless pr m" by (cases "call w k") auto
qed

lemma nothing_lost:
  assumes "genuine pr call ws" and "w \<in> set ws" and "repeated (call w) k n = Inr ms"
  shows "sum_list (map (rs_failed \<circ> ms_summary) ms) = 0" and "sum_list (map (rs_rejected \<circ> ms_summary) ms) = 0"
proof -
  have "lossless pr m" if "m \<in> set ms" for m
    using assms repeated_Inr [OF assms(3)] that unfolding genuine_def by (metis sum.simps(6))
  then have "\<forall>m \<in> set ms. rs_failed (ms_summary m) = 0" "\<forall>m \<in> set ms. rs_rejected (ms_summary m) = 0"
    by (simp_all add: lossless_def)
  then show "sum_list (map (rs_failed \<circ> ms_summary) ms) = 0" "sum_list (map (rs_rejected \<circ> ms_summary) ms) = 0"
    by (induction ms) simp_all
qed

lemma run_profile_result:
  assumes "genuine pr call ws" and "0 < pl_repetitions plan"
  shows "\<exists>out err r. run_profile plan pr call ws single lost = (out, err, r) \<and> (r = Inr lost \<or> r = Inl System_error)
     \<and> ((\<forall>w \<in> set ws. \<forall>k. \<exists>m. call w k = Inr m) \<longrightarrow> r = Inr lost)"
  using assms(1)
proof (induction ws arbitrary: single)
  case (Cons w ws)
  let ?W = "repeated (call w) 0 (nat (pl_warmups plan))"
  let ?R = "repeated (call w) (nat (pl_warmups plan)) (nat (pl_repetitions plan))"
  have fail: "f = System_error \<and> \<not> (\<forall>w' \<in> set (w # ws). \<forall>k. \<exists>m. call w' k = Inr m)" if "?W = Inl f \<or> ?R = Inl f" for f
  proof -
    have "\<exists>k. call w k = Inl f" using that by (auto dest: repeated_Inl)
    then obtain k where k: "call w k = Inl f" ..
    from Cons.prems have "case call w k of Inl f \<Rightarrow> f = System_error | Inr m \<Rightarrow> lossless pr m"
      unfolding genuine_def by simp
    then have "f = System_error" by (simp add: k)
    moreover have "\<not> (\<exists>m. call w k = Inr m)" by (simp add: k)
    ultimately show ?thesis by (metis list.set_intros(1))
  qed
  show ?case
  proof (cases "?W")
    case (Inl f)
    with fail [of f] show ?thesis by (simp add: Let_def)
  next
    case W: (Inr warm)
    show ?thesis
    proof (cases "?R")
      case (Inl f)
      with W fail [of f] show ?thesis by (simp add: Let_def)
    next
      case R: (Inr ms)
      note lost = nothing_lost [OF Cons.prems list.set_intros(1) R]
      have "map ms_throughput ms \<noteq> []" using repeated_Inr [OF R] assms(2) by auto
      then obtain bs where bs: "bounds_of (map ms_throughput ms) = Inr bs" using bounds_of_nonempty by blast
      have "genuine pr call ws" using Cons.prems by (simp add: genuine_def)
      from Cons.IH [OF this, of "if w = 1 then median (map ms_throughput ms) else single"] obtain out err r where
        r: "run_profile plan pr call ws (if w = 1 then median (map ms_throughput ms) else single) lost = (out, err, r)"
        "r = Inr lost \<or> r = Inl System_error" "(\<forall>w \<in> set ws. \<forall>k. \<exists>m. call w k = Inr m) \<longrightarrow> r = Inr lost" by blast
      with W R bs lost show ?thesis by (simp add: Let_def del: One_nat_def)
    qed
  qed
qed simp

definition profile_rows ::
    "plan \<Rightarrow> (profile \<Rightarrow> size_t \<Rightarrow> nat \<Rightarrow> fault + measurement) \<Rightarrow> profile \<Rightarrow> string list" where
  "profile_rows plan call pr = map (row_of plan pr (call pr) (base_throughput plan (call pr))) (pr_workers pr)"

lemma run_profiles_result:
  assumes "\<And>pr. pr \<in> set prs \<Longrightarrow> genuine pr (call pr) (pr_workers pr)" and "0 < pl_repetitions plan"
    and "\<And>pr. pr \<in> set prs \<Longrightarrow> \<exists>ws. pr_workers pr = 1 # ws \<and> 1 \<notin> set ws"
  shows "\<exists>out err r. run_profiles plan call prs lost = (out, err, r) \<and> (r = Inr lost \<or> r = Inl System_error)
     \<and> ((\<forall>pr \<in> set prs. \<forall>w \<in> set (pr_workers pr). \<forall>k. \<exists>m. call pr w k = Inr m) \<longrightarrow> r = Inr lost)
     \<and> (r = Inr lost \<longrightarrow> out = concat (concat (map (profile_rows plan call) prs)))"
  using assms(1,3)
proof (induction prs)
  case (Cons pr prs)
  have "genuine pr (call pr) (pr_workers pr)" using Cons.prems(1) by simp
  from run_profile_result [OF this assms(2), of double_zero 0] obtain out err r where
    r: "run_profile plan pr (call pr) (pr_workers pr) double_zero 0 = (out, err, r)" "r = Inr 0 \<or> r = Inl System_error"
    "(\<forall>w \<in> set (pr_workers pr). \<forall>k. \<exists>m. call pr w k = Inr m) \<longrightarrow> r = Inr 0" by blast
  have "genuine p (call p) (pr_workers p)" "\<exists>ws. pr_workers p = 1 # ws \<and> 1 \<notin> set ws" if "p \<in> set prs" for p
    using Cons.prems that by simp_all
  from Cons.IH [OF this] obtain out' err' r' where
    r': "run_profiles plan call prs lost = (out', err', r')" "r' = Inr lost \<or> r' = Inl System_error"
    "(\<forall>pr \<in> set prs. \<forall>w \<in> set (pr_workers pr). \<forall>k. \<exists>m. call pr w k = Inr m) \<longrightarrow> r' = Inr lost"
    "r' = Inr lost \<longrightarrow> out' = concat (concat (map (profile_rows plan call) prs))" by blast
  show ?case
  proof (cases "r = Inr 0")
    case True
    obtain ws where "pr_workers pr = 1 # ws" "1 \<notin> set ws" using Cons.prems(2) [of pr] by auto
    with run_profile_rows r(1) True have "out = concat (profile_rows plan call pr)" by (simp add: profile_rows_def)
    with r(1) True r' show ?thesis by auto
  next
    case False
    with r have "r = Inl System_error" by blast
    with r show ?thesis by auto
  qed
qed simp

section \<open>Properties\<close>

text \<open>
  C32: The middle value is one: the reported median is one of the measured values, at least half of
  them are at or below it and less than half strictly below it, so of five repetitions it is the
  third; and it lies between the reported minimum and maximum.
\<close>

theorem median_is_middle:
  assumes "values \<noteq> []" and "50 * length values + 99 < 2 ^ 64"
  shows "median values \<in> set values
     \<and> length values \<le> 2 * length (filter (\<lambda>v. value_of v \<le> value_of (median values)) values)
     \<and> 2 * length (filter (\<lambda>v. value_of v < value_of (median values)) values) < length values
     \<and> (\<exists>lo hi. bounds_of values = Inr (lo, hi) \<and> value_of lo \<le> value_of (median values)
          \<and> value_of (median values) \<le> value_of hi)"
proof -
  let ?n = "length values" and ?ys = "sort_key value_of values"
  let ?i = "rank_of 50 ?n" and ?xs = "map value_of ?ys"
  note i = median_index [OF assms]
  have v: "value_of (median values) = ?xs ! ?i" and len: "length ?xs = ?n" using i by simp_all
  have el: "median values \<in> set values" using i nth_mem [of ?i ?ys] by simp
  have sorted: "sorted ?xs" by simp
  have cards: "length (filter (\<lambda>v. P (value_of v)) values) = card {j. j < ?n \<and> P (?xs ! j)}" for P
  proof -
    have "length (filter (\<lambda>v. P (value_of v)) values) = length (filter P ?xs)"
      by (simp add: filter_map o_def length_filter_sort_key)
    then show ?thesis by (simp only: length_filter_conv_card len)
  qed
  have "50 * ?n \<le> 100 * Suc ?i" using rank_of_covers [of ?n 50] assms(1) by simp
  moreover have "Suc ?i \<le> card {j. j < ?n \<and> ?xs ! j \<le> ?xs ! ?i}"
    using sorted_prefix_le [OF sorted, of ?i] i(2) by (simp only: len)
  ultimately have le: "?n \<le> 2 * length (filter (\<lambda>v. value_of v \<le> value_of (median values)) values)"
    unfolding v cards [of "\<lambda>x. x \<le> ?xs ! ?i"] by (rule half_covered)
  have "100 * ?i < 50 * ?n"
  proof (cases ?i)
    case (Suc k)
    then show ?thesis using rank_of_least [of k 50 ?n] by simp
  qed (use assms(1) in simp)
  moreover have "card {j. j < ?n \<and> ?xs ! j < ?xs ! ?i} \<le> ?i"
    using sorted_prefix_less [OF sorted, of ?i] i(2) by (simp only: len)
  ultimately have "2 * length (filter (\<lambda>v. value_of v < value_of (median values)) values) < ?n"
    unfolding v cards [of "\<lambda>x. x < ?xs ! ?i"] by (rule half_missed)
  moreover obtain lo hi where m: "min_element values = Some lo" "max_element values = Some hi"
    using extreme_elements [OF assms(1)] by blast
  then have "bounds_of values = Inr (lo, hi)" by (simp add: bounds_of_def)
  ultimately show ?thesis using el le min_element_spec [OF m(1)] max_element_spec [OF m(2)] by blast
qed

theorem median_is_middle_witness:
  "median [(3, 1), (1, 1), (5, 2), (9, 1), (4, 1)] \<in> {(3, 1), (1, 1), (5, 2), (9, 1), (4, 1)}"
  using median_is_middle [of "[(3, 1), (1, 1), (5, 2), (9, 1), (4, 1)]"] by simp

text \<open>
  The matrix is the documented one: the worker counts are 1, 2, 4, 8, 12 and 16 and the detected
  concurrency if there is one, in ascending order, each once and none zero; the sweep starts with the single
  worker that the speed-up refers to.
\<close>

theorem worker_sweep_covers:
  "set (worker_sweep detected) = {1, 2, 4, 8, 12, 16} \<union> (if detected = 0 then {} else {ucast detected})
     \<and> sorted (worker_sweep detected) \<and> distinct (worker_sweep detected)
     \<and> 0 \<notin> set (worker_sweep detected) \<and> hd (worker_sweep detected) = 1"
  using sweep_set sweep_sorted sweep_nonzero sweep_first [of detected] by (metis list.sel(1))

text \<open>
  C27: The table of a profile is what the header announces: one row per worker count in the order of
  the sweep, each with as many cells as the header on a line of its own, computed from the measured
  repetitions of that count alone and with the speed-up relative to the median of the single worker,
  whose own speed-up is printed as 1.00.
\<close>

theorem profile_table:
  assumes "plan = smoke_plan \<or> plan = measurement_plan detected" and "pr \<in> set (pl_profiles plan)"
    and "run_profile plan pr call (pr_workers pr) double_zero 0 = (out, err, Inr l)"
  shows "out = concat (map (row_of plan pr call (base_throughput plan call)) (pr_workers pr))
     \<and> list_all (\<lambda>w. table_line (row_of plan pr call (base_throughput plan call) w)) (pr_workers pr)
     \<and> (is_positive (base_throughput plan call) \<longrightarrow>
          fixed 2 (speedup (base_throughput plan call) (base_throughput plan call)) = ''1.00'')"
proof -
  have "plan_ok plan" using assms(1) plans_ok by blast
  then obtain ws where ws: "pr_workers pr = 1 # ws" "1 \<notin> set ws" and "plain (pr_name pr)"
    using assms(2) unfolding plan_ok_def plain_def by blast
  from run_profile_rows [of plan pr call ws double_zero 0 out err l] row_is_line [OF this(3)] assms(3) ws
  show ?thesis by (auto simp: list_all_iff row_of_def speedup_of_base)
qed

text \<open>A measurement for the small profile.\<close>

definition demo_measurement :: measurement where
  "demo_measurement = \<lparr>ms_wall_seconds = (1, 1), ms_submit_seconds = (1, 2), ms_throughput = (2000, 1),
     ms_summary = summarize [] 0\<rparr>"

lemma bounds_same: "bounds_of [x, x] = Inr (x, x)"
  by (simp add: bounds_of_def)

theorem profile_table_witness:
  "\<exists>pr out err l. run_profile smoke_plan pr (\<lambda>_ _. Inr demo_measurement) (pr_workers pr) double_zero 0 = (out, err, Inr l)
     \<and> pr_workers pr = [1, 2] \<and> commas out = 38 \<and> count_lines out = 2"
proof -
  let ?pr = "make_profile ''blocking'' 20 0 100 [1, 2]"
  have "\<exists>out err l. run_profile smoke_plan ?pr (\<lambda>_ _. Inr demo_measurement) (pr_workers ?pr) double_zero 0 = (out, err, Inr l)"
    by (simp add: smoke_plan_def make_profile_def demo_measurement_def Let_def numeral_2_eq_2 bounds_same)
  then obtain out err l where
    r: "run_profile smoke_plan ?pr (\<lambda>_ _. Inr demo_measurement) (pr_workers ?pr) double_zero 0 = (out, err, Inr l)" by blast
  have "?pr \<in> set (pl_profiles smoke_plan)" by (simp add: smoke_plan_def)
  from profile_table [OF disjI1 [OF refl] this r] have "commas out = 38 \<and> count_lines out = 2"
    by (auto simp: make_profile_def table_line_def commas_header)
  with r show ?thesis
    by (intro exI [of _ ?pr] exI [of _ out] exI [of _ err] exI [of _ l] conjI) (simp_all only: make_profile_def profile.select_convs)
qed

text \<open>
  A benchmark run whose calls of \<open>measure_once\<close> are possible ones is valid or fails loudly: it never
  exits with the code for lost work.
\<close>

lemma bench_main_valid:
  assumes "\<And>pr w k. w \<noteq> 0 \<Longrightarrow> measures pr w (call pr w k)"
    and "bench_args (drop 1 argv) False = Bench_go smoke"
    and "smoke \<or> h_sanitizer h = ''off'' \<and> h_build_type h = ''Release''"
  defines "plan \<equiv> (if smoke then smoke_plan else measurement_plan (h_detected h))"
  shows "\<exists>out err r. bench_main h argv call = (out, err, r) \<and> (r = Inr 0 \<or> r = Inl System_error)
     \<and> ((\<forall>pr w k. w \<noteq> 0 \<longrightarrow> (\<exists>m. call pr w k = Inr m)) \<longrightarrow> r = Inr 0)
     \<and> (r = Inr 0 \<longrightarrow> out = print_environment h plan smoke @ print_header
          @ concat (concat (map (profile_rows plan call) (pl_profiles plan))))"
proof -
  have ok: "plan_ok plan" by (simp add: plan_def plans_ok)
  have zero: "0 \<notin> set (pr_workers pr)" if "pr \<in> set (pl_profiles plan)" for pr
    using ok that by (auto simp: plan_ok_def)
  have gen: "genuine pr (call pr) (pr_workers pr)" if "pr \<in> set (pl_profiles plan)" for pr
    using assms(1) zero [OF that] by (intro genuine_measures)
  have first: "\<exists>ws. pr_workers pr = 1 # ws \<and> 1 \<notin> set ws" if "pr \<in> set (pl_profiles plan)" for pr
    using ok that by (auto simp: plan_ok_def)
  have "0 < pl_repetitions plan" using ok by (simp add: plan_ok_def)
  from run_profiles_result [of "pl_profiles plan", OF gen this first, of 0] obtain out err r where
    r: "run_profiles plan call (pl_profiles plan) 0 = (out, err, r)" "r = Inr 0 \<or> r = Inl System_error"
    "(\<forall>pr \<in> set (pl_profiles plan). \<forall>w \<in> set (pr_workers pr). \<forall>k. \<exists>m. call pr w k = Inr m) \<longrightarrow> r = Inr 0"
    "r = Inr 0 \<longrightarrow> out = concat (concat (map (profile_rows plan call) (pl_profiles plan)))" by blast
  then have all: "(\<forall>pr w k. w \<noteq> 0 \<longrightarrow> (\<exists>m. call pr w k = Inr m)) \<longrightarrow> r = Inr 0" using zero by metis
  obtain err' where main: "bench_main h argv call = (print_environment h plan smoke @ print_header @ out, err',
      map_sum id (\<lambda>lost. if lost \<noteq> 0 then k_exit_lost_work else k_exit_ok) r)"
    using assms(2,3) r(1) unfolding plan_def by (auto simp: bench_main_def Let_def)
  show ?thesis
  proof (cases "r = Inr 0")
    case True
    with main r(4) show ?thesis by (simp add: k_exit_ok_def)
  next
    case False
    with r(2) have "r = Inl System_error" by blast
    moreover have "\<not> (\<forall>pr w k. w \<noteq> 0 \<longrightarrow> (\<exists>m. call pr w k = Inr m))" using all False by blast
    ultimately show ?thesis using main by simp
  qed
qed

definition demo_host :: host where
  "demo_host = \<lparr>h_version = ''1.0.0'', h_build_type = ''Debug'', h_sanitizer = ''off'', h_flags = ''-g'',
     h_compiler = Gnu ''13'', h_detected = 6, h_cpuinfo = '''', h_osrelease = '''', h_os = '''', h_time = 0\<rparr>"

text \<open>
  The harness refuses what is not a measurement: without \<open>--smoke\<close> a sanitizer build and a
  build other than Release write nothing to the standard output, name the reason on the standard
  error and exit with 2; so does any argument it does not know; help exits with 0 and measures
  nothing.
\<close>

theorem benchmark_refuses:
  "case bench_args (drop 1 argv) False of
     Bench_help \<Rightarrow> bench_main h argv call = (bench_usage, '''', Inr 0)
   | Bench_unknown arg \<Rightarrow> (\<exists>err. bench_main h argv call = ('''', err, Inr 2) \<and> arg \<in> set argv
        \<and> arg \<notin> {''--help'', ''-h'', ''--smoke''})
   | Bench_go smoke \<Rightarrow> (smoke \<longleftrightarrow> ''--smoke'' \<in> set (drop 1 argv))
        \<and> (if \<not> smoke \<and> (h_sanitizer h \<noteq> ''off'' \<or> h_build_type h \<noteq> ''Release'')
           then \<exists>err. bench_main h argv call = ('''', err, Inr 2) \<and> err \<noteq> '''' else True)"
proof -
  have unknown: "arg \<in> set args \<and> arg \<notin> {''--help'', ''-h'', ''--smoke''}" if "bench_args args b = Bench_unknown arg" for args b arg
    using that by (induction args b rule: bench_args.induct) (auto split: if_splits)
  have go: "smoke \<longleftrightarrow> b \<or> ''--smoke'' \<in> set args" if "bench_args args b = Bench_go smoke" for args b smoke
    using that by (induction args b rule: bench_args.induct) (auto split: if_splits)
  show ?thesis
  proof (cases "bench_args (drop 1 argv) False")
    case (Bench_unknown arg)
    with unknown [OF Bench_unknown] show ?thesis
      by (auto simp: bench_main_def k_exit_refused_def dest: in_set_dropD)
  next
    case (Bench_go smoke)
    with go [OF Bench_go] show ?thesis by (auto simp: bench_main_def k_exit_refused_def)
  qed (simp add: bench_main_def k_exit_ok_def)
qed

end
