(* ===== verification/Spec2Isabelle.thy ===== *)
theory Spec2Isabelle
  imports Pool_Construction Pool_Lifecycle Application_Signals Benchmark_Threads Benchmark_Report
begin

text \<open>
  A verification of the concurrent task engine (C++17, sources under \<open>src/include/taskengine\<close>,
  \<open>src/src\<close> and \<open>src/benchmarks\<close>).

  \<^bold>\<open>The program.\<close> Callers hand tasks to a \<open>TaskEngine\<close>. The engine gives each task an identity
  and wraps it, with a promise and the submission instant, into a \<open>TaskEnvelope\<close>; a
  \<open>ThreadPool\<close> pushes the envelope into a bounded \<open>BlockingQueue\<close>, from which worker threads pop
  envelopes, run them, fulfil the promise and record a sample in a buffer of their own. A shutdown
  closes the queue and joins the workers; the discarding shutdown also drains the queue and rejects
  what it held. After the join the samples are merged and summarised. The command-line program
  parses options, submits a batch of computing tasks, reacts to an interrupt, shuts the engine down,
  prints the summary and turns it into an exit code. The benchmark program times the same engine on
  a fixed matrix of task profiles and worker counts and prints a table of medians.

  \<^bold>\<open>Theories, in the order of the code's layers.\<close>
  \<^item> Prelude: machine types, faults, list and word lemmas, and the interface locales for
    transition systems: \<open>invariant_system\<close> (a step-wise invariant holds in every reachable state),
    \<open>refinement\<close> (a view of the state moves by the steps of a more abstract system),
    \<open>terminating_system\<close> (a weight and a progress law give finite runs that end in a final
    state) and \<open>terminating_refinement\<close> (a client whose steps are those of a terminating system
    or bounded bookkeeping terminates too). Every concurrent component below interprets some of them.
  \<^item> Task\_Core: \<open>core/task_id.hpp\<close>, \<open>task_state.hpp\<close>, \<open>task_result.hpp\<close>, \<open>sample.hpp\<close>. A
    call of the virtual \<open>Task::execute\<close> is an \<open>exec_outcome\<close>, and the function from tasks to
    outcomes is a parameter of everything that runs tasks.
  \<^item> Task\_Envelope: \<open>core/task_envelope\<close> over an explicit store of promise channels, with moves
    and destruction; \<open>run\<close> and \<open>reject\<close> share the contract \<open>fulfilling_op\<close>.
  \<^item> Blocking\_Queue: \<open>concurrency/blocking_queue.hpp\<close> as critical sections, with the interface
    locale \<open>closable_queue\<close> that its clients use (first in first out, conservation, blocking
    conditions, draining after close).
  \<^item> Queue\_Monitor: the same functions as threads execute them, with the mutex, the two condition
    variables, notification outside the lock and spurious wake-ups. It refines the atomic
    operations, loses no wake-up, and releases everybody when the queue is closed.
  \<^item> Thread\_Pool: \<open>concurrency/thread_pool\<close> as a transition system of any number of workers and
    callers; one step is what a thread does between two points where others can interfere.
    The constructor starts its threads one by one. \<open>act\<close> and \<open>acts\<close> evaluate explicit schedules.
  \<^item> Pool\_Ownership: every waiting promise belongs to exactly one envelope in exactly one place; the
    pool refines the ledger of futures.
  \<^item> Pool\_Accounting: samples and the rejection counter account for every result exactly once; the
    instants of every result are in order.
  \<^item> Pool\_Shutdown: the join protocol, absence of deadlock, termination of all calls.
  \<^item> Pool\_Correct: the promises of the class, drawn from these invariants.
  \<^item> Pool\_Lifecycle: the state machine of one task, of which the pool is a refinement for every future
    at once; the order in which tasks start, from the first-in, first-out law of the queue; and the
    single-writer discipline of the sample buffers.
  \<^item> Pool\_Construction: the handler of a constructor that cannot create all its threads, and the
    destructor: both leave no thread behind.
  \<^item> Pool\_Threads, Pool\_Threads\_Correct: the pool composed with Queue\_Monitor: workers and callers
    enter the queue's functions, take its mutex, sleep on its condition variables, are notified and
    return. This system refines the one of Thread\_Pool, which justifies the atomic queue steps
    there, and it has no deadlock of its own.
  \<^item> Pool\_Threads\_Join: \<open>join_workers\<close> at that level: a joined worker has left the queue for good,
    so a joined pool can be destroyed.
  \<^item> Run\_Summary: \<open>metrics/run_summary\<close>: nearest-rank percentiles in 64-bit arithmetic, the
    distribution of a duration, the summary.
  \<^item> Task\_Engine: \<open>execution/task_engine\<close>: unique identities and complete summaries; an engine step
    is a pool step or changes nothing in the pool.
  \<^item> Batch: the specification that both programs implement: one thread hands \<open>n\<close> tasks to an engine,
    one after the other, shuts it down and asks for the summary. A batch terminates; when it has
    ended, the summary counts every task exactly once, and unless it discarded, exactly those that
    do not return have failed.
  \<^item> Tasks: \<open>tasks/compute_task\<close> (splitmix64 on 64-bit words) and \<open>tasks/sleep_task\<close>.
  \<^item> Options: \<open>cli/options\<close>: numbers, arguments, diagnostics, defaults, exit codes, usage text.
  \<^item> Doubles: the binary64 operations the output needs (conversion, division, comparison, fixed
    notation), as rounding to nearest even on fractions.
  \<^item> Console: what \<open>app/main.cpp\<close> prints: durations, the table, configuration and outcome.
  \<^item> Application, Application\_Correct: \<open>app/main.cpp\<close>: the signal handlers, the run as the main
    thread, the workers and the signal handler perform it, and \<open>main\<close> with its streams and exit
    codes. The run refines Batch, which gives its outcome from end to end.
  \<^item> Client\_Threads: any program that is the only caller of an engine, on top of the pool of
    Pool\_Threads. The locale \<open>threaded_client\<close> states what the thread of the program may see of the
    pool between its calls, and gives the refinement to atomic queue operations, termination under every
    schedule, and an end with no thread left; both programs interpret it.
  \<^item> Application\_Threads: the run on top of the pool of Pool\_Threads, that is the whole program with
    every lock, wait, notification and join of the code. It refines the run of Application,
    terminates under every schedule, and leaves no thread behind.
  \<^item> Application\_Signals: the same program with a record of the signals delivered to it. The flag it
    reports is set exactly when a SIGINT or SIGTERM arrived before the flag was read for the last time,
    the first such signal fixes the number of submitted tasks, and the wall time is the one
    between the engine just built and the return of the shutdown.
  \<^item> Calendar: the time stamp of a benchmark report (\<open>utc_now\<close>): \<open>std::gmtime\<close> and
    \<open>std::put_time\<close>, against the POSIX definition of seconds since the epoch.
  \<^item> Benchmark: \<open>benchmarks/bench_task_engine.cpp\<close>: plans, \<open>measure_once\<close> as a second client of
    the engine, medians, table, environment lines and \<open>main\<close>.
  \<^item> Benchmark\_Correct: \<open>measure_once\<close> refines Batch; it terminates and loses no task, and its times
    are those of the timed region.
  \<^item> Benchmark\_Threads: \<open>measure_once\<close> with its locks, as the second interpretation of
    \<open>threaded_client\<close>.
  \<^item> Benchmark\_Report: the median, the worker counts, the table of a profile and the exit codes.
  \<^item> This theory composes the parts: the process from the command line to the exit code, with the
    engine it constructs, its threads, locks and interrupts; and the benchmark program over
    measurements with their locks.

  \<^bold>\<open>State and steps.\<close> A class is a record whose fields are its members; a thread inside a member
  function is a value of a program-counter datatype (\<open>pc\<close>, \<open>worker\<close>, \<open>caller\<close>, \<open>app_pc\<close>, \<open>bench_pc\<close>) whose
  constructors carry the local variables that are still needed. Member functions are step functions
  into option types; \<open>None\<close> means blocked. Exceptions and undefined behaviour are values of
  \<open>fault\<close>; a fault inside a \<open>noexcept\<close> function sets \<open>crashed\<close>, and the ownership theory proves
  that this never happens. Clock readings take the value of a monotonic model clock that can advance
  between any two steps. The steps of \<open>run\<close> and \<open>measure_once\<close> end with their results; the destructor of
  the engine that follows is a second \<open>shutdown\<close>, and \<open>client_destructor\<close> in Client\_Threads shows that
  it returns at once and changes nothing. \<open>make_pool\<close> is the outcome of a constructor call; what its
  handler does before a \<open>System_error\<close> leaves it is \<open>failed_construction\<close> in Pool\_Construction.
  A run starts with the engine just built: a signal between the installation of the handlers and that
  moment has the effect of one that arrives before the first submission.

  \<^bold>\<open>Bounds.\<close> Sizes, counters and identities are 64-bit words, as on the supported targets; where a
  statement needs that a word does not wrap, it says so (\<open>issued g < 2 ^ 64\<close> for the uniqueness of
  identities, the product in the percentile arithmetic). Durations are integers, with a separate
  theorem for the range of the sum. The rounding theorem of \<open>format_duration\<close> holds below
  \<open>2 ^ 22\<close> seconds (48 days), where the quotient keeps enough bits for two decimals to be rounded only
  once in effect; doubles have no exponent range in the model, and the integers converted stay far
  below the overflow threshold. The conversions of the benchmark are stated for durations that are
  not negative, which its correctness theory proves of every one it prints; the median needs that
  50 times the number of repetitions does not wrap, and there are five. The calendar is proved for all
  instants; its twenty-character text until the end of the year 9999. No fuel is used in the
  model; \<open>consume\<close> has fuel because it is a consumer loop stated for any queue, and the theorem
  about it gives the fuel that is enough. The weights of the terminating systems bound the number of
  steps of any schedule.

  \<^bold>\<open>Not modelled.\<close> The version string, which the build injects: it is a parameter of the output.
  For the benchmark also the build type, sanitizer mode and flags, the compiler's own version text,
  the contents of the system files it quotes and the reading of the clock: they are the fields of the
  record \<open>host\<close>. The tests and the build files. The C++ memory model is taken to be
  sequentially consistent for the data the code protects by its mutexes and atomics; the sample
  buffers are written by one worker each and read only after the join, which Pool\_Lifecycle
  proves to be the case. Allocation failure, failure of the output streams and of \<open>sigaction\<close> are
  not modelled.
\<close>

section \<open>The process, from the command line to the exit code\<close>

text \<open>
  \<open>main\<close> with the engine that \<open>run\<close> constructs and the end that the threads bring \<open>run\<close> to:
  the main thread, the workers and the signal handler start from the engine just built and move by
  the steps of the program with its locks until \<open>run\<close> has ended.
\<close>

definition engine_for :: "(nat \<Rightarrow> bool) \<Rightarrow> time_point \<Rightarrow> options \<Rightarrow> fault + app_task engine" where
  "engine_for spawn now opts = make_engine spawn (opt_workers opts) (opt_queue_capacity opts) 1 now"

definition program_of :: "app_task engine \<Rightarrow> app_program" where
  "program_of g = \<lparr>pg_client = start_app g, pg_mutex = None,
     pg_pcs = replicate (length (workers (eng_pool g)) + length (callers (eng_pool g))) Idle\<rparr>"

definition streams_of :: "string \<Rightarrow> app \<Rightarrow> options \<Rightarrow> app_task engine \<Rightarrow> string \<times> string \<times> (fault + int)" where
  "streams_of version a opts g = run_streams version opts (app_flag a) (app_wall a) (summary (app_engine a))"

definition process_ends ::
    "string \<Rightarrow> string \<Rightarrow> 32 word \<Rightarrow> string list \<Rightarrow> (nat \<Rightarrow> bool) \<Rightarrow> time_point \<Rightarrow> arrival list \<Rightarrow> app_program \<Rightarrow>
     string \<times> string \<times> int \<Rightarrow> bool" where
  "process_ends version sys detected argv spawn now sigs s r \<longleftrightarrow>
     r = main_program version sys detected argv (engine_for spawn now) (streams_of version (pg_client s))
     \<and> (\<forall>opts g. parse_args detected (drop 1 argv) = Run opts \<longrightarrow> engine_for spawn now opts = Inr g \<longrightarrow>
          logged_run opts (program_of g) sigs s \<and> app_final (pg_client s))"

lemma program_of_reach:
  assumes "engine_for spawn now opts = Inr g"
  shows "reach (program_init opts) (program_step opts) (program_of g)"
proof (rule reach_init)
  have "app_init opts (start_app g)" using assms by (auto simp: engine_for_def app_init_def)
  then show "program_init opts (program_of g)"
    by (simp add: program_init_def client_init_def program_of_def threads_of_def start_app_def)
qed

lemma engine_for_cases:
  assumes "parse_args detected args = Run opts"
  obtains g where "engine_for spawn now opts = Inr g" "list_all spawn [0..<unat (opt_workers opts)]"
  | "engine_for spawn now opts = Inl System_error" "\<not> list_all spawn [0..<unat (opt_workers opts)]"
  using parse_args_valid [OF assms] that
  by (cases "list_all spawn [0..<unat (opt_workers opts)]")
     (auto simp: engine_for_def make_engine_def make_pool_eq make_queue_def list_all_iff)

text \<open>What the end of \<open>run\<close> leaves to \<open>main\<close>.\<close>

lemma program_end_streams:
  assumes g: "engine_for spawn now opts = Inr g" and run: "logged_run opts (program_of g) sigs s"
    and fin: "app_final (pg_client s)"
  obtains sm where "summary (app_engine (pg_client s)) = Inr sm"
    "app_flag (pg_client s) = interrupted_by sigs" "last_submitted sigs (app_submitted (pg_client s))"
    "rs_total sm = app_submitted (pg_client s)" "app_submitted (pg_client s) \<le> opt_tasks opts"
    "rs_total sm = rs_succeeded sm + rs_failed sm + rs_rejected sm"
    "\<not> interrupted_by sigs \<Longrightarrow> app_submitted (pg_client s) = opt_tasks opts \<and> rs_rejected sm = 0
       \<and> unat (rs_failed sm) = (if opt_fail_every opts = 0 then 0 else unat (opt_tasks opts) div unat (opt_fail_every opts))"
proof -
  have "reach (program_init opts) (program_step opts) s"
    using logged_program_steps [OF run] program_of_reach [OF g] by (rule reach_steps)
  then have inv: "client_inv app_engine with_engine (app_inv opts) outside s"
    unfolding program_defs by (rule prog.program.inv_reach)
  have "log_inv sigs (pg_client s)"
    using run by (rule logged_run_log) (simp_all add: program_of_def start_app_def)
  note sigs = logged_end [OF this fin]
  let ?v = "view_of app_engine with_engine s"
  obtain r where r: "app_pc (pg_client s) = Finished r" using fin by (auto simp: app_final_def)
  have v: "app_inv opts ?v" "app_pc ?v = Finished r" "app_submitted ?v = app_submitted (pg_client s)"
      "app_flag ?v = app_flag (pg_client s)"
    using inv r by (simp_all add: client_inv_def view_of_def app_set_pool)
  from finished_summary [OF v(1,2)] sigs that show thesis
    unfolding prog.summary_view [OF inv] v(3,4) by metis
qed

text \<open>Wherever a run stands, it can go on to its end without a further signal.\<close>

lemma program_reaches_end:
  assumes "engine_for spawn now opts = Inr g" and "logged_run opts (program_of g) sigs s"
  shows "\<exists>t. logged_run opts (program_of g) sigs t \<and> app_final (pg_client t)"
proof -
  have "reach (program_init opts) (program_step opts) s"
    using logged_program_steps [OF assms(2)] program_of_reach [OF assms(1)] by (rule reach_steps)
  then have "client_inv app_engine with_engine (app_inv opts) outside s"
    unfolding program_defs by (rule prog.program.inv_reach)
  from prog.program_run.run_reaches_final [OF this] obtain t
    where "(program_run opts)\<^sup>*\<^sup>* s t" "app_final (pg_client t)" by (auto simp: program_defs)
  with run_logged assms(2) show ?thesis by blast
qed

text \<open>
  The wall time is what the clock advanced from the engine just built to the moment at which the
  shutdown had returned, with all workers joined. The engine's destructor at the end of \<open>run\<close> then
  shuts down once more, which returns at once and changes nothing.
\<close>

definition timed_region :: "options \<Rightarrow> app_program \<Rightarrow> app_program \<Rightarrow> bool" where
  "timed_region opts s0 s \<longleftrightarrow>
     (\<exists>x. (program_step opts)\<^sup>*\<^sup>* s0 x \<and> (program_step opts)\<^sup>*\<^sup>* x s
        \<and> app_pc (pg_client x) = Stopping \<and> eng_idle 0 (app_engine (pg_client x))
        \<and> workers_joined (eng_pool (app_engine (pg_client x)))
        \<and> app_wall (pg_client s) = app_clock x - app_clock s0 \<and> app_clock s0 \<le> app_clock x)"

definition engine_released :: "app \<Rightarrow> bool" where
  "engine_released a \<longleftrightarrow>
     acts app_execute [Call_shutdown 0, Proceed 0, Proceed 0, Proceed 0] (eng_pool (app_engine a))
       = Some (eng_pool (app_engine a))"

lemma program_end_times:
  assumes g: "engine_for spawn now opts = Inr g" and run: "(program_step opts)\<^sup>*\<^sup>* (program_of g) s"
    and fin: "app_final (pg_client s)"
  shows "timed_region opts (program_of g) s" and "engine_released (pg_client s)"
proof -
  have "reach (program_init opts) (program_step opts) s" using run program_of_reach [OF g] by (rule reach_steps)
  then have inv: "client_inv app_engine with_engine (app_inv opts) outside s"
    unfolding program_defs by (rule prog.program.inv_reach)
  show "engine_released (pg_client s)"
    unfolding engine_released_def by (rule prog.client_destructor [OF inv fin])
  have "\<not> app_final (pg_client (program_of g))" by (simp add: program_of_def start_app_def app_final_def)
  from finished_from [OF program_of_reach [OF g] this run fin] obtain x where
    x: "(program_step opts)\<^sup>*\<^sup>* (program_of g) x" "(program_step opts)\<^sup>*\<^sup>* x s"
      "app_pc (pg_client x) = Stopping" "eng_idle 0 (app_engine (pg_client x))"
      "workers_joined (eng_pool (app_engine (pg_client x)))"
      "app_wall (pg_client s) = app_clock x - app_start (pg_client x)" .
  have x0: "app_start (pg_client x) = app_clock (program_of g)"
    using program_start [OF x(1)] by (simp add: program_of_def start_app_def app_clock_def)
  have "reach (program_init opts) (program_step opts) x" using x(1) program_of_reach [OF g] by (rule reach_steps)
  then have "client_inv app_engine with_engine (app_inv opts) outside x"
    unfolding program_defs by (rule prog.program.inv_reach)
  then have "app_start (pg_client x) \<le> app_clock x"
    by (simp add: client_inv_def app_inv_def view_of_def app_set_pool app_clock_def)
  with x x0 show "timed_region opts (program_of g) s" unfolding timed_region_def by metis
qed

lemma no_failure_injected:
  "(if opt_fail_every opts = 0 then 0 else unat (opt_tasks opts) div unat (opt_fail_every opts)) = 0
     \<longleftrightarrow> \<not> (opt_fail_every opts \<noteq> 0 \<and> opt_fail_every opts \<le> opt_tasks opts)"
  using unat_pos_u64 [of "opt_fail_every opts"] by (auto simp: word_le_nat_alt div_eq_0_iff)

text \<open>
  What a run with the given options promises about the two streams and the exit code, given the
  signals that reached it and the state \<open>a\<close> it ended in: the engine has a summary, and the report is
  the one of that summary; it counts every submitted task once. An interruption is reported, on both
  streams and with code 1, if and only if a SIGINT or SIGTERM arrived before the flag was read for the
  last time; the first such signal fixes the number of tasks submitted. Otherwise all tasks were
  executed, the injected failures are exactly those that failed, and they alone decide between 0
  and 1.
\<close>

definition run_contract :: "string \<Rightarrow> options \<Rightarrow> arrival list \<Rightarrow> app \<Rightarrow> string \<Rightarrow> string \<Rightarrow> int \<Rightarrow> bool" where
  "run_contract version opts sigs a out err code \<longleftrightarrow>
     (case summary (app_engine a) of
        Inl f \<Rightarrow> False
      | Inr sm \<Rightarrow>
          out = print_configuration version opts
            @ print_outcome sm (app_wall a) (opt_tasks opts) (interrupted_by sigs)
          \<and> err = (if interrupted_by sigs then ''task-engine: interrupted before submitting all tasks'' @ nl else '''')
          \<and> code = (if interrupted_by sigs \<or> opt_fail_every opts \<noteq> 0 \<and> opt_fail_every opts \<le> opt_tasks opts then 1 else 0)
          \<and> last_submitted sigs (app_submitted a) \<and> app_submitted a \<le> opt_tasks opts
          \<and> rs_total sm = app_submitted a
          \<and> rs_total sm = rs_succeeded sm + rs_failed sm + rs_rejected sm
          \<and> (\<not> interrupted_by sigs \<longrightarrow> app_submitted a = opt_tasks opts \<and> rs_rejected sm = 0
               \<and> unat (rs_failed sm) = (if opt_fail_every opts = 0 then 0
                                        else unat (opt_tasks opts) div unat (opt_fail_every opts))))"

lemma run_code: "exit_code_for f 0 = (if f = 0 then 0 else 1)"
  by (simp add: exit_code_for_def k_exit_success_def k_exit_task_failure_def)

text \<open>What the process promises when it has to run, with threads that can be created and without.\<close>

definition run_promise ::
    "string \<Rightarrow> string \<Rightarrow> (nat \<Rightarrow> bool) \<Rightarrow> time_point \<Rightarrow> options \<Rightarrow> arrival list \<Rightarrow> app_program \<Rightarrow>
     string \<Rightarrow> string \<Rightarrow> int \<Rightarrow> bool" where
  "run_promise version sys spawn now opts sigs s out err code \<longleftrightarrow>
     (case engine_for spawn now opts of
        Inl f \<Rightarrow> \<not> list_all spawn [0..<unat (opt_workers opts)]
          \<and> out = print_configuration version opts \<and> err = ''task-engine: run failed: '' @ sys @ nl \<and> code = 1
      | Inr g \<Rightarrow> list_all spawn [0..<unat (opt_workers opts)]
          \<and> run_contract version opts sigs (pg_client s) out err code
          \<and> timed_region opts (program_of g) s \<and> engine_released (pg_client s))"

lemma process_run:
  assumes ends: "process_ends version sys detected argv spawn now sigs s (out, err, code)"
    and parsed: "parse_args detected (drop 1 argv) = Run opts"
  shows "run_promise version sys spawn now opts sigs s out err code"
proof -
  have r: "(out, err, code) = main_program version sys detected argv (engine_for spawn now) (streams_of version (pg_client s))"
    using ends by (simp add: process_ends_def)
  from engine_for_cases [OF parsed, of spawn now] show ?thesis
  proof cases
    case (1 g)
    have run: "logged_run opts (program_of g) sigs s" and fin: "app_final (pg_client s)"
      using ends parsed 1(1) by (simp_all add: process_ends_def)
    from program_end_streams [OF 1(1) run fin] obtain sm where
      sm: "summary (app_engine (pg_client s)) = Inr sm" and flag: "app_flag (pg_client s) = interrupted_by sigs"
      and books: "last_submitted sigs (app_submitted (pg_client s))" "rs_total sm = app_submitted (pg_client s)"
        "app_submitted (pg_client s) \<le> opt_tasks opts"
        "rs_total sm = rs_succeeded sm + rs_failed sm + rs_rejected sm"
      and calm: "\<not> interrupted_by sigs \<Longrightarrow> app_submitted (pg_client s) = opt_tasks opts \<and> rs_rejected sm = 0
         \<and> unat (rs_failed sm) = (if opt_fail_every opts = 0 then 0 else unat (opt_tasks opts) div unat (opt_fail_every opts))"
      by blast
    have failed: "rs_failed sm = 0 \<longleftrightarrow> \<not> (opt_fail_every opts \<noteq> 0 \<and> opt_fail_every opts \<le> opt_tasks opts)"
      if "\<not> interrupted_by sigs"
      using calm [OF that] no_failure_injected [of opts] by (metis unat_eq_zero)
    have "out = print_configuration version opts @ print_outcome sm (app_wall (pg_client s)) (opt_tasks opts) (interrupted_by sigs)"
      "err = (if interrupted_by sigs then ''task-engine: interrupted before submitting all tasks'' @ nl else '''')"
      and code: "code = (if interrupted_by sigs then 1 else exit_code_for (rs_failed sm) (rs_rejected sm))"
      using r parsed 1(1) sm flag
      by (simp_all add: main_program_def streams_of_def run_streams_def run_outcome_def k_exit_task_failure_def)
    moreover have "code = (if interrupted_by sigs \<or> opt_fail_every opts \<noteq> 0 \<and> opt_fail_every opts \<le> opt_tasks opts then 1 else 0)"
      using code failed calm run_code by auto
    ultimately have "run_contract version opts sigs (pg_client s) out err code"
      unfolding run_contract_def sm using books calm by simp
    then show ?thesis
      using 1 program_end_times [OF 1(1) logged_program_steps [OF run] fin] by (simp add: run_promise_def)
  next
    case 2
    then show ?thesis
      using r parsed by (simp add: run_promise_def main_program_def report_fault_def code_of_fault_def what_def
          k_exit_task_failure_def)
  qed
qed

lemma process_exists: "\<exists>s r. process_ends version sys detected argv spawn now [] s r"
proof (cases "\<exists>opts g. parse_args detected (drop 1 argv) = Run opts \<and> engine_for spawn now opts = Inr g")
  case True
  then obtain opts g where o: "parse_args detected (drop 1 argv) = Run opts" "engine_for spawn now opts = Inr g" by blast
  from program_reaches_end [OF o(2) logged_start] o show ?thesis unfolding process_ends_def by auto
next
  case False
  then show ?thesis unfolding process_ends_def by blast
qed

text \<open>
  C4: The whole program, from the command line to the exit code, for every behaviour of the threads,
  every sequence of signals and every thread the system refuses to create. Help and version exit with 0
  and a bad command line with 2, with nothing on the standard output; a run whose threads could be
  created keeps the contract above for the signals that reached it, with the wall time of the timed
  region, and leaves an engine that its destructor finds at rest; one whose threads could not be
  created reports it and exits with 1. The process has such an end, and a run can go on to its end from
  wherever it stands, whatever signals have reached it.
\<close>

theorem process_contract:
  "(\<exists>s r. process_ends version sys detected argv spawn now [] s r)
   \<and> (\<forall>opts g sigs s. parse_args detected (drop 1 argv) = Run opts \<longrightarrow> engine_for spawn now opts = Inr g \<longrightarrow>
        logged_run opts (program_of g) sigs s \<longrightarrow> (\<exists>t r. process_ends version sys detected argv spawn now sigs t r))
   \<and> (\<forall>sigs s out err code. process_ends version sys detected argv spawn now sigs s (out, err, code) \<longrightarrow>
        (case parse_args detected (drop 1 argv) of
           Show_help \<Rightarrow> out = usage \<and> err = '''' \<and> code = 0
         | Show_version \<Rightarrow> out = ''task-engine '' @ version @ nl \<and> err = '''' \<and> code = 0
         | Fail msg \<Rightarrow> out = '''' \<and> err = ''task-engine: '' @ msg @ nl @ nl @ usage \<and> code = 2
         | Run opts \<Rightarrow> run_promise version sys spawn now opts sigs s out err code))"
proof (intro conjI process_exists allI impI)
  fix opts g sigs s
  assume "parse_args detected (drop 1 argv) = Run opts" "engine_for spawn now opts = Inr g"
    "logged_run opts (program_of g) sigs s"
  with program_reaches_end show "\<exists>t r. process_ends version sys detected argv spawn now sigs t r"
    unfolding process_ends_def by auto
next
  fix sigs s out err code
  assume ends: "process_ends version sys detected argv spawn now sigs s (out, err, code)"
  note run = process_run [OF ends]
  from ends show "case parse_args detected (drop 1 argv) of
      Show_help \<Rightarrow> out = usage \<and> err = '''' \<and> code = 0
    | Show_version \<Rightarrow> out = ''task-engine '' @ version @ nl \<and> err = '''' \<and> code = 0
    | Fail msg \<Rightarrow> out = '''' \<and> err = ''task-engine: '' @ msg @ nl @ nl @ usage \<and> code = 2
    | Run opts \<Rightarrow> run_promise version sys spawn now opts sigs s out err code"
    unfolding process_ends_def
    by (cases "parse_args detected (drop 1 argv)")
       (simp_all add: run main_program_def k_exit_success_def k_exit_usage_def)
qed

text \<open>
  One worker and one task that is made to fail, without a signal: such a process exists, it reports
  one failed task and nothing on the standard error, and exits with 1.
\<close>

definition demo_args :: "string list" where
  "demo_args = [''--workers'', ''1'', ''--tasks'', ''1'', ''--work'', ''0'', ''--queue-capacity'', ''1'',
     ''--fail-every'', ''1'']"

theorem process_contract_witness:
  "\<exists>s sm out. process_ends ''1.0'' '''' 4 (''task-engine'' # demo_args) (\<lambda>_. True) 0 [] s (out, '''', 1)
     \<and> summary (app_engine (pg_client s)) = Inr sm \<and> rs_total sm = 1 \<and> unat (rs_failed sm) = 1
     \<and> engine_released (pg_client s)"
proof -
  have "parse_u64 ''1'' = Some 1" "parse_u64 ''0'' = Some 0"
    by (simp_all add: parse_u64_iff is_digit_def digits_value_def)
  then have parsed: "parse_args 4 (drop 1 (''task-engine'' # demo_args)) = Run (demo_opts 1)"
    by (simp add: parse_args_def demo_args_def set_option_def default_options_def demo_opts_def)
  note contract = process_contract [of "''1.0''" "''''" 4 "''task-engine'' # demo_args" "\<lambda>_. True" 0, unfolded parsed]
  then obtain s out err code where
    ends: "process_ends ''1.0'' '''' 4 (''task-engine'' # demo_args) (\<lambda>_. True) 0 [] s (out, err, code)" by auto
  have opts: "opt_tasks (demo_opts 1) = 1" "opt_fail_every (demo_opts 1) = 1" by (simp_all add: demo_opts_def)
  have "run_promise ''1.0'' '''' (\<lambda>_. True) 0 (demo_opts 1) [] s out err code" using contract ends by simp
  then have "run_contract ''1.0'' (demo_opts 1) [] (pg_client s) out err code" "engine_released (pg_client s)"
    by (simp_all add: run_promise_def list_all_iff split: sum.splits)
  moreover have "\<not> interrupted_by []" by (simp add: interrupted_by_def)
  ultimately show ?thesis
    using ends opts by (auto simp: run_contract_def split: sum.splits)
qed

section \<open>The benchmark, with its locks\<close>

text \<open>The possible results of \<open>measure_once\<close> when its threads go through the locks of the code.\<close>

inductive measures_with_locks :: "profile \<Rightarrow> size_t \<Rightarrow> fault + measurement \<Rightarrow> bool" for pr ws where
  locks_not_constructed: "(make_engine spawn ws k_queue_capacity 1 now :: fault + bench_task engine) = Inl f \<Longrightarrow>
     measures_with_locks pr ws (Inl f)"
| locks_measured: "reach (measurement_init ws) (measurement_step pr) s \<Longrightarrow> bn_pc (pg_client s) = Measured r \<Longrightarrow>
     measures_with_locks pr ws r"

lemma measures_with_locks_measures:
  assumes "measures_with_locks pr ws r"
  shows "measures pr ws r"
  using assms
proof cases
  case (locks_measured s)
  have "reach (bench_init ws) (bench_step pr) (view_of bn_engine bench_with_engine s)"
    using locks_measured(1) unfolding measurement_defs by (rule meas.program.view_reach)
  then show ?thesis
    by (rule measured) (simp add: locks_measured(2) view_of_def bench_set_pool)
next
  case (locks_not_constructed spawn now f)
  from not_constructed [OF locks_not_constructed(2)] show ?thesis unfolding locks_not_constructed(1) .
qed

text \<open>With enough threads there is a measurement.\<close>

lemma measures_with_locks_exists:
  assumes "ws \<noteq> 0"
  shows "\<exists>m. measures_with_locks pr ws (Inr m)"
proof -
  obtain b where b: "bench_init ws b" using bench_constructed [OF assms] by blast
  let ?s = "\<lparr>pg_client = b, pg_mutex = None,
      pg_pcs = replicate (length (workers (eng_pool (bn_engine b))) + length (callers (eng_pool (bn_engine b)))) Idle\<rparr>"
  have "measurement_init ws ?s" using b by (simp add: measurement_init_def client_init_def threads_of_def)
  then have reach: "reach (measurement_init ws) (measurement_step pr) ?s" by (rule reach_init)
  then have "client_inv bn_engine bench_with_engine (bench_inv pr) bench_outside ?s"
    unfolding measurement_defs by (rule meas.program.inv_reach)
  from meas.program_run.run_reaches_final [OF this] obtain t where
    run: "(measurement_run pr)\<^sup>*\<^sup>* ?s t" and "bench_final (pg_client t)"
    and final: "client_inv bn_engine bench_with_engine (bench_inv pr) bench_outside t"
    unfolding measurement_run_def by blast
  then obtain r where t: "bn_pc (pg_client t) = Measured r" by (auto simp: bench_final_def)
  have "measurement_run pr \<le> measurement_step pr"
    using meas.program_run.run_step unfolding measurement_defs by blast
  then have "(measurement_step pr)\<^sup>*\<^sup>* ?s t" using run rtranclp_mono by blast
  then have "reach (measurement_init ws) (measurement_step pr) t" using reach by (rule reach_steps)
  then have r: "measures_with_locks pr ws r" using t by (rule locks_measured)
  have "bench_inv pr (view_of bn_engine bench_with_engine t)" "bn_pc (view_of bn_engine bench_with_engine t) = Measured r"
    using final t by (simp_all add: client_inv_def view_of_def bench_set_pool)
  with r measured_complete show ?thesis by metis
qed

text \<open>
  C25: A benchmark run is valid or fails loudly: in a Release build without sanitizers, or with
  \<open>--smoke\<close>, when every call of \<open>measure_once\<close> is one of the runs its threads, locks and
  notifications allow, the program writes its environment, the header and the rows of all profiles and
  exits with 0, never with the code for lost work; the only other end is the exception of a thread
  that cannot be created.
\<close>

theorem benchmark_valid:
  assumes "\<And>pr w k. w \<noteq> 0 \<Longrightarrow> measures_with_locks pr w (call pr w k)"
    and "bench_args (drop 1 argv) False = Bench_go smoke"
    and "smoke \<or> h_sanitizer h = ''off'' \<and> h_build_type h = ''Release''"
  defines "plan \<equiv> (if smoke then smoke_plan else measurement_plan (h_detected h))"
  shows "\<exists>out err r. bench_main h argv call = (out, err, r) \<and> (r = Inr 0 \<or> r = Inl System_error)
     \<and> ((\<forall>pr w k. w \<noteq> 0 \<longrightarrow> (\<exists>m. call pr w k = Inr m)) \<longrightarrow> r = Inr 0)
     \<and> (r = Inr 0 \<longrightarrow> out = print_environment h plan smoke @ print_header
          @ concat (concat (map (profile_rows plan call) (pl_profiles plan))))"
  unfolding plan_def
  using bench_main_valid [OF measures_with_locks_measures [OF assms(1)] assms(2,3)] .

theorem benchmark_valid_witness:
  "\<exists>call out err. bench_main demo_host [''bench-task-engine'', ''--smoke''] call = (out, err, Inr 0)
     \<and> measures_with_locks demo_profile 1 (call demo_profile 1 0)"
proof -
  define m where "m pr w = (SOME m. measures_with_locks pr w (Inr m))" for pr w
  have m: "w \<noteq> 0 \<Longrightarrow> measures_with_locks pr w (Inr (m pr w))" for pr w
    unfolding m_def by (rule someI_ex [OF measures_with_locks_exists])
  let ?call = "\<lambda>pr w (k :: nat). Inr (m pr w)"
  have call: "w \<noteq> 0 \<Longrightarrow> measures_with_locks pr w (?call pr w k)" for pr w k by (rule m)
  have args: "bench_args (drop 1 [''bench-task-engine'', ''--smoke'']) False = Bench_go True" by simp
  have "\<exists>out err. bench_main demo_host [''bench-task-engine'', ''--smoke''] ?call = (out, err, Inr 0)"
    using benchmark_valid [of ?call, OF call args disjI1 [OF TrueI], of demo_host] by auto
  with m [of 1 demo_profile] show ?thesis by (metis one_neq_zero)
qed

end
